(* ===== verification/Prelude.thy ===== *)
theory Prelude
  imports Main "HOL-Library.Sublist"
begin

text \<open>
  Shared vocabulary of the development: Go's integer arithmetic at 64 bits, the functions of Go's
  \<open>strings\<close> and \<open>strconv\<close> packages that the sources call, and generic lemmas on lists and maps.

  Go strings are byte sequences, so they are \<^typ>\<open>string\<close> here. The functions that Go defines on
  Unicode text are given on the bytes of its UTF-8 encoding: \<open>TrimSpace\<close> in full, \<open>ToLower\<close> for
  ASCII letters only, since the sources apply it to configuration keywords, HTTP host names and file
  name extensions and compare the result with ASCII words.
\<close>

section \<open>Integers\<close>

text \<open>\<open>i64\<close> is what an \<open>int64\<close> (or Go's 64-bit \<open>int\<close>) holds after an operation whose mathematical
  result is the argument: two's complement wrap-around.\<close>

definition i64 :: "int \<Rightarrow> int" where
  "i64 x = (x + 2 ^ 63) mod 2 ^ 64 - 2 ^ 63"

text \<open>Go's integer division truncates towards zero.\<close>

definition go_div :: "int \<Rightarrow> int \<Rightarrow> int" where
  "go_div a b = sgn a * sgn b * (\<bar>a\<bar> div \<bar>b\<bar>)"

definition in_i64 :: "int \<Rightarrow> bool" where
  "in_i64 x \<longleftrightarrow> - (2 ^ 63) \<le> x \<and> x < 2 ^ 63"

lemma i64_id: "in_i64 x \<Longrightarrow> i64 x = x"
  by (simp add: i64_def in_i64_def)

lemma i64_bounds: "in_i64 (i64 x)"
proof -
  have "0 \<le> (x + 2 ^ 63) mod 2 ^ 64" and "(x + 2 ^ 63) mod 2 ^ 64 < (2 ^ 64 :: int)"
    by simp_all
  then show ?thesis by (simp add: in_i64_def i64_def)
qed

lemma go_div_nonneg: "0 \<le> a \<Longrightarrow> 0 < b \<Longrightarrow> go_div a b = a div b"
  by (auto simp: go_div_def sgn_if)

section \<open>Strings\<close>

type_synonym bytes = string

definition HasPrefix :: "string \<Rightarrow> string \<Rightarrow> bool" where
  "HasPrefix s p \<longleftrightarrow> take (length p) s = p"

definition HasSuffix :: "string \<Rightarrow> string \<Rightarrow> bool" where
  "HasSuffix s p \<longleftrightarrow> HasPrefix (rev s) (rev p)"

fun Contains :: "string \<Rightarrow> string \<Rightarrow> bool" where
  "Contains [] p = (p = [])"
| "Contains (c # s) p = (HasPrefix (c # s) p \<or> Contains s p)"

text \<open>\<open>strings.Split(s, sep)\<close> for a one-byte separator.\<close>

fun Split :: "char \<Rightarrow> string \<Rightarrow> string list" where
  "Split c [] = [[]]"
| "Split c (x # xs) =
     (if x = c then [] # Split c xs
      else (x # hd (Split c xs)) # tl (Split c xs))"

fun Join :: "string \<Rightarrow> string list \<Rightarrow> string" where
  "Join sep [] = []"
| "Join sep [x] = x"
| "Join sep (x # y # ys) = x @ sep @ Join sep (y # ys)"

text \<open>\<open>strings.Cut(s, sep)\<close> for a one-byte separator: before, after, found.\<close>

definition Cut :: "char \<Rightarrow> string \<Rightarrow> string \<times> string \<times> bool" where
  "Cut c s = (let pre = takeWhile (\<lambda>x. x \<noteq> c) s
              in if c \<in> set s then (pre, drop (length pre + 1) s, True) else (s, [], False))"

definition is_space :: "char \<Rightarrow> bool" where
  "is_space c \<longleftrightarrow> of_char c \<in> {9, 10, 11, 12, 13, 32 :: nat}"

text \<open>\<open>unicode.IsSpace\<close>: the white space of ASCII, U+0085, U+00A0, U+1680, U+2000 to U+200A, U+2028,
  U+2029, U+202F, U+205F and U+3000, as the byte sequences that encode them. \<open>strings.TrimSpace\<close> removes
  them one by one at the front and then at the end.\<close>

definition utf8_spaces :: "string list" where
  "utf8_spaces =
     [[CHR 0x09], [CHR 0x0A], [CHR 0x0B], [CHR 0x0C], [CHR 0x0D], [CHR 0x20],
      [CHR 0xC2, CHR 0x85], [CHR 0xC2, CHR 0xA0], [CHR 0xE1, CHR 0x9A, CHR 0x80],
      [CHR 0xE2, CHR 0x80, CHR 0x80], [CHR 0xE2, CHR 0x80, CHR 0x81], [CHR 0xE2, CHR 0x80, CHR 0x82],
      [CHR 0xE2, CHR 0x80, CHR 0x83], [CHR 0xE2, CHR 0x80, CHR 0x84], [CHR 0xE2, CHR 0x80, CHR 0x85],
      [CHR 0xE2, CHR 0x80, CHR 0x86], [CHR 0xE2, CHR 0x80, CHR 0x87], [CHR 0xE2, CHR 0x80, CHR 0x88],
      [CHR 0xE2, CHR 0x80, CHR 0x89], [CHR 0xE2, CHR 0x80, CHR 0x8A], [CHR 0xE2, CHR 0x80, CHR 0xA8],
      [CHR 0xE2, CHR 0x80, CHR 0xA9], [CHR 0xE2, CHR 0x80, CHR 0xAF], [CHR 0xE2, CHR 0x81, CHR 0x9F],
      [CHR 0xE3, CHR 0x80, CHR 0x80]]"

function trim_front :: "string list \<Rightarrow> string \<Rightarrow> string" where
  "trim_front ws s =
     (case find (HasPrefix s) ws of
        None \<Rightarrow> s
      | Some w \<Rightarrow> if w = [] then s else trim_front ws (drop (length w) s))"
  by pat_completeness auto
termination
proof (relation "measure (\<lambda>(ws, s). length s)")
  fix ws :: "string list" and s w
  assume "find (HasPrefix s) ws = Some w" "w \<noteq> []"
  then have "take (length w) s = w" "w \<noteq> []" by (auto simp: find_Some_iff HasPrefix_def)
  then have "s \<noteq> []" by auto
  with \<open>w \<noteq> []\<close> show "((ws, drop (length w) s), ws, s) \<in> measure (\<lambda>(ws, s). length s)" by simp
qed simp

declare trim_front.simps [simp del]

definition TrimSpace :: "string \<Rightarrow> string" where
  "TrimSpace s = rev (trim_front (map rev utf8_spaces) (rev (trim_front utf8_spaces s)))"

definition lower :: "char \<Rightarrow> char" where
  "lower c = (if 65 \<le> (of_char c :: nat) \<and> (of_char c :: nat) \<le> 90 then char_of (of_char c + 32 :: nat) else c)"

definition ToLower :: "string \<Rightarrow> string" where
  "ToLower s = map lower s"

text \<open>The rest of a string after its last slash: \<open>s[strings.LastIndex(s, "/")+1:]\<close>.\<close>

definition after_slash :: "string \<Rightarrow> string" where
  "after_slash s = rev (takeWhile (\<lambda>c. c \<noteq> CHR ''/'') (rev s))"

text \<open>\<open>path.Base\<close>.\<close>

definition path_Base :: "string \<Rightarrow> string" where
  "path_Base s =
     (if s = '''' then ''.''
      else let t = rev (dropWhile (\<lambda>c. c = CHR ''/'') (rev s)) in if t = '''' then ''/'' else after_slash t)"

text \<open>\<open>strconv.Atoi\<close>: an optional sign and at least one decimal digit.\<close>

definition is_digit :: "char \<Rightarrow> bool" where
  "is_digit c \<longleftrightarrow> 48 \<le> (of_char c :: nat) \<and> (of_char c :: nat) \<le> 57"

definition digit_val :: "char \<Rightarrow> int" where
  "digit_val c = int (of_char c) - 48"

definition digits_val :: "string \<Rightarrow> int" where
  "digits_val s = foldl (\<lambda>n c. 10 * n + digit_val c) 0 s"

definition Atoi :: "string \<Rightarrow> int option" where
  "Atoi s =
     (let body = (case s of c # t \<Rightarrow> if c = CHR ''+'' \<or> c = CHR ''-'' then t else s | [] \<Rightarrow> s);
          v = (case s of c # t \<Rightarrow> if c = CHR ''-'' then - digits_val t else digits_val body | [] \<Rightarrow> 0)
      in if body = [] \<or> \<not> list_all is_digit body \<or> \<not> in_i64 v then None else Some v)"

section \<open>Lemmas on strings\<close>

lemma HasPrefix_iff [simp]: "HasPrefix s p \<longleftrightarrow> prefix p s"
  by (metis HasPrefix_def append_eq_conv_conj prefix_def)

lemma HasSuffix_iff [simp]: "HasSuffix s p \<longleftrightarrow> suffix p s"
  by (simp add: HasSuffix_def suffix_to_prefix)

lemma Contains_iff: "Contains s p \<longleftrightarrow> (\<exists>u v. s = u @ p @ v)"
proof (induction s)
  case Nil
  then show ?case by auto
next
  case (Cons c s)
  have "(\<exists>u v. c # s = u @ p @ v) \<longleftrightarrow> (\<exists>v. c # s = p @ v) \<or> (\<exists>u v. s = u @ p @ v)"
    by (metis append_Cons append_Nil append_eq_Cons_conv)
  with Cons show ?case by (auto simp: prefix_def)
qed

lemma Split_ne [simp]: "Split c s \<noteq> []"
  by (cases "(c, s)" rule: Split.cases) auto

lemma Split_no_sep: "x \<in> set (Split c s) \<Longrightarrow> c \<notin> set x"
proof (induction s arbitrary: x)
  case Nil
  then show ?case by simp
next
  case (Cons a s)
  have "hd (Split c s) \<in> set (Split c s)" by simp
  with Cons show ?case
    by (auto split: if_splits dest: list.set_sel(2) [rotated])
qed

lemma Join_Cons: "ys \<noteq> [] \<Longrightarrow> Join sep (x # ys) = x @ sep @ Join sep ys"
  by (cases ys) auto

lemma Join_Split: "Join [c] (Split c s) = s"
proof (induction s)
  case Nil
  then show ?case by simp
next
  case (Cons a s)
  obtain y ys where y: "Split c s = y # ys" by (cases "Split c s") auto
  show ?case
  proof (cases "ys = []")
    case True
    with Cons y show ?thesis by auto
  next
    case False
    with Cons y show ?thesis by (auto simp: Join_Cons)
  qed
qed

lemma Split_no_char: "c \<notin> set x \<Longrightarrow> Split c x = [x]"
  by (induction x) auto

lemma Split_append_sep: "c \<notin> set x \<Longrightarrow> Split c (x @ c # s) = x # Split c s"
  by (induction x) auto

lemma Split_Join:
  "xs \<noteq> [] \<Longrightarrow> \<forall>x\<in>set xs. c \<notin> set x \<Longrightarrow> Split c (Join [c] xs) = xs"
proof (induction "[c]" xs rule: Join.induct)
  case 1
  then show ?case by simp
next
  case (2 x)
  then show ?case by (simp add: Split_no_char)
next
  case (3 x y ys)
  then show ?case by (simp add: Split_append_sep)
qed

lemma after_slash_no_slash: "CHR ''/'' \<notin> set (after_slash s)"
  by (auto simp: after_slash_def dest: set_takeWhileD)

lemma after_slash_id: "CHR ''/'' \<notin> set s \<Longrightarrow> after_slash s = s"
proof -
  assume "CHR ''/'' \<notin> set s"
  then have "takeWhile (\<lambda>c. c \<noteq> CHR ''/'') (rev s) = rev s"
    by (auto simp: takeWhile_eq_all_conv)
  then show ?thesis by (simp only: after_slash_def rev_rev_ident)
qed

section \<open>Lemmas on lists and maps\<close>

lemma list_all_set [simp]: "list_all P xs \<longleftrightarrow> (\<forall>x\<in>set xs. P x)"
  by (simp add: list_all_iff)

lemma sum_list_bound: "\<forall>x\<in>set xs. f x \<le> (b :: int) \<Longrightarrow> sum_list (map f xs) \<le> b * int (length xs)"
  by (induction xs) (auto simp: algebra_simps)

lemma sum_bind_Inr:
  assumes "\<And>y. x = Inr y \<longleftrightarrow> P \<and> y = v"
  shows "(case x of Inl e \<Rightarrow> Inl (h e) | Inr y \<Rightarrow> g y) = Inr z \<longleftrightarrow> P \<and> g v = Inr z"
proof (cases x)
  case (Inl e)
  with assms [of v] show ?thesis by simp
next
  case (Inr y)
  with assms [of y] show ?thesis by auto
qed

lemma ex_nat_split: "(\<exists>n. P n) \<longleftrightarrow> P 0 \<or> (\<exists>n. P (Suc n))"
  by (metis not0_implies_Suc)

lemma map_upd_other [simp]: "k \<noteq> k' \<Longrightarrow> (m(k \<mapsto> v)) k' = m k'"
  by simp

section \<open>Lemmas: trimming\<close>

text \<open>Bytes that neither begin nor end a space: ASCII characters other than white space.\<close>

definition plain_byte :: "char \<Rightarrow> bool" where
  "plain_byte c \<longleftrightarrow> \<not> is_space c \<and> (of_char c :: nat) < 128"

lemma trim_front_none: "\<forall>w\<in>set ws. \<not> HasPrefix s w \<Longrightarrow> trim_front ws s = s"
  by (subst trim_front.simps) (simp add: find_None_iff [THEN iffD2])

lemma trim_front_done: "[] \<notin> set ws \<Longrightarrow> w \<in> set ws \<Longrightarrow> \<not> HasPrefix (trim_front ws s) w"
proof (induction ws s rule: trim_front.induct)
  case (1 ws s)
  show ?case
  proof (cases "find (HasPrefix s) ws")
    case None
    then have none: "\<forall>w\<in>set ws. \<not> HasPrefix s w" by (auto simp: find_None_iff)
    with "1.prems" show ?thesis by (simp add: trim_front_none [OF none])
  next
    case (Some v)
    then have "v \<in> set ws" by (auto simp: find_Some_iff)
    then have "v \<noteq> []" using "1.prems" by auto
    with Some "1.IH" "1.prems" show ?thesis by (subst trim_front.simps) simp
  qed
qed

lemma trim_front_suffix: "suffix (trim_front ws s) s"
proof (induction ws s rule: trim_front.induct)
  case (1 ws s)
  show ?case
  proof (cases "find (HasPrefix s) ws")
    case None
    then show ?thesis by (subst trim_front.simps) simp
  next
    case (Some v)
    show ?thesis
    proof (cases "v = []")
      case True
      with Some show ?thesis by (subst trim_front.simps) simp
    next
      case False
      with "1.IH" [OF Some] suffix_drop [of "length v" s] have "suffix (trim_front ws (drop (length v) s)) s"
        using suffix_order.order_trans by blast
      with Some False show ?thesis by (subst trim_front.simps) simp
    qed
  qed
qed

lemma utf8_spaces_ends: "w \<in> set utf8_spaces \<Longrightarrow> w \<noteq> [] \<and> \<not> plain_byte (hd w) \<and> \<not> plain_byte (last w)"
  unfolding utf8_spaces_def by (auto simp: plain_byte_def is_space_def)

lemma trim_front_plain:
  assumes "s = [] \<or> plain_byte (hd s)" "\<forall>w\<in>set ws. w \<noteq> [] \<and> \<not> plain_byte (hd w)"
  shows "trim_front ws s = s"
  using assms by (intro trim_front_none) (auto simp: HasPrefix_iff prefix_def)

lemma TrimSpace_ends:
  assumes "s = [] \<or> plain_byte (hd s) \<and> plain_byte (last s)"
  shows "TrimSpace s = s"
  using assms utf8_spaces_ends by (auto simp: TrimSpace_def trim_front_plain hd_rev)

lemma TrimSpace_plain: "list_all plain_byte s \<Longrightarrow> TrimSpace s = s"
  by (rule TrimSpace_ends) (auto simp: list_all_iff)

lemma TrimSpace_idem [simp]: "TrimSpace (TrimSpace s) = TrimSpace s"
proof -
  let ?u = "trim_front utf8_spaces s"
  let ?v = "trim_front (map rev utf8_spaces) (rev ?u)"
  have ne: "[] \<notin> set utf8_spaces" "[] \<notin> set (map rev utf8_spaces)" using utf8_spaces_ends by auto
  have "prefix (rev ?v) ?u" using trim_front_suffix [of "map rev utf8_spaces" "rev ?u"] by (simp add: suffix_to_prefix)
  then have "\<forall>w\<in>set utf8_spaces. \<not> HasPrefix (rev ?v) w"
    using trim_front_done [OF ne(1), of _ s] by (meson HasPrefix_iff prefix_order.order_trans)
  moreover have "\<forall>w\<in>set (map rev utf8_spaces). \<not> HasPrefix ?v w" using trim_front_done [OF ne(2)] by blast
  ultimately show ?thesis by (simp only: TrimSpace_def trim_front_none rev_rev_ident)
qed

lemma TrimSpace_newline:
  assumes "list_all plain_byte s"
  shows "TrimSpace (s @ [CHR 0x0A]) = s"
proof -
  have front: "trim_front utf8_spaces (CHR 0x0A # r) = trim_front utf8_spaces r" for r
    by (subst trim_front.simps) (simp add: utf8_spaces_def)
  have rear: "trim_front (map rev utf8_spaces) (CHR 0x0A # r) = trim_front (map rev utf8_spaces) r" for r
    by (subst trim_front.simps) (simp add: utf8_spaces_def)
  have sp: "\<forall>w\<in>set utf8_spaces. w \<noteq> [] \<and> \<not> plain_byte (hd w)" "\<forall>w\<in>set (map rev utf8_spaces). w \<noteq> [] \<and> \<not> plain_byte (hd w)"
    using utf8_spaces_ends by (auto simp: hd_rev)
  have r: "trim_front (map rev utf8_spaces) (rev s) = rev s"
    using assms by (intro trim_front_plain [OF _ sp(2)]) (cases "s = []"; simp add: list_all_iff hd_rev)
  show ?thesis
  proof (cases "s = []")
    case True
    then show ?thesis using trim_front_plain [OF _ sp(1), of "[]"] trim_front_plain [OF _ sp(2), of "[]"] front [of "[]"]
      by (simp add: TrimSpace_def)
  next
    case False
    then have "trim_front utf8_spaces (s @ [CHR 0x0A]) = s @ [CHR 0x0A]"
      using assms by (intro trim_front_plain [OF _ sp(1)]) (simp add: list_all_iff)
    then show ?thesis using rear [of "rev s"] r by (simp add: TrimSpace_def)
  qed
qed

end
