(* ===== verification/Schedule.thy ===== *)
theory Schedule
  imports Prelude
begin

text \<open>
  Package \<open>schedule\<close> (\<open>internal/schedule/schedule.go\<close>): time-of-day limit rules.

  An instant is an \<^typ>\<open>int\<close>, the nanoseconds since Go's zero time (1 January of year 1, 00:00 UTC,
  a Monday). The time zone database is not part of the repository, so the local offset in seconds
  east of UTC is a parameter \<open>z\<close> of everything that reads a local clock.
\<close>

section \<open>Clock\<close>

type_synonym time = int
type_synonym zone = "int \<Rightarrow> int"

definition second :: int where "second = 1000000000"
definition minute :: int where "minute = 60 * second"
definition day_ns :: int where "day_ns = 24 * 60 * minute"

definition local_secs :: "zone \<Rightarrow> time \<Rightarrow> int" where
  "local_secs z t = t div second + z t"

definition Hour :: "zone \<Rightarrow> time \<Rightarrow> int" where
  "Hour z t = (local_secs z t mod 86400) div 3600"

definition Minute :: "zone \<Rightarrow> time \<Rightarrow> int" where
  "Minute z t = (local_secs z t mod 3600) div 60"

definition Weekday :: "zone \<Rightarrow> time \<Rightarrow> nat" where
  "Weekday z t = nat ((local_secs z t div 86400 + 1) mod 7)"

section \<open>Limits and rules\<close>

record Limits =
  Upload :: int
  Download :: int
  MaxConns :: int
  MaxConnsPerTorrent :: int
  MaxHalfOpen :: int
  MaxActiveUploads :: int

record Partial =
  pUpload :: "int option"
  pDownload :: "int option"
  pMaxConns :: "int option"
  pMaxConnsPerTorrent :: "int option"
  pMaxActiveUploads :: "int option"

definition or_keep :: "'a option \<Rightarrow> 'a \<Rightarrow> 'a" where
  "or_keep o' d = (case o' of None \<Rightarrow> d | Some v \<Rightarrow> v)"

definition Apply :: "Partial \<Rightarrow> Limits \<Rightarrow> Limits" where
  "Apply p l =
     l\<lparr> Upload := or_keep (pUpload p) (Upload l),
        Download := or_keep (pDownload p) (Download l),
        MaxConns := or_keep (pMaxConns p) (MaxConns l),
        MaxConnsPerTorrent := or_keep (pMaxConnsPerTorrent p) (MaxConnsPerTorrent l),
        MaxActiveUploads := or_keep (pMaxActiveUploads p) (MaxActiveUploads l) \<rparr>"

record Rule =
  Days :: "bool list"  \<comment> \<open>\<open>[7]bool\<close>, indexed by \<open>time.Weekday\<close>\<close>
  From :: int
  To :: int
  RSet :: Partial

definition Matches :: "zone \<Rightarrow> Rule \<Rightarrow> time \<Rightarrow> bool" where
  "Matches z r t =
     (let m = Hour z t * 60 + Minute z t;
          wd = Weekday z t;
          prev = (wd + 6) mod 7
      in if From r = To r then Days r ! wd
         else if From r < To r then Days r ! wd \<and> m \<ge> From r \<and> m < To r
         else (Days r ! wd \<and> m \<ge> From r) \<or> (Days r ! prev \<and> m < To r))"

record Sched =
  Base :: Limits
  Rules :: "Rule list"

fun first_match :: "zone \<Rightarrow> Limits \<Rightarrow> nat \<Rightarrow> Rule list \<Rightarrow> time \<Rightarrow> Limits \<times> int" where
  "first_match z base i [] t = (base, -1)"
| "first_match z base i (r # rs) t =
     (if Matches z r t then (Apply (RSet r) base, int i) else first_match z base (Suc i) rs t)"

definition Effective :: "zone \<Rightarrow> Sched \<Rightarrow> time \<Rightarrow> Limits \<times> int" where
  "Effective z s t = first_match z (Base s) 0 (Rules s) t"

text \<open>\<open>t.Truncate(time.Minute)\<close> rounds down to a multiple of a minute since the zero time.\<close>

definition Truncate :: "time \<Rightarrow> time" where
  "Truncate t = t - t mod minute"

function scan_minutes :: "zone \<Rightarrow> Sched \<Rightarrow> int \<Rightarrow> time \<Rightarrow> time \<Rightarrow> bool" where
  "scan_minutes z s i0 t b =
     (if b < t then False
      else if snd (Effective z s t) \<noteq> i0 then True
      else scan_minutes z s i0 (t + minute) b)"
  by pat_completeness auto
termination
  by (relation "measure (\<lambda>(z, s, i0, t, b). nat (b + 1 - t))") (auto simp: minute_def second_def)

definition Boundary :: "zone \<Rightarrow> Sched \<Rightarrow> time \<Rightarrow> time \<Rightarrow> bool" where
  "Boundary z s a b =
     (if \<not> a < b then False
      else let lim = a + 8 * day_ns;
               b' = (if lim < b then lim else b);
               i0 = snd (Effective z s a)
           in scan_minutes z s i0 (Truncate a + minute) b')"

section \<open>Parsing\<close>

definition dayNames :: "string \<Rightarrow> nat option" where
  "dayNames s = map_of [(''sun'', 0), (''mon'', 1), (''tue'', 2), (''wed'', 3), (''thu'', 4),
                        (''fri'', 5), (''sat'', 6)] s"

text \<open>The marking loop only ever runs on weekdays, \<open>0..6\<close>; elsewhere the model stops at once.\<close>

function mark_days :: "nat \<Rightarrow> nat \<Rightarrow> bool list \<Rightarrow> bool list" where
  "mark_days w to d =
     (let d' = d[w := True]
      in if w = to \<or> \<not> (w < 7 \<and> to < 7) then d' else mark_days ((w + 1) mod 7) to d')"
  by pat_completeness auto
termination
proof (relation "measure (\<lambda>(w, to, d). (to + 7 - w) mod 7)", goal_cases)
  case 1
  then show ?case by simp
next
  case (2 w to d d')
  then have "w < 7" "to < 7" "w \<noteq> to" by auto
  then have "(to + 7 - (w + 1) mod 7) mod 7 < (to + 7 - w) mod 7"
    by (cases "w = 6"; cases "w < to") (auto simp: mod_if)
  then show ?case by simp
qed

datatype parse_error = UnknownDay string | WantHHMM | OutOfRange

fun parse_day_specs :: "string list \<Rightarrow> bool list \<Rightarrow> parse_error + bool list" where
  "parse_day_specs [] d = Inr d"
| "parse_day_specs (s0 # ss) d =
     (let s = ToLower (TrimSpace s0);
          (a, b, isRange) = Cut (CHR ''-'') s
      in case dayNames a of
           None \<Rightarrow> Inl (UnknownDay a)
         | Some from \<Rightarrow>
             (if isRange then
                (case dayNames b of
                   None \<Rightarrow> Inl (UnknownDay b)
                 | Some to \<Rightarrow> parse_day_specs ss (mark_days from to d))
              else parse_day_specs ss (mark_days from from d)))"

definition ParseDays :: "string list \<Rightarrow> parse_error + bool list" where
  "ParseDays specs =
     (if specs = [] then Inr (replicate 7 True) else parse_day_specs specs (replicate 7 False))"

definition ParseClock :: "string \<Rightarrow> parse_error + int" where
  "ParseClock s =
     (let (hh, mm, ok) = Cut (CHR '':'') (TrimSpace s)
      in if \<not> ok \<or> length hh \<noteq> 2 \<or> length mm \<noteq> 2 then Inl WantHHMM
         else case (Atoi hh, Atoi mm) of
           (Some h, Some m) \<Rightarrow>
             if h < 0 \<or> h > 24 \<or> m < 0 \<or> m > 59 \<or> (h = 24 \<and> m \<noteq> 0) then Inl OutOfRange
             else Inr (h * 60 + m)
         | _ \<Rightarrow> Inl OutOfRange)"

declare scan_minutes.simps [simp del] and mark_days.simps [simp del]

section \<open>Reference definitions\<close>

text \<open>Minutes of local time since the zero time, and the window of minutes a rule covers when it
  starts on the local day \<open>d\<close>.\<close>

definition local_minute :: "zone \<Rightarrow> time \<Rightarrow> int" where
  "local_minute z t = local_secs z t div 60"

definition day_on :: "Rule \<Rightarrow> int \<Rightarrow> bool" where
  "day_on r d = Days r ! nat ((d + 1) mod 7)"

definition in_window :: "Rule \<Rightarrow> int \<Rightarrow> int \<Rightarrow> bool" where
  "in_window r d lm =
     (if From r = To r then d * 1440 \<le> lm \<and> lm < (d + 1) * 1440
      else if From r < To r then d * 1440 + From r \<le> lm \<and> lm < d * 1440 + To r
      else d * 1440 + From r \<le> lm \<and> lm < (d + 1) * 1440 + To r)"

text \<open>A zone whose offset never changes and is a whole number of minutes (no daylight saving).\<close>

definition fixed_zone :: "int \<Rightarrow> zone" where
  "fixed_zone k = (\<lambda>_. 60 * k)"

abbreviation rule_index :: "zone \<Rightarrow> Sched \<Rightarrow> time \<Rightarrow> int" where
  "rule_index z s t \<equiv> snd (Effective z s t)"

section \<open>Clock lemmas\<close>

lemma minute_pos [simp]: "0 < minute" "minute \<noteq> 0" "0 \<le> minute"
  by (simp_all add: minute_def second_def)

lemma minute_of_day: "Hour z t * 60 + Minute z t = local_minute z t mod 1440"
proof -
  define x where "x = local_secs z t"
  define M where "M = x div 60 mod 1440"
  have day: "x mod 86400 = 60 * M + x mod 60"
    using zmod_zmult2_eq [of 1440 x 60] by (simp add: M_def)
  have hour: "x mod 3600 = 60 * (M mod 60) + x mod 60"
    using zmod_zmult2_eq [of 60 x 60] by (simp add: M_def mod_mod_cancel)
  have "0 \<le> x mod 60" "x mod 60 < 60" by simp_all
  then have "(60 * M + x mod 60) div 3600 = M div 60"
    and "(60 * (M mod 60) + x mod 60) div 60 = M mod 60" by linarith+
  then show ?thesis
    unfolding Hour_def Minute_def local_minute_def x_def [symmetric] day hour M_def [symmetric]
    by simp
qed

lemma Weekday_alt: "Weekday z t = nat ((local_minute z t div 1440 + 1) mod 7)"
  unfolding Weekday_def local_minute_def by (simp add: zdiv_zmult2_eq [symmetric])

lemma Weekday_prev: "(Weekday z t + 6) mod 7 = nat (local_minute z t div 1440 mod 7)"
proof -
  define d where "d = local_minute z t div 1440"
  have "int ((nat ((d + 1) mod 7) + 6) mod 7) = int (nat (d mod 7))"
    by (simp add: zmod_int) presburger
  then show ?thesis unfolding Weekday_alt d_def [symmetric] by simp
qed

lemma Matches_alt:
  "Matches z r t =
     (let lm = local_minute z t; m = lm mod 1440; d = lm div 1440
      in if From r = To r then day_on r d
         else if From r < To r then day_on r d \<and> From r \<le> m \<and> m < To r
         else (day_on r d \<and> From r \<le> m) \<or> (day_on r (d - 1) \<and> m < To r))"
  by (simp add: Matches_def Let_def minute_of_day Weekday_prev Weekday_alt [symmetric] day_on_def)

lemma local_minute_fixed: "local_minute (fixed_zone k) t = t div minute + k"
proof -
  have "t div minute = t div second div 60"
    unfolding minute_def by (simp add: zdiv_zmult2_eq mult.commute second_def)
  then show ?thesis
    by (simp add: local_minute_def local_secs_def fixed_zone_def)
qed

section \<open>Windows\<close>

text \<open>Only the local day of the instant and the day before it can have a window around it.\<close>

lemma minute_split:
  obtains q m :: int where "lm div 1440 = q" "lm mod 1440 = m" "lm = 1440 * q + m" "0 \<le> m" "m < 1440"
proof
  show "lm = 1440 * (lm div 1440) + lm mod 1440" by simp
qed simp_all

lemma in_window_day:
  assumes "0 \<le> From r" "From r \<le> 1440" "0 \<le> To r" "To r \<le> 1440" "in_window r d lm"
  shows "d = lm div 1440 \<or> (To r < From r \<and> d = lm div 1440 - 1)"
proof (rule minute_split [of lm])
  fix q m
  assume "lm div 1440 = q" "lm mod 1440 = m" "lm = 1440 * q + m" "0 \<le> m" "m < 1440"
  with assms show ?thesis unfolding in_window_def by (auto split: if_splits)
qed

lemma in_window_today:
  assumes "0 \<le> From r" "From r \<le> 1440" "0 \<le> To r" "To r \<le> 1440"
  shows "in_window r (lm div 1440) lm \<longleftrightarrow>
           (if From r = To r then True
            else if From r < To r then From r \<le> lm mod 1440 \<and> lm mod 1440 < To r
            else From r \<le> lm mod 1440)"
proof (rule minute_split [of lm])
  fix q m
  assume eqs: "lm div 1440 = q" "lm mod 1440 = m" and lm: "lm = 1440 * q + m" "0 \<le> m" "m < 1440"
  with assms show ?thesis unfolding eqs in_window_def lm(1) by auto
qed

lemma in_window_yesterday:
  assumes "0 \<le> From r" "From r \<le> 1440" "0 \<le> To r" "To r \<le> 1440" "To r < From r"
  shows "in_window r (lm div 1440 - 1) lm \<longleftrightarrow> lm mod 1440 < To r"
proof (rule minute_split [of lm])
  fix q m
  assume eqs: "lm div 1440 = q" "lm mod 1440 = m" and lm: "lm = 1440 * q + m" "0 \<le> m" "m < 1440"
  with assms show ?thesis unfolding eqs in_window_def lm(1) by auto
qed

section \<open>The matching rule\<close>

lemma first_match_index:
  "snd (first_match z base i rs t) = -1 \<and> (\<forall>r\<in>set rs. \<not> Matches z r t)
   \<or> (\<exists>k < length rs. snd (first_match z base i rs t) = int (i + k) \<and> Matches z (rs ! k) t
        \<and> (\<forall>j<k. \<not> Matches z (rs ! j) t) \<and> fst (first_match z base i rs t) = Apply (RSet (rs ! k)) base)"
proof (induction rs arbitrary: i)
  case Nil
  then show ?case by simp
next
  case (Cons r rs)
  show ?case
  proof (cases "Matches z r t")
    case True
    then show ?thesis by (auto intro!: exI [of _ 0])
  next
    case False
    from Cons [of "Suc i"] consider
      "snd (first_match z base (Suc i) rs t) = -1" "\<forall>r\<in>set rs. \<not> Matches z r t"
      | k where "k < length rs" "snd (first_match z base (Suc i) rs t) = int (Suc i + k)"
        "Matches z (rs ! k) t" "\<forall>j<k. \<not> Matches z (rs ! j) t"
        "fst (first_match z base (Suc i) rs t) = Apply (RSet (rs ! k)) base" by blast
    then show ?thesis
    proof cases
      case 1
      with False show ?thesis by simp
    next
      case 2
      with False show ?thesis
        by (intro disjI2 exI [of _ "Suc k"]) (auto simp: nth_Cons' less_Suc_eq_0_disj)
    qed
  qed
qed

lemma first_match_cong:
  assumes "\<forall>r\<in>set rs. Matches z r t = Matches z r t'"
  shows "first_match z base i rs t = first_match z base i rs t'"
  using assms by (induction rs arbitrary: i) auto

lemma first_match_base_index: "snd (first_match z base i rs t) = snd (first_match z base' i rs t)"
  by (induction rs arbitrary: i) auto

section \<open>Weekly repetition and the boundary scan\<close>

lemma week_mod:
  fixes x y :: int
  assumes "x mod 10080 = y mod 10080"
  shows "x mod 1440 = y mod 1440" "(x div 1440 + 1) mod 7 = (y div 1440 + 1) mod 7"
    "(x div 1440) mod 7 = (y div 1440) mod 7"
proof -
  from assms obtain k where k: "x = y + 1440 * (7 * k)"
    by (auto simp: mod_eq_dvd_iff dvd_def algebra_simps)
  then have d: "x div 1440 = y div 1440 + 7 * k" by simp
  show "x mod 1440 = y mod 1440" unfolding k by (rule mod_mult_self2)
  have "x div 1440 + 1 = y div 1440 + 1 + 7 * k" using d by simp
  then show "(x div 1440 + 1) mod 7 = (y div 1440 + 1) mod 7" by (simp only: mod_mult_self2)
  show "(x div 1440) mod 7 = (y div 1440) mod 7" unfolding d by simp
qed

lemma Matches_weekly:
  assumes "local_minute z t mod 10080 = local_minute z t' mod 10080"
  shows "Matches z r t = Matches z r t'"
proof -
  have "local_minute z t mod 1440 = local_minute z t' mod 1440" by (rule week_mod [OF assms])
  moreover have "day_on r (local_minute z t div 1440) = day_on r (local_minute z t' div 1440)"
    by (simp only: day_on_def week_mod(2) [OF assms])
  moreover have "day_on r (local_minute z t div 1440 - 1) = day_on r (local_minute z t' div 1440 - 1)"
    by (simp only: day_on_def week_mod(3) [OF assms] diff_add_cancel)
  ultimately show ?thesis by (simp only: Matches_alt Let_def)
qed

lemma Effective_weekly:
  assumes "local_minute z t mod 10080 = local_minute z t' mod 10080"
  shows "Effective z s t = Effective z s t'"
  unfolding Effective_def using Matches_weekly [OF assms] by (auto intro: first_match_cong)

lemma Effective_fixed:
  assumes "t div minute mod 10080 = t' div minute mod 10080"
  shows "Effective (fixed_zone k) s t = Effective (fixed_zone k) s t'"
  by (rule Effective_weekly) (simp only: local_minute_fixed mod_add_cong [OF assms refl])

lemma scan_minutes_iff:
  "scan_minutes z s i0 t b \<longleftrightarrow> (\<exists>n. t + int n * minute \<le> b \<and> rule_index z s (t + int n * minute) \<noteq> i0)"
proof (induction z s i0 t b rule: scan_minutes.induct)
  case (1 z s i0 t b)
  let ?P = "\<lambda>t n. t + int n * minute \<le> b \<and> rule_index z s (t + int n * minute) \<noteq> i0"
  have shift: "(\<exists>n. ?P t n) \<longleftrightarrow> ?P t 0 \<or> (\<exists>n. ?P (t + minute) n)"
    by (subst ex_nat_split) (simp add: algebra_simps)
  show ?case
  proof (cases "b < t")
    case True
    moreover have "t \<le> t + int n * minute" for n using minute_pos(1) by (simp add: less_imp_le)
    ultimately have "\<not> ?P t n" for n using True by (meson leD order_trans)
    with True show ?thesis by (subst scan_minutes.simps) simp
  next
    case False
    show ?thesis
    proof (cases "rule_index z s t = i0")
      case True
      with False have "scan_minutes z s i0 t b = scan_minutes z s i0 (t + minute) b"
        by (subst scan_minutes.simps) simp
      with "1.IH" False True shift show ?thesis by simp
    next
      case ne: False
      with False have "scan_minutes z s i0 t b" by (subst scan_minutes.simps) simp
      with ne False shift show ?thesis by simp
    qed
  qed
qed

lemma minute_step:
  assumes "Truncate a \<le> u" "u mod minute = 0"
  obtains n where "u = Truncate a + int n * minute"
proof -
  have "Truncate a mod minute = 0"
    by (simp add: Truncate_def minus_mod_eq_mult_div)
  with assms(2) have "minute dvd u - Truncate a" by (metis dvd_diff mod_0_imp_dvd)
  then obtain k where k: "u - Truncate a = minute * k" by (auto simp: dvd_def)
  with assms(1) have "0 \<le> minute * k" by simp
  then have "0 \<le> k" using minute_pos(1) by (simp add: zero_le_mult_iff)
  with k that [of "nat k"] show ?thesis by (simp add: algebra_simps)
qed

text \<open>An instant whose rule differs from the one at \<open>a\<close> has, in the same minute of the week, a whole
  minute after \<open>a\<close> and at most seven days later.\<close>

lemma boundary_minute:
  assumes t: "a < t" and ne: "rule_index (fixed_zone k) s t \<noteq> rule_index (fixed_zone k) s a"
  obtains n where "Truncate a + minute + int n * minute \<le> t"
    "Truncate a + minute + int n * minute \<le> a + 8 * day_ns"
    "rule_index (fixed_zone k) s (Truncate a + minute + int n * minute)
       \<noteq> rule_index (fixed_zone k) s a"
proof -
  define q where "q = t div minute - a div minute"
  define j where "j = q mod 10080"
  define u where "u = Truncate a + j * minute"
  have ta: "Truncate a = a div minute * minute" by (simp add: Truncate_def minus_mod_eq_div_mult)
  have div_u: "u div minute = a div minute + j" by (simp add: u_def ta distrib_right [symmetric])
  have "(a div minute + j) mod 10080 = t div minute mod 10080"
    unfolding j_def q_def by (simp add: mod_add_right_eq)
  then have "Effective (fixed_zone k) s u = Effective (fixed_zone k) s t"
    by (intro Effective_fixed) (simp add: div_u)
  with ne have ne': "rule_index (fixed_zone k) s u \<noteq> rule_index (fixed_zone k) s a" by simp
  have "j \<noteq> 0"
  proof
    assume "j = 0"
    then have "Effective (fixed_zone k) s u = Effective (fixed_zone k) s a"
      by (intro Effective_fixed) (simp add: div_u)
    with ne' show False by simp
  qed
  moreover have "0 \<le> j" "j < 10080" by (simp_all add: j_def)
  ultimately have j: "1 \<le> j" "j < 10080" by simp_all
  have "0 \<le> q" using t by (simp add: q_def zdiv_mono1)
  then have "j \<le> q" by (simp add: j_def zmod_le_nonneg_dividend)
  then have "u \<le> t div minute * minute"
    by (simp add: u_def ta q_def distrib_right [symmetric] mult_right_mono)
  then have "u \<le> t" by (smt (verit) minus_mod_eq_div_mult minute_pos(1) pos_mod_sign)
  moreover have "u \<le> a + 8 * day_ns"
  proof -
    have "Truncate a \<le> a" by (simp add: Truncate_def)
    moreover have "j * minute \<le> 11520 * minute" using j by (intro mult_right_mono) auto
    ultimately show ?thesis unfolding u_def day_ns_def by linarith
  qed
  moreover have "u = Truncate a + minute + int (nat (j - 1)) * minute"
    using j by (simp add: u_def algebra_simps)
  ultimately show ?thesis using ne' that [of "nat (j - 1)"] by simp
qed

lemma Truncate_next: "a < Truncate a + minute"
  by (smt (verit) Truncate_def minute_pos(1) pos_mod_bound)

section \<open>Days and clocks\<close>

text \<open>What one entry of \<open>days\<close> denotes: the first and the last day of a range that may wrap.\<close>

definition day_range :: "string \<Rightarrow> (nat \<times> nat) option" where
  "day_range s0 =
     (let (a, b, isRange) = Cut (CHR ''-'') (ToLower (TrimSpace s0))
      in case dayNames a of
           None \<Rightarrow> None
         | Some from \<Rightarrow> if isRange then map_option (Pair from) (dayNames b) else Some (from, from))"

definition covers :: "nat \<times> nat \<Rightarrow> nat \<Rightarrow> bool" where
  "covers ft w \<longleftrightarrow> (w + 7 - fst ft) mod 7 \<le> (snd ft + 7 - fst ft) mod 7"

definition two_digits :: "nat \<Rightarrow> string" where
  "two_digits n = [char_of (48 + n div 10), char_of (48 + n mod 10)]"

definition clock_string :: "nat \<Rightarrow> string" where
  "clock_string m = two_digits (m div 60) @ '':'' @ two_digits (m mod 60)"

lemma dayNames_less: "dayNames s = Some w \<Longrightarrow> w < 7"
  by (auto simp: dayNames_def split: if_splits)

lemma days_after: "(x :: nat) < 7 \<Longrightarrow> w < 7 \<Longrightarrow> (x + 7 - w) mod 7 = (if w \<le> x then x - w else x + 7 - w)"
  by (auto simp: mod_if)

lemma covers_iff:
  "w < 7 \<Longrightarrow> to < 7 \<Longrightarrow> i < 7 \<Longrightarrow>
   covers (w, to) i \<longleftrightarrow> (if w \<le> to then w \<le> i \<and> i \<le> to else w \<le> i \<or> i \<le> to)"
  by (cases "w \<le> i"; cases "w \<le> to") (simp_all add: covers_def days_after, arith+)

lemma covers_step:
  assumes "w < 7" "to < 7" "i < 7" "w \<noteq> to"
  shows "covers (w, to) i = (i = w \<or> covers ((w + 1) mod 7, to) i)"
proof (cases "w = 6")
  case True
  with assms show ?thesis by (simp add: covers_iff) arith
next
  case False
  with assms have "(w + 1) mod 7 = w + 1" "w + 1 < 7" by auto
  with assms False show ?thesis by (simp add: covers_iff) arith
qed

lemma covers_refl: "w < 7 \<Longrightarrow> i < 7 \<Longrightarrow> covers (w, w) i \<longleftrightarrow> i = w"
  by (auto simp: covers_iff)

lemma mark_days_nth:
  assumes "length d = 7" "from < 7" "to < 7" "i < 7"
  shows "length (mark_days from to d) = 7 \<and> mark_days from to d ! i = (d ! i \<or> covers (from, to) i)"
  using assms
proof (induction "from" to d rule: mark_days.induct)
  case (1 w to d)
  show ?case
  proof (cases "w = to")
    case True
    with "1.prems" have "mark_days w to d = d[w := True]"
      by (subst mark_days.simps) simp
    with True "1.prems" show ?thesis by (simp add: nth_list_update covers_refl)
  next
    case False
    with "1.prems" have "mark_days w to d = mark_days ((w + 1) mod 7) to (d[w := True])"
      by (subst mark_days.simps) simp
    moreover have "length (mark_days ((w + 1) mod 7) to (d[w := True])) = 7 \<and>
      mark_days ((w + 1) mod 7) to (d[w := True]) ! i
        = (d[w := True] ! i \<or> covers ((w + 1) mod 7, to) i)"
      using "1.IH" False "1.prems" by simp
    ultimately show ?thesis using False "1.prems"
      by (auto simp: nth_list_update covers_step split: if_splits)
  qed
qed

lemma day_range_less: "day_range s = Some (from, to) \<Longrightarrow> from < 7 \<and> to < 7"
  by (auto simp: day_range_def Let_def dayNames_less split: prod.splits option.splits if_splits)

lemma parse_day_specs_cases:
  "parse_day_specs (s # ss) d =
     (case day_range s of
        None \<Rightarrow> (let (a, b, isRange) = Cut (CHR ''-'') (ToLower (TrimSpace s))
                 in Inl (UnknownDay (if dayNames a = None then a else b)))
      | Some (from, to) \<Rightarrow> parse_day_specs ss (mark_days from to d))"
  by (auto simp: day_range_def Let_def split: prod.splits option.splits if_splits)

lemma parse_day_specs_correct:
  "length d = 7 \<Longrightarrow>
   (if \<forall>s\<in>set ss. day_range s \<noteq> None
    then \<exists>d'. parse_day_specs ss d = Inr d' \<and> length d' = 7 \<and>
           (\<forall>w<7. d' ! w = (d ! w \<or> (\<exists>s\<in>set ss. covers (the (day_range s)) w)))
    else \<exists>x. parse_day_specs ss d = Inl (UnknownDay x))"
proof (induction ss arbitrary: d)
  case Nil
  then show ?case by simp
next
  case (Cons s ss)
  show ?case
  proof (cases "day_range s")
    case None
    then show ?thesis unfolding parse_day_specs_cases by (simp add: Let_def split: prod.splits)
  next
    case (Some ft)
    obtain f t where ft: "ft = (f, t)" by (cases ft)
    with Some have ft7: "f < 7" "t < 7" by (auto dest: day_range_less)
    let ?d = "mark_days f t d"
    have "length ?d = 7" using mark_days_nth [OF Cons.prems ft7, of 0] by simp
    from Cons.IH [OF this] Some ft mark_days_nth [OF Cons.prems ft7] show ?thesis
      unfolding parse_day_specs_cases by (auto split: if_splits)
  qed
qed

lemma of_digit: "d < 10 \<Longrightarrow> of_char (char_of (48 + d) :: char) = (48 + d :: nat)"
  by simp

lemma digit_ne:
  assumes "(d :: nat) < 10" "(of_char c :: nat) < 48 \<or> 57 < (of_char c :: nat)"
  shows "char_of (48 + d) \<noteq> c"
proof
  assume "char_of (48 + d) = c"
  with of_digit [OF assms(1)] have "(of_char c :: nat) = 48 + d" by simp
  with assms show False by simp
qed

lemma digit_plain:
  assumes "(d :: nat) < 10"
  shows "plain_byte (char_of (48 + d))" "char_of (48 + d) \<noteq> CHR '':''"
    "char_of (48 + d) \<noteq> CHR ''+''" "char_of (48 + d) \<noteq> CHR ''-''"
    "is_digit (char_of (48 + d))" "digit_val (char_of (48 + d)) = int d"
  using assms of_digit [OF assms] digit_ne [OF assms]
  by (simp_all add: plain_byte_def is_space_def is_digit_def digit_val_def)

lemma Atoi_two_digits:
  assumes "n < 100"
  shows "Atoi (two_digits n) = Some (int n)"
proof -
  have d: "n div 10 < 10" "n mod 10 < 10" using assms by auto
  have "10 * int (n div 10) + int (n mod 10) = int n"
    by (metis mult_div_mod_eq of_nat_add of_nat_mult of_nat_numeral)
  with digit_plain [OF d(1)] digit_plain [OF d(2)] assms show ?thesis
    by (simp add: Atoi_def two_digits_def digits_val_def in_i64_def)
qed

lemma clock_cut:
  assumes "m \<le> 1440"
  shows "Cut (CHR '':'') (TrimSpace (clock_string m)) = (two_digits (m div 60), two_digits (m mod 60), True)"
proof -
  have "m div 60 div 10 < 10" "m div 60 mod 10 < 10" "m mod 60 div 10 < 10" "m mod 60 mod 10 < 10"
    using assms by auto
  note d = this [THEN digit_plain(1)] this [THEN digit_plain(2)]
  then have "TrimSpace (clock_string m) = clock_string m"
    by (intro TrimSpace_ends) (simp add: clock_string_def two_digits_def)
  with d show ?thesis by (simp add: clock_string_def two_digits_def Cut_def)
qed

section \<open>Properties\<close>

text \<open>A rule matches an instant exactly when the instant's local minute lies in the window of
  some enabled local day: a window that wraps past midnight belongs to the day it starts on, and
  a rule with equal ends covers the whole calendar day.\<close>

theorem matches_window:
  assumes "0 \<le> From r" "From r \<le> 1440" "0 \<le> To r" "To r \<le> 1440"
  shows "Matches z r t \<longleftrightarrow> (\<exists>d. day_on r d \<and> in_window r d (local_minute z t))"
proof -
  let ?lm = "local_minute z t"
  note today = in_window_today [OF assms, of ?lm] and yesterday = in_window_yesterday [OF assms, of ?lm]
  have "(\<exists>d. day_on r d \<and> in_window r d ?lm) \<longleftrightarrow>
          day_on r (?lm div 1440) \<and> in_window r (?lm div 1440) ?lm
          \<or> To r < From r \<and> day_on r (?lm div 1440 - 1) \<and> in_window r (?lm div 1440 - 1) ?lm"
    using in_window_day [OF assms] by blast
  then show ?thesis
    using today yesterday by (auto simp: Matches_alt Let_def split: if_splits)
qed

text \<open>\<open>Effective\<close> applies the first matching rule to the base limits and reports its index, and
  reports -1 with the base limits exactly when no rule matches.\<close>

theorem effective_first_rule:
  "(Effective z s t = (Base s, -1) \<and> (\<forall>r\<in>set (Rules s). \<not> Matches z r t))
   \<or> (\<exists>k < length (Rules s). Effective z s t = (Apply (RSet (Rules s ! k)) (Base s), int k)
        \<and> Matches z (Rules s ! k) t \<and> (\<forall>j<k. \<not> Matches z (Rules s ! j) t))"
proof -
  have "fst (first_match z b i rs t) = b" if "snd (first_match z b i rs t) = -1" for b i rs
    using that by (induction rs arbitrary: i) (auto split: if_splits)
  from first_match_index [of z "Base s" 0 "Rules s" t] this [of "Base s" 0 "Rules s"] show ?thesis
    unfolding Effective_def by (cases "first_match z (Base s) 0 (Rules s) t") auto
qed

lemma Boundary_iff:
  "Boundary (fixed_zone k) s a b \<longleftrightarrow>
     (\<exists>t. a < t \<and> t \<le> b \<and> rule_index (fixed_zone k) s t \<noteq> rule_index (fixed_zone k) s a)"
    (is "?L \<longleftrightarrow> ?R")
proof
  assume ?L
  then obtain n where "Truncate a + minute + int n * minute \<le> b"
    "rule_index (fixed_zone k) s (Truncate a + minute + int n * minute) \<noteq> rule_index (fixed_zone k) s a"
    by (auto simp: Boundary_def Let_def scan_minutes_iff split: if_splits)
      (meson less_imp_le order_trans)
  moreover have "a < Truncate a + minute + int n * minute"
    using Truncate_next [of a] minute_pos(1) by (smt (verit) mult_nonneg_nonneg of_nat_0_le_iff)
  ultimately show ?R by blast
next
  assume ?R
  then obtain t where t: "a < t" "t \<le> b"
    "rule_index (fixed_zone k) s t \<noteq> rule_index (fixed_zone k) s a" by blast
  from boundary_minute [OF t(1,3)] obtain n where
    "Truncate a + minute + int n * minute \<le> t" "Truncate a + minute + int n * minute \<le> a + 8 * day_ns"
    "rule_index (fixed_zone k) s (Truncate a + minute + int n * minute) \<noteq> rule_index (fixed_zone k) s a"
    by blast
  with t show ?L
    unfolding Boundary_def Let_def scan_minutes_iff by (auto intro!: exI [of _ n])
qed

text \<open>C34. With a fixed offset from UTC of whole minutes, \<open>Boundary\<close> says exactly whether the matching rule changes
  at some instant of \<open>(a, b]\<close>, however far apart the two are: the scan of whole minutes that stops
  after eight days misses nothing.\<close>

theorem boundary_exact:
  "Boundary (fixed_zone k) s a b \<longleftrightarrow>
     (\<exists>t. a < t \<and> t \<le> b \<and> rule_index (fixed_zone k) s t \<noteq> rule_index (fixed_zone k) s a)"
  by (rule Boundary_iff)

text \<open>\<open>ParseDays\<close> accepts exactly the lists whose entries are days or ranges of days, and then
  enables exactly the days some entry covers, ranges wrapping past Saturday; no entry means every
  day.\<close>

theorem parse_days_correct:
  "(if \<forall>s\<in>set specs. day_range s \<noteq> None
    then \<exists>d. ParseDays specs = Inr d \<and> length d = 7 \<and>
          (\<forall>w<7. d ! w = (specs = [] \<or> (\<exists>s\<in>set specs. covers (the (day_range s)) w)))
    else \<exists>x. ParseDays specs = Inl (UnknownDay x))"
proof (cases "specs = []")
  case True
  then show ?thesis by (auto simp: ParseDays_def nth_Cons' numeral_eq_Suc less_Suc_eq)
next
  case False
  then show ?thesis
    using parse_day_specs_correct [of "replicate 7 False" specs] by (auto simp: ParseDays_def)
qed

theorem parse_days_witness:
  "ParseDays [''sat-mon'', '' Wed ''] = Inr [True, True, False, True, False, False, True]
   \<and> (\<exists>x. ParseDays [''mon'', ''noday''] = Inl (UnknownDay x))"
proof
  show "ParseDays [''sat-mon'', '' Wed ''] = Inr [True, True, False, True, False, False, True]"
    by code_simp
  have "\<not> (\<forall>s\<in>set [''mon'', ''noday'']. day_range s \<noteq> None)" by code_simp
  with parse_days_correct [of "[''mon'', ''noday'']"]
  show "\<exists>x. ParseDays [''mon'', ''noday''] = Inl (UnknownDay x)" by presburger
qed

text \<open>\<open>ParseClock\<close> reads back every minute of the day from 00:00 to 24:00, and whatever it
  accepts is in that range.\<close>

theorem parse_clock_roundtrip:
  "(m \<le> 1440 \<longrightarrow> ParseClock (clock_string m) = Inr (int m))
   \<and> (ParseClock s = Inr v \<longrightarrow> 0 \<le> v \<and> v \<le> 1440)"
proof (intro conjI impI)
  assume m: "m \<le> 1440"
  then have h: "m div 60 < 100" "m mod 60 < 100" by auto
  have "int (m div 60) * 60 + int (m mod 60) = int m"
    by (metis div_mult_mod_eq of_nat_add of_nat_mult of_nat_numeral)
  moreover have "m = 60 * (m div 60) + m mod 60" by simp
  then have "m div 60 \<le> 24" "m div 60 = 24 \<longrightarrow> m mod 60 = 0" using m by linarith+
  ultimately show "ParseClock (clock_string m) = Inr (int m)"
    using h by (simp add: ParseClock_def clock_cut [OF m] Atoi_two_digits) (simp add: two_digits_def)
next
  assume "ParseClock s = Inr v"
  then show "0 \<le> v" "v \<le> 1440"
    by (auto simp: ParseClock_def Let_def split: prod.splits if_splits option.splits)
qed

theorem parse_clock_witness:
  "ParseClock (clock_string 1350) = Inr 1350 \<and> ParseClock ''24:01'' = Inl OutOfRange"
  using parse_clock_roundtrip [of 1350 "''x''" 0] by (intro conjI) (simp, code_simp)

text \<open>The rule Monday to Friday, 22:00 to 06:00, at two instants of its Friday window.\<close>

definition night_rule :: Rule where
  "night_rule = \<lparr>Days = [False, True, True, True, True, True, False], From = 1320, To = 360,
     RSet = \<lparr>pUpload = Some 1, pDownload = None, pMaxConns = None, pMaxConnsPerTorrent = None,
            pMaxActiveUploads = None\<rparr>\<rparr>"

theorem matches_window_witness:
  "Matches (fixed_zone 0) night_rule (5 * day_ns + 60 * minute)
   \<and> \<not> Matches (fixed_zone 0) night_rule (7 * day_ns + 60 * minute)"
proof -
  have r: "0 \<le> From night_rule" "From night_rule \<le> 1440" "0 \<le> To night_rule" "To night_rule \<le> 1440"
    by (simp_all add: night_rule_def)
  have "local_minute (fixed_zone 0) (5 * day_ns + 60 * minute) = 5 * 1440 + 60"
    by (simp add: local_minute_fixed day_ns_def minute_def second_def)
  then have "day_on night_rule 4 \<and> in_window night_rule 4 (local_minute (fixed_zone 0) (5 * day_ns + 60 * minute))"
    by (simp add: night_rule_def day_on_def in_window_def)
  with matches_window [OF r] have "Matches (fixed_zone 0) night_rule (5 * day_ns + 60 * minute)" by blast
  moreover have "\<not> Matches (fixed_zone 0) night_rule (7 * day_ns + 60 * minute)" by code_simp
  ultimately show ?thesis ..
qed

definition demo_base :: Limits where
  "demo_base = \<lparr>Upload = 0, Download = 0, MaxConns = 200, MaxConnsPerTorrent = 50, MaxHalfOpen = 25,
     MaxActiveUploads = 4\<rparr>"

theorem effective_first_rule_witness:
  "Effective (fixed_zone 0) \<lparr>Base = demo_base, Rules = [night_rule]\<rparr> (5 * day_ns + 60 * minute)
     = (Apply (RSet night_rule) demo_base, 0)"
proof -
  have m: "Matches (fixed_zone 0) night_rule (5 * day_ns + 60 * minute)" by code_simp
  let ?s = "\<lparr>Base = demo_base, Rules = [night_rule]\<rparr>"
  from effective_first_rule [of "fixed_zone 0" ?s "5 * day_ns + 60 * minute"] m
  show ?thesis by simp
qed

end
