(* ===== verification/Connbudget.thy ===== *)
theory Connbudget
  imports Prelude
begin

text \<open>
  Package \<open>connbudget\<close> (\<open>internal/connbudget/connbudget.go\<close>): splitting the global connection limit
  across torrents. Go's \<open>int\<close> is 64 bits wide on every platform the daemon is built for.
\<close>

section \<open>Model\<close>

record Torrent =
  Key :: string
  Downloading :: bool
  Local :: int

record Params =
  bMaxConns :: int
  PerTorrent :: int
  CountLocal :: bool

definition MinPerTorrent :: int where "MinPerTorrent = 4"

definition weight :: "Torrent \<Rightarrow> int" where
  "weight t = (if Downloading t then 2 else 1)"

definition effective_per :: "Params \<Rightarrow> int" where
  "effective_per p = (if PerTorrent p \<le> 0 then 50 else PerTorrent p)"

fun total_weight :: "Torrent list \<Rightarrow> int" where
  "total_weight [] = 0"
| "total_weight (t # ts) = i64 (weight t + total_weight ts)"

text \<open>One iteration of the loop of \<open>Allocate\<close>: the share before and after the local connections.\<close>

definition base_share :: "Params \<Rightarrow> int \<Rightarrow> Torrent \<Rightarrow> int" where
  "base_share p tot t =
     (let per = effective_per p
      in if bMaxConns p > 0
         then min (max (go_div (i64 (bMaxConns p * weight t)) tot) (min MinPerTorrent per)) per
         else per)"

definition share :: "Params \<Rightarrow> int \<Rightarrow> Torrent \<Rightarrow> int" where
  "share p tot t =
     (if CountLocal p then base_share p tot t else i64 (base_share p tot t + Local t))"

fun allocate_into :: "Params \<Rightarrow> int \<Rightarrow> (string \<rightharpoonup> int) \<Rightarrow> Torrent list \<Rightarrow> (string \<rightharpoonup> int)" where
  "allocate_into p tot out [] = out"
| "allocate_into p tot out (t # ts) = allocate_into p tot (out(Key t \<mapsto> share p tot t)) ts"

definition Allocate :: "Params \<Rightarrow> Torrent list \<Rightarrow> (string \<rightharpoonup> int)" where
  "Allocate p ts = allocate_into p (total_weight ts) Map.empty ts"

section \<open>Lemmas\<close>

lemma weight_bounds: "1 \<le> weight t" "weight t \<le> 2"
  by (simp_all add: weight_def)

lemma total_weight_sum:
  "length ts < 2 ^ 61 \<Longrightarrow> total_weight ts = sum_list (map weight ts)
     \<and> int (length ts) \<le> total_weight ts \<and> total_weight ts \<le> 2 * int (length ts)"
proof (induction ts)
  case Nil
  then show ?case by simp
next
  case (Cons t ts)
  then have IH: "total_weight ts = sum_list (map weight ts)" "int (length ts) \<le> total_weight ts"
    "total_weight ts \<le> 2 * int (length ts)" by auto
  moreover have "int (length ts) < 2 ^ 61" using Cons.prems by simp
  ultimately have "in_i64 (weight t + total_weight ts)"
    using weight_bounds [of t] by (simp add: in_i64_def)
  with IH weight_bounds [of t] show ?case by (simp add: i64_id)
qed

lemma allocate_into_other: "k \<notin> Key ` set ts \<Longrightarrow> allocate_into p tot out ts k = out k"
  by (induction ts arbitrary: out) auto

lemma allocate_into_mem:
  "distinct (map Key ts) \<Longrightarrow> t \<in> set ts \<Longrightarrow> allocate_into p tot out ts (Key t) = Some (share p tot t)"
proof (induction ts arbitrary: out)
  case Nil
  then show ?case by simp
next
  case (Cons u ts)
  show ?case
  proof (cases "t = u")
    case True
    with Cons.prems show ?thesis by (simp add: allocate_into_other image_iff)
  next
    case False
    with Cons show ?thesis by simp
  qed
qed

lemma Allocate_dom: "dom (Allocate p ts) = Key ` set ts"
proof -
  have "dom (allocate_into p tot out ts) = dom out \<union> Key ` set ts" for tot out
    by (induction ts arbitrary: out) auto
  then show ?thesis by (simp add: Allocate_def)
qed

lemma base_share_bounds:
  "min MinPerTorrent (effective_per p) \<le> base_share p tot t \<and> base_share p tot t \<le> effective_per p"
  by (auto simp: base_share_def Let_def)

lemma share_quota:
  assumes "0 < bMaxConns p" "bMaxConns p < 2 ^ 61" "0 < tot"
  shows "base_share p tot t \<le> max (bMaxConns p * weight t div tot) (min MinPerTorrent (effective_per p))"
proof -
  have "in_i64 (bMaxConns p * weight t)" using assms by (auto simp: in_i64_def weight_def)
  with assms weight_bounds [of t] have "go_div (i64 (bMaxConns p * weight t)) tot = bMaxConns p * weight t div tot"
    by (simp add: i64_id go_div_nonneg)
  with assms show ?thesis by (simp add: base_share_def Let_def)
qed

lemma quota_sum:
  assumes "0 < tot"
  shows "sum_list (map (\<lambda>t. M * weight t div tot) ts) * tot \<le> M * sum_list (map weight ts)"
proof (induction ts)
  case Nil
  then show ?case by simp
next
  case (Cons t ts)
  have "M * weight t div tot * tot \<le> M * weight t"
    using assms by (metis minus_mod_eq_div_mult pos_mod_sign diff_le_eq add.commute le_add_same_cancel2)
  with Cons show ?case by (simp add: algebra_simps)
qed

section \<open>Properties\<close>

text \<open>Every torrent gets a share, and with a connection limit set its share (before the local
  connections that are not counted) is between \<open>min 4 per\<close> and \<open>per\<close>, the per-torrent limit.\<close>

theorem allocate_each_bounded:
  assumes "distinct (map Key ts)" "t \<in> set ts"
  shows "\<exists>b. Allocate p ts (Key t) = Some (if CountLocal p then b else i64 (b + Local t))
             \<and> min MinPerTorrent (effective_per p) \<le> b \<and> b \<le> effective_per p"
  using allocate_into_mem [OF assms] base_share_bounds
  by (auto simp: Allocate_def share_def intro!: exI [of _ "base_share p (total_weight ts) t"])

text \<open>The shares of all torrents together exceed the global limit by at most the guaranteed
  minimum per torrent, and stay within it when the limit covers that minimum for the total weight.\<close>

theorem allocate_total_bounded:
  assumes "0 < bMaxConns p" "bMaxConns p < 2 ^ 61" "ts \<noteq> []" "length ts < 2 ^ 61"
  defines "tot \<equiv> total_weight ts" and "least \<equiv> min MinPerTorrent (effective_per p)"
  shows "sum_list (map (base_share p tot) ts) \<le> bMaxConns p + least * int (length ts)
    \<and> (least * tot \<le> bMaxConns p \<longrightarrow> sum_list (map (base_share p tot) ts) \<le> bMaxConns p)"
proof -
  let ?q = "\<lambda>t. bMaxConns p * weight t div tot"
  have tw: "tot = sum_list (map weight ts)" "0 < tot"
    using total_weight_sum [OF assms(4)] assms(3) by (auto simp: tot_def neq_Nil_conv)
  have "sum_list (map ?q ts) * tot \<le> bMaxConns p * tot"
    using quota_sum [OF tw(2)] tw(1) by simp
  then have q: "sum_list (map ?q ts) \<le> bMaxConns p" using tw(2) by simp
  have least: "0 \<le> least" by (auto simp: least_def MinPerTorrent_def effective_per_def)
  have each: "base_share p tot t \<le> max (?q t) least" for t
    using share_quota [OF assms(1,2) tw(2)] by (simp add: least_def)
  have qpos: "0 \<le> ?q t" for t
    using assms(1) tw(2) weight_bounds(1) [of t] by (simp add: pos_imp_zdiv_nonneg_iff)
  have "base_share p tot t \<le> ?q t + least" for t
    using each [of t] least qpos [of t] by linarith
  then have "sum_list (map (base_share p tot) ts) \<le> sum_list (map (\<lambda>t. ?q t + least) ts)"
    by (intro sum_list_mono)
  also have "\<dots> = sum_list (map ?q ts) + least * int (length ts)"
    by (simp add: sum_list_addf sum_list_triv mult.commute)
  finally have loose: "sum_list (map (base_share p tot) ts) \<le> bMaxConns p + least * int (length ts)"
    using q by simp
  have tight: "sum_list (map (base_share p tot) ts) \<le> bMaxConns p" if fits: "least * tot \<le> bMaxConns p"
  proof -
    have "least \<le> ?q t" for t
    proof -
      have "least * tot \<le> bMaxConns p * weight t"
        using fits weight_bounds(1) [of t] assms(1) by (smt (verit) mult_le_cancel_left1)
      then show ?thesis using tw(2) by (metis nonzero_mult_div_cancel_right zdiv_mono1 less_irrefl)
    qed
    with each have "base_share p tot t \<le> ?q t" for t by (metis max.absorb1)
    then have "sum_list (map (base_share p tot) ts) \<le> sum_list (map ?q ts)"
      by (intro sum_list_mono)
    with q show ?thesis by simp
  qed
  from loose tight show ?thesis by blast
qed

text \<open>Two torrents, one downloading, under a limit of 30 connections.\<close>

definition demo_params :: Params where
  "demo_params = \<lparr>bMaxConns = 30, PerTorrent = 50, CountLocal = False\<rparr>"

definition demo_torrents :: "Torrent list" where
  "demo_torrents = [\<lparr>Key = ''a'', Downloading = True, Local = 3\<rparr>, \<lparr>Key = ''b'', Downloading = False, Local = 0\<rparr>]"

lemmas demo_defs = demo_params_def demo_torrents_def MinPerTorrent_def effective_per_def weight_def

theorem allocate_each_bounded_witness:
  "Allocate demo_params demo_torrents ''a'' = Some 23
   \<and> (\<exists>b. Allocate demo_params demo_torrents ''a'' = Some (i64 (b + 3)) \<and> 4 \<le> b \<and> b \<le> 50)"
proof
  show "Allocate demo_params demo_torrents ''a'' = Some 23" by code_simp
  have "distinct (map Key demo_torrents)" "hd demo_torrents \<in> set demo_torrents"
    by (simp_all add: demo_defs)
  from allocate_each_bounded [OF this, of demo_params]
  show "\<exists>b. Allocate demo_params demo_torrents ''a'' = Some (i64 (b + 3)) \<and> 4 \<le> b \<and> b \<le> 50"
    by (simp add: demo_defs)
qed

theorem allocate_total_bounded_witness:
  "sum_list (map (base_share demo_params (total_weight demo_torrents)) demo_torrents) \<le> 30"
proof -
  have "0 < bMaxConns demo_params" "bMaxConns demo_params < 2 ^ 61" "demo_torrents \<noteq> []"
    "length demo_torrents < 2 ^ 61" "total_weight demo_torrents = 3" "bMaxConns demo_params = 30"
    "min MinPerTorrent (effective_per demo_params) = 4"
    by (simp_all add: demo_defs i64_def)
  with allocate_total_bounded [of demo_params demo_torrents] show ?thesis by simp
qed

end
