(* ===== verification/Catalog.thy ===== *)
theory Catalog
  imports Schedule
begin

text \<open>
  Package \<open>catalog\<close>, file \<open>internal/catalog/catalog.go\<close>: the model list, its validation and its
  format version; and the torrents ("units") a model is served as (\<open>internal/node/dirjob.go\<close>).

  Parameters for code outside the repository's own packages:
  \<^item> \<open>pm\<close>: \<open>metainfo.ParseMagnetUri\<close> of the vendored BitTorrent library, as the magnet's infohash in
    hex, its trackers and its web-seeds (\<open>None\<close> for an error);
  \<^item> \<open>up\<close>: Go's \<open>url.Parse\<close>, as the scheme and the host of a URL.
\<close>

section \<open>Data\<close>

record File =
  fName :: string
  StoreAs :: string
  fSize :: int
  SHA256 :: string
  fInfoHash :: string
  fMagnet :: string

record Model =
  ID :: string
  HFRepo :: string
  Revision :: string
  License :: string
  LicenseURL :: string
  Layout :: string
  mInfoHash :: string
  mMagnet :: string
  Files :: "File list"

record Catalog =
  Version :: int
  Generated :: time
  Models :: "Model list"

type_synonym magnet_parser = "string \<Rightarrow> (string \<times> string list \<times> string list) option"
type_synonym url_parser = "string \<Rightarrow> (string \<times> string) option"

definition FormatVersion :: int where "FormatVersion = 1"
definition FormatVersionDir :: int where "FormatVersionDir = 2"
definition LayoutDir :: string where "LayoutDir = ''dir''"

definition DirWebSeed :: "string \<Rightarrow> string" where
  "DirWebSeed repo = ''https://huggingface.co/'' @ repo @ ''/resolve/''"

definition DiskName :: "File \<Rightarrow> string" where
  "DiskName f = (if StoreAs f \<noteq> '''' then StoreAs f else after_slash (fName f))"

datatype magnet_error = BadMagnet | BtihMismatch string string

definition magnetSources :: "magnet_parser \<Rightarrow> string \<Rightarrow> string \<Rightarrow> magnet_error + (string list \<times> string list)" where
  "magnetSources pm magnet infohash =
     (case pm magnet of
        None \<Rightarrow> Inl BadMagnet
      | Some (got, trackers, ws) \<Rightarrow>
          if got \<noteq> infohash then Inl (BtihMismatch got infohash) else Inr (trackers, ws))"

definition fileMagnetSources :: "magnet_parser \<Rightarrow> File \<Rightarrow> magnet_error + (string list \<times> string list)" where
  "fileMagnetSources pm f = magnetSources pm (fMagnet f) (fInfoHash f)"

definition IsDir :: "Model \<Rightarrow> bool" where
  "IsDir m \<longleftrightarrow> Layout m = LayoutDir"

definition TotalSize :: "Model \<Rightarrow> int" where
  "TotalSize m = foldl (\<lambda>n f. i64 (n + fSize f)) 0 (Files m)"

definition modelMagnetSources :: "magnet_parser \<Rightarrow> Model \<Rightarrow> magnet_error + (string list \<times> string list)" where
  "modelMagnetSources pm m = magnetSources pm (mMagnet m) (mInfoHash m)"

text \<open>\<open>MainFile\<close> indexes \<open>m.Files[0]\<close> when there is no \<open>.gguf\<close>: \<open>None\<close> is the panic on a model
  without files.\<close>

definition MainFile :: "Model \<Rightarrow> File option" where
  "MainFile m =
     (case find (\<lambda>f. HasSuffix (fName f) ''.gguf'') (Files m) of
        Some f \<Rightarrow> Some f
      | None \<Rightarrow> (case Files m of [] \<Rightarrow> None | f # _ \<Rightarrow> Some f))"

definition catalogModel :: "Catalog \<Rightarrow> string \<Rightarrow> Model option" where
  "catalogModel c i = find (\<lambda>m. ID m = i) (Models c)"

section \<open>Regular expressions\<close>

definition is_lower_c :: "char \<Rightarrow> bool" where
  "is_lower_c c \<longleftrightarrow> 97 \<le> (of_char c :: nat) \<and> (of_char c :: nat) \<le> 122"

definition is_upper_c :: "char \<Rightarrow> bool" where
  "is_upper_c c \<longleftrightarrow> 65 \<le> (of_char c :: nat) \<and> (of_char c :: nat) \<le> 90"

definition is_hex_c :: "char \<Rightarrow> bool" where
  "is_hex_c c \<longleftrightarrow> is_digit c \<or> (97 \<le> (of_char c :: nat) \<and> (of_char c :: nat) \<le> 102)"

definition idRe :: "string \<Rightarrow> bool" where
  "idRe s = (case s of [] \<Rightarrow> False
     | c # cs \<Rightarrow> (is_lower_c c \<or> is_digit c) \<and>
         list_all (\<lambda>x. is_lower_c x \<or> is_digit x \<or> x \<in> set ''._-'') cs)"

definition diskRe :: "string \<Rightarrow> bool" where
  "diskRe s = (case s of [] \<Rightarrow> False
     | c # cs \<Rightarrow> (is_upper_c c \<or> is_lower_c c \<or> is_digit c) \<and>
         list_all (\<lambda>x. is_upper_c x \<or> is_lower_c x \<or> is_digit x \<or> x \<in> set ''._+-'') cs)"

definition hex40 :: "string \<Rightarrow> bool" where
  "hex40 s \<longleftrightarrow> length s = 40 \<and> list_all is_hex_c s"

definition hex64 :: "string \<Rightarrow> bool" where
  "hex64 s \<longleftrightarrow> length s = 64 \<and> list_all is_hex_c s"

section \<open>Validation\<close>

datatype reason =
    BadID | DupID | BadRepo | BadRevision | NoLicense | NoFiles | BadLicenseURL
  | UnknownLayout string | ModelLevelTorrent
  | BadName | BadDiskName | BadSize | BadSHA | BadInfoHash | BadMagnetPrefix | DupInfoHash
  | MagnetErr magnet_error | WsCount nat | WsMismatch string string
  | DiskUsedBy string | SameContentAs string | SameContentAsDir string
  | BadDirName | DirNameUsedBy string
  | BadRelPath | PerFileField | FileAndDir string | DupFileName

text \<open>Errors name the model by position, and the file where there is one.\<close>

datatype verror = ModelErr nat reason | FileErr nat nat reason

record vstate =
  ids :: "string set"
  disk :: "string \<rightharpoonup> string"
  hashes :: "string set"
  contents :: "string \<rightharpoonup> string"
  dirContents :: "string \<rightharpoonup> string"

definition vinit :: vstate where
  "vinit = \<lparr>ids = {}, disk = Map.empty, hashes = {}, contents = Map.empty, dirContents = Map.empty\<rparr>"

text \<open>\<open>strings.IndexByte(s, '/')\<close> (\<open>None\<close> for -1) and \<open>nextSlash\<close>.\<close>

fun IndexSlash :: "string \<Rightarrow> nat option" where
  "IndexSlash [] = None"
| "IndexSlash (c # s) = (if c = CHR ''/'' then Some 0 else map_option Suc (IndexSlash s))"

definition nextSlash :: "string \<Rightarrow> nat \<Rightarrow> nat option" where
  "nextSlash s i = map_option (\<lambda>j. i + 1 + j) (IndexSlash (drop (i + 1) s))"

lemma IndexSlash_Some: "IndexSlash s = Some i \<Longrightarrow> i < length s \<and> s ! i = CHR ''/''"
  by (induction s arbitrary: i) (auto split: if_splits)

function parent_conflict :: "string set \<Rightarrow> string \<Rightarrow> nat option \<Rightarrow> string option" where
  "parent_conflict names s None = None"
| "parent_conflict names s (Some i) =
     (if take i s \<in> names then Some (take i s) else parent_conflict names s (nextSlash s i))"
  by pat_completeness auto
termination
  by (relation "measure (\<lambda>(names, s, i). case i of None \<Rightarrow> 0 | Some i \<Rightarrow> Suc (length s - i))")
    (auto simp: nextSlash_def split: option.splits dest!: IndexSlash_Some)

definition validRelPath :: "string \<Rightarrow> bool" where
  "validRelPath p =
     (if p = '''' \<or> HasPrefix p ''/'' \<or> CHR 0x5C \<in> set p then False
      else if \<exists>r\<in>set p. (of_char r :: nat) < 0x20 \<or> (of_char r :: nat) = 0x7F then False
      else list_all (\<lambda>c. c \<noteq> '''' \<and> c \<noteq> ''.'' \<and> c \<noteq> ''..'') (Split (CHR ''/'') p))"

definition validate_file :: "magnet_parser \<Rightarrow> nat \<Rightarrow> Model \<Rightarrow> nat \<Rightarrow> File \<Rightarrow> vstate \<Rightarrow> verror + vstate" where
  "validate_file pm i m j f st =
     (if fName f = '''' \<or> HasPrefix (fName f) ''/'' \<or> Contains (fName f) ''..'' then Inl (FileErr i j BadName)
      else if \<not> diskRe (DiskName f) then Inl (FileErr i j BadDiskName)
      else if fSize f \<le> 0 then Inl (FileErr i j BadSize)
      else if \<not> hex64 (SHA256 f) then Inl (FileErr i j BadSHA)
      else if \<not> hex40 (fInfoHash f) then Inl (FileErr i j BadInfoHash)
      else if \<not> HasPrefix (fMagnet f) ''magnet:?'' then Inl (FileErr i j BadMagnetPrefix)
      else if fInfoHash f \<in> hashes st then Inl (FileErr i j DupInfoHash)
      else case fileMagnetSources pm f of
        Inl e \<Rightarrow> Inl (FileErr i j (MagnetErr e))
      | Inr (_, ws) \<Rightarrow>
          if length ws \<noteq> 1 then Inl (FileErr i j (WsCount (length ws)))
          else let want = DirWebSeed (HFRepo m) @ Revision m @ ''/'' @ fName f
               in if hd ws \<noteq> want then Inl (FileErr i j (WsMismatch (hd ws) want))
          else case disk st (DiskName f) of
            Some other \<Rightarrow> Inl (FileErr i j (DiskUsedBy other))
          | None \<Rightarrow> (case contents st (SHA256 f) of
              Some other \<Rightarrow> Inl (FileErr i j (SameContentAs other))
            | None \<Rightarrow> (case dirContents st (SHA256 f) of
                Some other \<Rightarrow> Inl (FileErr i j (SameContentAsDir other))
              | None \<Rightarrow> Inr (st\<lparr>contents := (contents st)(SHA256 f \<mapsto> ID m),
                               disk := (disk st)(DiskName f \<mapsto> ID m),
                               hashes := insert (fInfoHash f) (hashes st)\<rparr>))))"

fun validate_files :: "magnet_parser \<Rightarrow> nat \<Rightarrow> Model \<Rightarrow> nat \<Rightarrow> File list \<Rightarrow> vstate \<Rightarrow> verror + vstate" where
  "validate_files pm i m j [] st = Inr st"
| "validate_files pm i m j (f # fs) st =
     (case validate_file pm i m j f st of
        Inl e \<Rightarrow> Inl e
      | Inr st' \<Rightarrow> validate_files pm i m (Suc j) fs st')"

definition validate_dir_file :: "nat \<Rightarrow> Model \<Rightarrow> string set \<Rightarrow> nat \<Rightarrow> File \<Rightarrow> vstate \<Rightarrow> verror + vstate" where
  "validate_dir_file i m names j f st =
     (if \<not> validRelPath (fName f) then Inl (FileErr i j BadRelPath)
      else if StoreAs f \<noteq> '''' \<or> fInfoHash f \<noteq> '''' \<or> fMagnet f \<noteq> '''' then Inl (FileErr i j PerFileField)
      else if fSize f < 0 then Inl (FileErr i j BadSize)
      else if \<not> hex64 (SHA256 f) then Inl (FileErr i j BadSHA)
      else case parent_conflict names (fName f) (IndexSlash (fName f)) of
        Some d \<Rightarrow> Inl (FileErr i j (FileAndDir d))
      | None \<Rightarrow>
          if fSize f = 0 then Inr st
          else (case contents st (SHA256 f) of
            Some other \<Rightarrow> Inl (FileErr i j (SameContentAs other))
          | None \<Rightarrow> Inr (st\<lparr>dirContents := (dirContents st)(SHA256 f \<mapsto> ID m)\<rparr>)))"

fun validate_dir_files :: "nat \<Rightarrow> Model \<Rightarrow> string set \<Rightarrow> nat \<Rightarrow> File list \<Rightarrow> vstate \<Rightarrow> verror + vstate" where
  "validate_dir_files i m names j [] st = Inr st"
| "validate_dir_files i m names j (f # fs) st =
     (case validate_dir_file i m names j f st of
        Inl e \<Rightarrow> Inl e
      | Inr st' \<Rightarrow> validate_dir_files i m names (Suc j) fs st')"

definition validateDir :: "magnet_parser \<Rightarrow> nat \<Rightarrow> Model \<Rightarrow> vstate \<Rightarrow> verror + vstate" where
  "validateDir pm i m st =
     (if \<not> hex40 (mInfoHash m) then Inl (ModelErr i BadInfoHash)
      else if \<not> HasPrefix (mMagnet m) ''magnet:?'' then Inl (ModelErr i BadMagnetPrefix)
      else if mInfoHash m \<in> hashes st then Inl (ModelErr i DupInfoHash)
      else if \<not> diskRe (ID m) then Inl (ModelErr i BadDirName)
      else case modelMagnetSources pm m of
        Inl e \<Rightarrow> Inl (ModelErr i (MagnetErr e))
      | Inr (_, ws) \<Rightarrow>
          if length ws \<noteq> 1 then Inl (ModelErr i (WsCount (length ws)))
          else let want = DirWebSeed (HFRepo m)
               in if hd ws \<noteq> want then Inl (ModelErr i (WsMismatch (hd ws) want))
          else case disk st (ID m) of
            Some other \<Rightarrow> Inl (ModelErr i (DirNameUsedBy other))
          | None \<Rightarrow>
              let names = set (map fName (Files m))
              in case validate_dir_files i m names 0 (Files m) st of
                   Inl e \<Rightarrow> Inl e
                 | Inr st' \<Rightarrow>
                     if card names \<noteq> length (Files m) then Inl (ModelErr i DupFileName)
                     else Inr (st'\<lparr>disk := (disk st')(ID m \<mapsto> ID m),
                                    hashes := insert (mInfoHash m) (hashes st')\<rparr>))"

definition validate_model :: "magnet_parser \<Rightarrow> url_parser \<Rightarrow> nat \<Rightarrow> Model \<Rightarrow> vstate \<Rightarrow> verror + vstate" where
  "validate_model pm up i m st0 =
     (if \<not> idRe (ID m) then Inl (ModelErr i BadID)
      else if ID m \<in> ids st0 then Inl (ModelErr i DupID)
      else if HFRepo m = '''' \<or> \<not> Contains (HFRepo m) ''/'' then Inl (ModelErr i BadRepo)
      else if \<not> hex40 (Revision m) then Inl (ModelErr i BadRevision)
      else if License m = '''' then Inl (ModelErr i NoLicense)
      else if Files m = [] then Inl (ModelErr i NoFiles)
      else let st = st0\<lparr>ids := insert (ID m) (ids st0)\<rparr>
           in if LicenseURL m \<noteq> '''' \<and>
                 (case up (LicenseURL m) of None \<Rightarrow> True
                  | Some (scheme, host) \<Rightarrow> scheme \<noteq> ''https'' \<or> host = '''')
              then Inl (ModelErr i BadLicenseURL)
              else if Layout m = LayoutDir then validateDir pm i m st
              else if Layout m \<noteq> '''' then Inl (ModelErr i (UnknownLayout (Layout m)))
              else if mInfoHash m \<noteq> '''' \<or> mMagnet m \<noteq> '''' then Inl (ModelErr i ModelLevelTorrent)
              else validate_files pm i m 0 (Files m) st)"

fun validate_models :: "magnet_parser \<Rightarrow> url_parser \<Rightarrow> nat \<Rightarrow> Model list \<Rightarrow> vstate \<Rightarrow> verror + vstate" where
  "validate_models pm up i [] st = Inr st"
| "validate_models pm up i (m # ms) st =
     (case validate_model pm up i m st of
        Inl e \<Rightarrow> Inl e
      | Inr st' \<Rightarrow> validate_models pm up (Suc i) ms st')"

definition Validate :: "magnet_parser \<Rightarrow> url_parser \<Rightarrow> Model list \<Rightarrow> verror option" where
  "Validate pm up models =
     (case validate_models pm up 0 models vinit of Inl e \<Rightarrow> Some e | Inr _ \<Rightarrow> None)"

section \<open>Format version\<close>

definition catalogVersion :: "Model list \<Rightarrow> int" where
  "catalogVersion models = (if \<exists>m\<in>set models. IsDir m then FormatVersionDir else FormatVersion)"

datatype catalog_error = BadJSON | UnsupportedVersion int | Invalid verror | VersionTooOld int

text \<open>\<open>Build\<close> and \<open>Parse\<close> over a JSON encoder \<open>enc\<close> and decoder \<open>dec\<close> for \<open>Catalog\<close>
  (\<open>encoding/json\<close>). \<open>now.UTC()\<close> is the same instant as \<open>now\<close>; an encoder error is \<open>BadJSON\<close>.\<close>

definition Build :: "magnet_parser \<Rightarrow> url_parser \<Rightarrow> (Catalog \<Rightarrow> bytes option) \<Rightarrow> Model list \<Rightarrow> time \<Rightarrow> catalog_error + bytes" where
  "Build pm up enc models now =
     (case Validate pm up models of
        Some e \<Rightarrow> Inl (Invalid e)
      | None \<Rightarrow>
          (case enc \<lparr>Version = catalogVersion models, Generated = now, Models = models\<rparr> of
             None \<Rightarrow> Inl BadJSON
           | Some data \<Rightarrow> Inr (data @ [CHR 0x0A])))"

definition Parse :: "magnet_parser \<Rightarrow> url_parser \<Rightarrow> (bytes \<Rightarrow> Catalog option) \<Rightarrow> bytes \<Rightarrow> catalog_error + Catalog" where
  "Parse pm up dec data =
     (case dec data of
        None \<Rightarrow> Inl BadJSON
      | Some c \<Rightarrow>
          if Version c \<noteq> FormatVersion \<and> Version c \<noteq> FormatVersionDir then Inl (UnsupportedVersion (Version c))
          else case Validate pm up (Models c) of
            Some e \<Rightarrow> Inl (Invalid e)
          | None \<Rightarrow>
              if Version c < catalogVersion (Models c) then Inl (VersionTooOld (Version c)) else Inr c)"

section \<open>Units: the torrents of a model\<close>

definition dirUnit :: "Model \<Rightarrow> File" where
  "dirUnit m = \<lparr>fName = ID m, StoreAs = '''', fSize = TotalSize m, SHA256 = '''', fInfoHash = mInfoHash m,
                fMagnet = mMagnet m\<rparr>"

definition units :: "Model \<Rightarrow> File list" where
  "units m = (if IsDir m then [dirUnit m] else Files m)"

definition mainInfoHash :: "Model \<Rightarrow> string option" where
  "mainInfoHash m = (if IsDir m then Some (mInfoHash m) else map_option fInfoHash (MainFile m))"

section \<open>What a valid catalog is\<close>

definition file_ok :: "magnet_parser \<Rightarrow> Model \<Rightarrow> File \<Rightarrow> bool" where
  "file_ok pm m f \<longleftrightarrow>
     fName f \<noteq> '''' \<and> \<not> HasPrefix (fName f) ''/'' \<and> \<not> Contains (fName f) ''..'' \<and> diskRe (DiskName f)
     \<and> 0 < fSize f \<and> hex64 (SHA256 f) \<and> hex40 (fInfoHash f) \<and> HasPrefix (fMagnet f) ''magnet:?''
     \<and> (\<exists>tr. pm (fMagnet f) = Some (fInfoHash f, tr, [DirWebSeed (HFRepo m) @ Revision m @ ''/'' @ fName f]))"

definition dir_file_ok :: "Model \<Rightarrow> File \<Rightarrow> bool" where
  "dir_file_ok m f \<longleftrightarrow>
     validRelPath (fName f) \<and> StoreAs f = '''' \<and> fInfoHash f = '''' \<and> fMagnet f = '''' \<and> 0 \<le> fSize f
     \<and> hex64 (SHA256 f) \<and> (\<forall>g\<in>set (Files m). \<not> HasPrefix (fName f) (fName g @ ''/''))"

definition license_ok :: "url_parser \<Rightarrow> Model \<Rightarrow> bool" where
  "license_ok up m \<longleftrightarrow> LicenseURL m = '''' \<or> (\<exists>host. up (LicenseURL m) = Some (''https'', host) \<and> host \<noteq> '''')"

definition dir_ok :: "magnet_parser \<Rightarrow> Model \<Rightarrow> bool" where
  "dir_ok pm m \<longleftrightarrow>
     hex40 (mInfoHash m) \<and> HasPrefix (mMagnet m) ''magnet:?'' \<and> diskRe (ID m)
     \<and> (\<exists>tr. pm (mMagnet m) = Some (mInfoHash m, tr, [DirWebSeed (HFRepo m)]))
     \<and> (\<forall>f\<in>set (Files m). dir_file_ok m f) \<and> distinct (map fName (Files m))"

definition model_ok :: "magnet_parser \<Rightarrow> url_parser \<Rightarrow> Model \<Rightarrow> bool" where
  "model_ok pm up m \<longleftrightarrow>
     idRe (ID m) \<and> Contains (HFRepo m) ''/'' \<and> hex40 (Revision m) \<and> License m \<noteq> '''' \<and> Files m \<noteq> []
     \<and> license_ok up m
     \<and> (if IsDir m then dir_ok pm m
        else Layout m = '''' \<and> mInfoHash m = '''' \<and> mMagnet m = '''' \<and> (\<forall>f\<in>set (Files m). file_ok pm m f))"

definition unit_hashes :: "Model \<Rightarrow> string list" where
  "unit_hashes m = map fInfoHash (units m)"

definition unit_disks :: "Model \<Rightarrow> string list" where
  "unit_disks m = (if IsDir m then [ID m] else map DiskName (Files m))"

definition file_shas :: "Model \<Rightarrow> string list" where
  "file_shas m = (if IsDir m then [] else map SHA256 (Files m))"

definition dir_shas :: "Model \<Rightarrow> string set" where
  "dir_shas m = (if IsDir m then {SHA256 f |f. f \<in> set (Files m) \<and> fSize f \<noteq> 0} else {})"

text \<open>The conditions between models do not depend on their order in the list.\<close>

definition wf_models :: "magnet_parser \<Rightarrow> url_parser \<Rightarrow> Model list \<Rightarrow> bool" where
  "wf_models pm up ms \<longleftrightarrow>
     (\<forall>m\<in>set ms. model_ok pm up m)
     \<and> distinct (map ID ms)
     \<and> distinct (concat (map unit_hashes ms))
     \<and> distinct (concat (map unit_disks ms))
     \<and> distinct (concat (map file_shas ms))
     \<and> (\<Union>m\<in>set ms. set (file_shas m)) \<inter> (\<Union>m\<in>set ms. dir_shas m) = {}"

section \<open>Lemmas: slashes in names\<close>

lemma IndexSlash_None: "IndexSlash s = None \<longleftrightarrow> CHR ''/'' \<notin> set s"
  by (induction s) auto

lemma IndexSlash_least: "IndexSlash s = Some i \<Longrightarrow> k < i \<Longrightarrow> s ! k \<noteq> CHR ''/''"
  by (induction s arbitrary: i k) (auto split: if_splits simp: nth_Cons')

lemma nextSlash_None: "nextSlash s i = None \<Longrightarrow> i < k \<Longrightarrow> k < length s \<Longrightarrow> s ! k \<noteq> CHR ''/''"
proof -
  assume "nextSlash s i = None" "i < k" "k < length s"
  then have "CHR ''/'' \<notin> set (drop (i + 1) s)" "k - (i + 1) < length (drop (i + 1) s)"
    by (auto simp: nextSlash_def IndexSlash_None)
  moreover from this(2) have "drop (i + 1) s ! (k - (i + 1)) \<in> set (drop (i + 1) s)" by (rule nth_mem)
  moreover have "drop (i + 1) s ! (k - (i + 1)) = s ! k"
    using \<open>i < k\<close> \<open>k < length s\<close> by (subst nth_drop) auto
  ultimately show ?thesis by auto
qed

lemma nextSlash_Some:
  assumes "nextSlash s i = Some j"
  shows "i < j" "j < length s" "s ! j = CHR ''/''" "\<And>k. i < k \<Longrightarrow> k < j \<Longrightarrow> s ! k \<noteq> CHR ''/''"
proof -
  from assms obtain d where d: "IndexSlash (drop (i + 1) s) = Some d" "j = i + 1 + d"
    by (auto simp: nextSlash_def)
  from IndexSlash_Some [OF d(1)] d(2) show "i < j" "j < length s" "s ! j = CHR ''/''" by auto
  fix k assume "i < k" "k < j"
  then have "drop (i + 1) s ! (k - (i + 1)) \<noteq> CHR ''/''"
    using d(2) by (intro IndexSlash_least [OF d(1)]) auto
  moreover have "drop (i + 1) s ! (k - (i + 1)) = s ! k"
    using \<open>i < k\<close> \<open>k < j\<close> \<open>j < length s\<close> by (subst nth_drop) auto
  ultimately show "s ! k \<noteq> CHR ''/''" by simp
qed

lemma parent_conflict_None:
  "(\<forall>i. io = Some i \<longrightarrow> s ! i = CHR ''/'' \<and> i < length s) \<Longrightarrow>
   parent_conflict names s io = None \<longleftrightarrow>
     (\<forall>i. io = Some i \<longrightarrow> (\<forall>k. i \<le> k \<and> k < length s \<and> s ! k = CHR ''/'' \<longrightarrow> take k s \<notin> names))"
proof (induction names s io rule: parent_conflict.induct)
  case (1 names s)
  then show ?case by simp
next
  case (2 names s i)
  show ?case
  proof (cases "take i s \<in> names")
    case True
    with "2.prems" show ?thesis by auto
  next
    case False
    have next': "\<forall>j. nextSlash s i = Some j \<longrightarrow> s ! j = CHR ''/'' \<and> j < length s"
      using nextSlash_Some by blast
    have "(\<forall>k. i \<le> k \<and> k < length s \<and> s ! k = CHR ''/'' \<longrightarrow> take k s \<notin> names) \<longleftrightarrow>
          (\<forall>j. nextSlash s i = Some j \<longrightarrow> (\<forall>k. j \<le> k \<and> k < length s \<and> s ! k = CHR ''/'' \<longrightarrow> take k s \<notin> names))"
    proof (cases "nextSlash s i")
      case None
      have "k = i" if "i \<le> k" "k < length s" "s ! k = CHR ''/''" for k
        using nextSlash_None [OF None, of k] that by linarith
      with False None show ?thesis by auto
    next
      case (Some j)
      have "k = i \<or> j \<le> k" if "i \<le> k" "s ! k = CHR ''/''" for k
        using nextSlash_Some(4) [OF Some, of k] that by linarith
      with False Some nextSlash_Some(1) [OF Some] show ?thesis by (auto dest: less_imp_le)
    qed
    with False "2.IH" [OF False next'] show ?thesis by simp
  qed
qed

lemma no_parent_conflict:
  "parent_conflict names s (IndexSlash s) = None \<longleftrightarrow> (\<forall>n\<in>names. \<not> prefix (n @ ''/'') s)"
proof -
  have pre: "prefix (n @ ''/'') s \<longleftrightarrow> (\<exists>k < length s. s ! k = CHR ''/'' \<and> take k s = n)" for n
  proof
    assume "prefix (n @ ''/'') s"
    then obtain t where "s = n @ CHR ''/'' # t" by (auto simp: prefix_def)
    then show "\<exists>k < length s. s ! k = CHR ''/'' \<and> take k s = n" by (intro exI [of _ "length n"]) auto
  next
    assume "\<exists>k < length s. s ! k = CHR ''/'' \<and> take k s = n"
    then obtain k where "k < length s" "s ! k = CHR ''/''" "take k s = n" by blast
    then have "s = n @ CHR ''/'' # drop (Suc k) s" by (metis id_take_nth_drop)
    then show "prefix (n @ ''/'') s" by (metis append.assoc append_Cons append_Nil prefixI)
  qed
  have slash: "i \<le> k" if "IndexSlash s = Some i" "s ! k = CHR ''/''" for i k
    using that by (meson IndexSlash_least leI)
  have "parent_conflict names s (IndexSlash s) = None \<longleftrightarrow>
        (\<forall>k. k < length s \<and> s ! k = CHR ''/'' \<longrightarrow> take k s \<notin> names)"
  proof (cases "IndexSlash s")
    case None
    then have "s ! k \<noteq> CHR ''/''" if "k < length s" for k
      using nth_mem [OF that] None by (metis IndexSlash_None)
    with None show ?thesis by auto
  next
    case (Some i)
    then show ?thesis using IndexSlash_Some [OF Some] slash [OF Some]
      by (subst parent_conflict_None) auto
  qed
  then show ?thesis unfolding pre by auto
qed

section \<open>Lemmas: one file\<close>

definition file_fresh :: "vstate \<Rightarrow> File \<Rightarrow> bool" where
  "file_fresh st f \<longleftrightarrow>
     fInfoHash f \<notin> hashes st \<and> disk st (DiskName f) = None \<and> contents st (SHA256 f) = None
     \<and> dirContents st (SHA256 f) = None"

definition add_file :: "Model \<Rightarrow> File \<Rightarrow> vstate \<Rightarrow> vstate" where
  "add_file m f st = st\<lparr>contents := (contents st)(SHA256 f \<mapsto> ID m),
     disk := (disk st)(DiskName f \<mapsto> ID m), hashes := insert (fInfoHash f) (hashes st)\<rparr>"

definition add_dir_file :: "Model \<Rightarrow> File \<Rightarrow> vstate \<Rightarrow> vstate" where
  "add_dir_file m f st =
     (if fSize f = 0 then st else st\<lparr>dirContents := (dirContents st)(SHA256 f \<mapsto> ID m)\<rparr>)"

lemma magnetSources_Inr: "magnetSources pm mg ih = Inr (tr, ws) \<longleftrightarrow> pm mg = Some (ih, tr, ws)"
  by (auto simp: magnetSources_def split: option.splits prod.splits)

lemma single: "length ws = 1 \<and> hd ws = w \<longleftrightarrow> ws = [w]"
  by (cases ws) auto

lemma validate_file_iff:
  "validate_file pm i m j f st = Inr st' \<longleftrightarrow> file_ok pm m f \<and> file_fresh st f \<and> st' = add_file m f st"
proof (cases "fileMagnetSources pm f")
  case (Inl e)
  then have "\<not> file_ok pm m f"
    by (auto simp: file_ok_def fileMagnetSources_def magnetSources_def split: option.splits prod.splits)
  with Inl show ?thesis by (auto simp: validate_file_def)
next
  case (Inr p)
  obtain tr ws where p: "p = (tr, ws)" by (cases p)
  with Inr have src: "pm (fMagnet f) = Some (fInfoHash f, tr, ws)"
    by (simp add: fileMagnetSources_def magnetSources_Inr)
  let ?want = "DirWebSeed (HFRepo m) @ Revision m @ ''/'' @ fName f"
  have "file_ok pm m f \<longleftrightarrow>
     fName f \<noteq> '''' \<and> \<not> HasPrefix (fName f) ''/'' \<and> \<not> Contains (fName f) ''..'' \<and> diskRe (DiskName f)
     \<and> 0 < fSize f \<and> hex64 (SHA256 f) \<and> hex40 (fInfoHash f) \<and> HasPrefix (fMagnet f) ''magnet:?''
     \<and> length ws = 1 \<and> hd ws = ?want"
    unfolding file_ok_def src single by auto
  then show ?thesis
    unfolding validate_file_def Inr p file_fresh_def add_file_def Let_def
    by (auto simp del: HasPrefix_iff split: option.splits)
qed

lemma validate_dir_file_iff:
  "validate_dir_file i m (set (map fName (Files m))) j f st = Inr st' \<longleftrightarrow>
     dir_file_ok m f \<and> (fSize f \<noteq> 0 \<longrightarrow> contents st (SHA256 f) = None) \<and> st' = add_dir_file m f st"
proof -
  let ?pc = "parent_conflict (set (map fName (Files m))) (fName f) (IndexSlash (fName f))"
  have "?pc = None \<longleftrightarrow> (\<forall>g\<in>set (Files m). \<not> HasPrefix (fName f) (fName g @ ''/''))"
    unfolding no_parent_conflict by simp
  then have ok: "dir_file_ok m f \<longleftrightarrow> validRelPath (fName f) \<and> StoreAs f = '''' \<and> fInfoHash f = ''''
     \<and> fMagnet f = '''' \<and> 0 \<le> fSize f \<and> hex64 (SHA256 f) \<and> ?pc = None"
    unfolding dir_file_ok_def by blast
  show ?thesis
  proof (cases ?pc)
    case None
    then show ?thesis
      unfolding validate_dir_file_def ok add_dir_file_def by (auto split: option.splits)
  next
    case (Some d)
    then show ?thesis unfolding validate_dir_file_def ok by auto
  qed
qed

section \<open>Lemmas: the files of a model\<close>

definition files_fresh :: "vstate \<Rightarrow> File list \<Rightarrow> bool" where
  "files_fresh st fs \<longleftrightarrow>
     (\<forall>f\<in>set fs. file_fresh st f) \<and> distinct (map fInfoHash fs) \<and> distinct (map DiskName fs)
     \<and> distinct (map SHA256 fs)"

lemma fold_add_file:
  "ids (fold (add_file m) fs st) = ids st"
  "hashes (fold (add_file m) fs st) = hashes st \<union> fInfoHash ` set fs"
  "dom (disk (fold (add_file m) fs st)) = dom (disk st) \<union> DiskName ` set fs"
  "dom (contents (fold (add_file m) fs st)) = dom (contents st) \<union> SHA256 ` set fs"
  "dirContents (fold (add_file m) fs st) = dirContents st"
  by (induction fs arbitrary: st) (auto simp: add_file_def)

lemma fold_add_dir_file:
  "ids (fold (add_dir_file m) fs st) = ids st"
  "hashes (fold (add_dir_file m) fs st) = hashes st"
  "disk (fold (add_dir_file m) fs st) = disk st"
  "contents (fold (add_dir_file m) fs st) = contents st"
  "dom (dirContents (fold (add_dir_file m) fs st)) = dom (dirContents st) \<union> {SHA256 f |f. f \<in> set fs \<and> fSize f \<noteq> 0}"
  by (induction fs arbitrary: st) (auto simp: add_dir_file_def)

lemma file_fresh_add:
  "file_fresh (add_file m f st) g \<longleftrightarrow>
     file_fresh st g \<and> fInfoHash g \<noteq> fInfoHash f \<and> DiskName g \<noteq> DiskName f \<and> SHA256 g \<noteq> SHA256 f"
  by (auto simp: file_fresh_def add_file_def)

lemma validate_files_iff:
  "validate_files pm i m j fs st = Inr st' \<longleftrightarrow>
     (\<forall>f\<in>set fs. file_ok pm m f) \<and> files_fresh st fs \<and> st' = fold (add_file m) fs st"
proof (induction fs arbitrary: j st)
  case Nil
  then show ?case by (auto simp: files_fresh_def)
next
  case (Cons f fs)
  have "validate_files pm i m j (f # fs) st = Inr st' \<longleftrightarrow>
     file_ok pm m f \<and> file_fresh st f \<and> validate_files pm i m (Suc j) fs (add_file m f st) = Inr st'"
    unfolding validate_files.simps
    by (subst sum_bind_Inr [where P = "file_ok pm m f \<and> file_fresh st f" and v = "add_file m f st"])
      (simp_all add: validate_file_iff)
  also have "\<dots> \<longleftrightarrow> (\<forall>g\<in>set (f # fs). file_ok pm m g) \<and> files_fresh st (f # fs) \<and> st' = fold (add_file m) (f # fs) st"
    unfolding Cons.IH files_fresh_def by (auto simp: file_fresh_add image_iff)
  finally show ?case .
qed

lemma validate_dir_files_iff:
  "validate_dir_files i m (set (map fName (Files m))) j fs st = Inr st' \<longleftrightarrow>
     (\<forall>f\<in>set fs. dir_file_ok m f \<and> (fSize f \<noteq> 0 \<longrightarrow> contents st (SHA256 f) = None))
     \<and> st' = fold (add_dir_file m) fs st"
proof (induction fs arbitrary: j st)
  case Nil
  then show ?case by auto
next
  case (Cons f fs)
  let ?n = "set (map fName (Files m))"
  have "validate_dir_files i m ?n j (f # fs) st = Inr st' \<longleftrightarrow>
     dir_file_ok m f \<and> (fSize f \<noteq> 0 \<longrightarrow> contents st (SHA256 f) = None)
     \<and> validate_dir_files i m ?n (Suc j) fs (add_dir_file m f st) = Inr st'"
    unfolding validate_dir_files.simps
    by (subst sum_bind_Inr [where P = "dir_file_ok m f \<and> (fSize f \<noteq> 0 \<longrightarrow> contents st (SHA256 f) = None)"
          and v = "add_dir_file m f st"])
      (simp_all only: validate_dir_file_iff conj_assoc)
  also have "\<dots> \<longleftrightarrow> (\<forall>g\<in>set (f # fs). dir_file_ok m g \<and> (fSize g \<noteq> 0 \<longrightarrow> contents st (SHA256 g) = None))
     \<and> st' = fold (add_dir_file m) (f # fs) st"
    unfolding Cons.IH using fold_add_dir_file(4) [of m "[f]" st] by auto
  finally show ?case .
qed

section \<open>Lemmas: one model\<close>

definition add_dir :: "Model \<Rightarrow> vstate \<Rightarrow> vstate" where
  "add_dir m st = (let st' = fold (add_dir_file m) (Files m) st
     in st'\<lparr>disk := (disk st')(ID m \<mapsto> ID m), hashes := insert (mInfoHash m) (hashes st')\<rparr>)"

definition add_model :: "Model \<Rightarrow> vstate \<Rightarrow> vstate" where
  "add_model m st0 = (let st = st0\<lparr>ids := insert (ID m) (ids st0)\<rparr>
     in if IsDir m then add_dir m st else fold (add_file m) (Files m) st)"

definition model_fresh :: "vstate \<Rightarrow> Model \<Rightarrow> bool" where
  "model_fresh st m \<longleftrightarrow>
     ID m \<notin> ids st
     \<and> set (unit_hashes m) \<inter> hashes st = {} \<and> distinct (unit_hashes m)
     \<and> set (unit_disks m) \<inter> dom (disk st) = {} \<and> distinct (unit_disks m)
     \<and> set (file_shas m) \<inter> (dom (contents st) \<union> dom (dirContents st)) = {} \<and> distinct (file_shas m)
     \<and> dir_shas m \<inter> dom (contents st) = {}"

lemmas unit_defs = unit_hashes_def unit_disks_def file_shas_def dir_shas_def units_def dirUnit_def

lemma validateDir_iff:
  assumes "IsDir m"
  shows "validateDir pm i m st = Inr st' \<longleftrightarrow>
     dir_ok pm m \<and> mInfoHash m \<notin> hashes st \<and> disk st (ID m) = None
     \<and> dir_shas m \<inter> dom (contents st) = {} \<and> st' = add_dir m st"
proof (cases "modelMagnetSources pm m")
  case (Inl e)
  then have "\<not> dir_ok pm m"
    by (auto simp: dir_ok_def modelMagnetSources_def magnetSources_def split: option.splits prod.splits)
  with Inl show ?thesis by (auto simp: validateDir_def)
next
  case (Inr p)
  obtain tr ws where p: "p = (tr, ws)" by (cases p)
  with Inr have src: "pm (mMagnet m) = Some (mInfoHash m, tr, ws)"
    by (simp add: modelMagnetSources_def magnetSources_Inr)
  let ?names = "set (map fName (Files m))"
  have ok: "dir_ok pm m \<longleftrightarrow>
     hex40 (mInfoHash m) \<and> HasPrefix (mMagnet m) ''magnet:?'' \<and> diskRe (ID m)
     \<and> length ws = 1 \<and> hd ws = DirWebSeed (HFRepo m)
     \<and> (\<forall>f\<in>set (Files m). dir_file_ok m f) \<and> card ?names = length (Files m)"
  proof -
    have "distinct (map fName (Files m)) \<longleftrightarrow> card ?names = length (Files m)"
      by (metis card_distinct distinct_card length_map)
    moreover have "(\<exists>tr'. Some (mInfoHash m, tr, ws) = Some (mInfoHash m, tr', [DirWebSeed (HFRepo m)])) \<longleftrightarrow>
        length ws = 1 \<and> hd ws = DirWebSeed (HFRepo m)"
      unfolding single by auto
    ultimately show ?thesis unfolding dir_ok_def src by blast
  qed
  have loop: "(case validate_dir_files i m ?names 0 (Files m) st of
                 Inl e \<Rightarrow> Inl e
               | Inr st' \<Rightarrow> if card ?names \<noteq> length (Files m) then Inl (ModelErr i DupFileName)
                   else Inr (st'\<lparr>disk := (disk st')(ID m \<mapsto> ID m), hashes := insert (mInfoHash m) (hashes st')\<rparr>))
               = Inr st' \<longleftrightarrow>
      ((\<forall>f\<in>set (Files m). dir_file_ok m f) \<and> dir_shas m \<inter> dom (contents st) = {})
      \<and> card ?names = length (Files m) \<and> st' = add_dir m st"
  proof (subst sum_bind_Inr [where P = "(\<forall>f\<in>set (Files m). dir_file_ok m f) \<and> dir_shas m \<inter> dom (contents st) = {}"
          and v = "fold (add_dir_file m) (Files m) st"], goal_cases)
    case 1
    have "(\<forall>f\<in>set (Files m). dir_file_ok m f \<and> (fSize f \<noteq> 0 \<longrightarrow> contents st (SHA256 f) = None)) \<longleftrightarrow>
      (\<forall>f\<in>set (Files m). dir_file_ok m f) \<and> dir_shas m \<inter> dom (contents st) = {}"
      by (auto simp: dir_shas_def assms)
    then show ?case by (simp only: validate_dir_files_iff)
  next
    case 2
    show ?case by (auto simp: add_dir_def Let_def)
  qed
  show ?thesis
    unfolding validateDir_def Inr p ok Let_def old.sum.case old.prod.case
    by (auto simp: loop simp del: HasPrefix_iff set_map split: option.splits)
qed

lemma validate_model_iff:
  "validate_model pm up i m st = Inr st' \<longleftrightarrow> model_ok pm up m \<and> model_fresh st m \<and> st' = add_model m st"
proof -
  have lic: "(LicenseURL m \<noteq> '''' \<and> (case up (LicenseURL m) of None \<Rightarrow> True
      | Some (scheme, host) \<Rightarrow> scheme \<noteq> ''https'' \<or> host = '''')) \<longleftrightarrow> \<not> license_ok up m"
    by (auto simp: license_ok_def split: option.splits)
  have repo: "(HFRepo m = '''' \<or> \<not> Contains (HFRepo m) ''/'') \<longleftrightarrow> \<not> Contains (HFRepo m) ''/''"
    by auto
  let ?st = "st\<lparr>ids := insert (ID m) (ids st)\<rparr>"
  show ?thesis
  proof (cases "IsDir m")
    case True
    then have dir: "Layout m = LayoutDir" by (simp add: IsDir_def)
    have fresh: "model_fresh st m \<longleftrightarrow> ID m \<notin> ids st \<and> mInfoHash m \<notin> hashes ?st \<and> disk ?st (ID m) = None
        \<and> dir_shas m \<inter> dom (contents ?st) = {}"
      using True by (auto simp: model_fresh_def unit_defs)
    show ?thesis
      unfolding validate_model_def Let_def lic repo model_ok_def fresh add_model_def
      using True dir validateDir_iff [OF True, of pm i ?st st'] by auto
  next
    case False
    then have dir: "Layout m \<noteq> LayoutDir" by (simp add: IsDir_def)
    have fresh: "model_fresh st m \<longleftrightarrow> ID m \<notin> ids st \<and> files_fresh ?st (Files m)"
      using False by (auto simp: model_fresh_def files_fresh_def file_fresh_def unit_defs)
    show ?thesis
      unfolding validate_model_def Let_def lic repo model_ok_def fresh add_model_def
      using False dir validate_files_iff [of pm i m 0 "Files m" ?st st'] by auto
  qed
qed

lemma add_model_sets:
  "ids (add_model m st) = insert (ID m) (ids st)"
  "hashes (add_model m st) = hashes st \<union> set (unit_hashes m)"
  "dom (disk (add_model m st)) = dom (disk st) \<union> set (unit_disks m)"
  "dom (contents (add_model m st)) = dom (contents st) \<union> set (file_shas m)"
  "dom (dirContents (add_model m st)) = dom (dirContents st) \<union> dir_shas m"
  by (auto simp: add_model_def add_dir_def Let_def fold_add_file fold_add_dir_file unit_defs)

section \<open>Lemmas: the whole list\<close>

definition models_fresh :: "vstate \<Rightarrow> Model list \<Rightarrow> bool" where
  "models_fresh st ms \<longleftrightarrow>
     ID ` set ms \<inter> ids st = {}
     \<and> set (concat (map unit_hashes ms)) \<inter> hashes st = {}
     \<and> set (concat (map unit_disks ms)) \<inter> dom (disk st) = {}
     \<and> set (concat (map file_shas ms)) \<inter> (dom (contents st) \<union> dom (dirContents st)) = {}
     \<and> (\<Union>m\<in>set ms. dir_shas m) \<inter> dom (contents st) = {}"

lemma file_or_dir_shas: "set (file_shas m) \<inter> dir_shas m = {}"
  by (simp add: unit_defs)

lemma distinct_step:
  "distinct (xs @ ys) \<and> set (xs @ ys) \<inter> A = {} \<longleftrightarrow>
   (distinct xs \<and> set xs \<inter> A = {}) \<and> distinct ys \<and> set ys \<inter> (A \<union> set xs) = {}"
  by auto

lemma sha_step:
  assumes "set f \<inter> d = {}"
  shows "distinct (f @ fs) \<and> set (f @ fs) \<inter> (C \<union> D) = {} \<and> (d \<union> ds) \<inter> C = {} \<and> set (f @ fs) \<inter> (d \<union> ds) = {} \<longleftrightarrow>
     (distinct f \<and> set f \<inter> (C \<union> D) = {} \<and> d \<inter> C = {})
     \<and> (distinct fs \<and> set fs \<inter> ds = {} \<and> set fs \<inter> ((C \<union> set f) \<union> (D \<union> d)) = {} \<and> ds \<inter> (C \<union> set f) = {})"
  using assms by auto

lemma wf_models_Cons:
  "wf_models pm up (m # ms) \<and> models_fresh st (m # ms) \<longleftrightarrow>
   model_ok pm up m \<and> model_fresh st m \<and> wf_models pm up ms \<and> models_fresh (add_model m st) ms"
proof -
  have shas: "(\<Union>m\<in>set xs. set (file_shas m)) = set (concat (map file_shas xs))" for xs by simp
  have ids': "distinct (map ID (m # ms)) \<and> ID ` set (m # ms) \<inter> ids st = {} \<longleftrightarrow>
     ID m \<notin> ids st \<and> distinct (map ID ms) \<and> ID ` set ms \<inter> insert (ID m) (ids st) = {}" by auto
  show ?thesis
    unfolding wf_models_def models_fresh_def model_fresh_def add_model_sets shas
    using ids' distinct_step [of "unit_hashes m" "concat (map unit_hashes ms)" "hashes st"]
      distinct_step [of "unit_disks m" "concat (map unit_disks ms)" "dom (disk st)"]
      sha_step [OF file_or_dir_shas [of m], of "concat (map file_shas ms)" "dom (contents st)" "dom (dirContents st)"
        "\<Union>m\<in>set ms. dir_shas m"]
    by (simp only: list.map concat.simps list.set UN_insert ball_simps) argo
qed

lemma validate_models_iff:
  "(\<exists>st'. validate_models pm up i ms st = Inr st') \<longleftrightarrow> wf_models pm up ms \<and> models_fresh st ms"
proof (induction ms arbitrary: i st)
  case Nil
  then show ?case by (simp add: wf_models_def models_fresh_def)
next
  case (Cons m ms)
  have "validate_models pm up i (m # ms) st = Inr st' \<longleftrightarrow>
     (model_ok pm up m \<and> model_fresh st m) \<and> validate_models pm up (Suc i) ms (add_model m st) = Inr st'" for st'
    unfolding validate_models.simps
    by (subst sum_bind_Inr [where P = "model_ok pm up m \<and> model_fresh st m" and v = "add_model m st"])
      (simp_all only: validate_model_iff conj_assoc)
  then have "(\<exists>st'. validate_models pm up i (m # ms) st = Inr st') \<longleftrightarrow>
     model_ok pm up m \<and> model_fresh st m \<and> wf_models pm up ms \<and> models_fresh (add_model m st) ms"
    using Cons.IH [of "Suc i" "add_model m st"] by simp
  then show ?case unfolding wf_models_Cons .
qed

lemma Validate_None: "Validate pm up ms = None \<longleftrightarrow> (\<exists>st'. validate_models pm up 0 ms vinit = Inr st')"
  by (auto simp: Validate_def split: sum.splits)

lemma models_fresh_init: "models_fresh vinit ms"
  by (simp add: models_fresh_def vinit_def)

lemmas Validate_wf = Validate_None [unfolded validate_models_iff, simplified models_fresh_init simp_thms]

section \<open>Consequences of validity\<close>

lemma is_lower_c_plain: "is_lower_c c \<Longrightarrow> c \<noteq> CHR ''/'' \<and> c \<noteq> CHR ''.''"
  by (auto simp: is_lower_c_def)

lemma is_upper_c_plain: "is_upper_c c \<Longrightarrow> c \<noteq> CHR ''/'' \<and> c \<noteq> CHR ''.''"
  by (auto simp: is_upper_c_def)

lemma is_digit_plain: "is_digit c \<Longrightarrow> c \<noteq> CHR ''/'' \<and> c \<noteq> CHR ''.''"
  by (auto simp: is_digit_def)

text \<open>A disk name is one path element that is neither empty nor hidden nor \<open>.\<close> or \<open>..\<close>.\<close>

lemma diskRe_element:
  assumes "diskRe s"
  shows "s \<noteq> []" "CHR ''/'' \<notin> set s" "hd s \<noteq> CHR ''.''"
proof -
  from assms obtain c cs where s: "s = c # cs"
    and c: "is_upper_c c \<or> is_lower_c c \<or> is_digit c"
    and cs: "\<forall>x\<in>set cs. is_upper_c x \<or> is_lower_c x \<or> is_digit x \<or> x \<in> set ''._+-''"
    by (auto simp: diskRe_def split: list.splits)
  note plain = is_lower_c_plain is_upper_c_plain is_digit_plain
  show "s \<noteq> []" by (simp add: s)
  show "hd s \<noteq> CHR ''.''" using c by (auto simp: s dest: plain)
  have "CHR ''/'' \<notin> set cs" using cs by (auto dest: plain)
  then show "CHR ''/'' \<notin> set s" using c by (auto simp: s dest: plain)
qed

lemma idRe_diskRe: "idRe s \<Longrightarrow> diskRe s"
  by (auto simp: idRe_def diskRe_def split: list.splits)

lemma DiskName_dirUnit: "idRe (ID m) \<Longrightarrow> DiskName (dirUnit m) = ID m"
  by (simp add: DiskName_def dirUnit_def after_slash_id diskRe_element(2) idRe_diskRe)

lemma unit_disks_units: "model_ok pm up m \<Longrightarrow> unit_disks m = map DiskName (units m)"
  by (simp add: unit_disks_def units_def DiskName_dirUnit model_ok_def)

lemma unit_disk_ok: "model_ok pm up m \<Longrightarrow> f \<in> set (units m) \<Longrightarrow> diskRe (DiskName f)"
  by (auto simp: units_def model_ok_def file_ok_def DiskName_dirUnit idRe_diskRe split: if_splits)

lemma validRelPath_iff:
  "validRelPath p \<longleftrightarrow>
     (\<forall>c\<in>set (Split (CHR ''/'') p). c \<noteq> '''' \<and> c \<noteq> ''.'' \<and> c \<noteq> ''..'')
     \<and> (\<forall>r\<in>set p. 0x20 \<le> (of_char r :: nat) \<and> (of_char r :: nat) \<noteq> 0x7F \<and> r \<noteq> CHR 0x5C)"
proof -
  have "p = '''' \<or> prefix ''/'' p \<longrightarrow> '''' \<in> set (Split (CHR ''/'') p)"
    by (auto simp: prefix_def)
  then show ?thesis
    unfolding validRelPath_def HasPrefix_iff list_all_set not_less [symmetric] by (simp only: if_bool_eq_conj) blast
qed

lemma catalogVersion_cases: "catalogVersion ms = FormatVersion \<or> catalogVersion ms = FormatVersionDir"
  by (simp add: catalogVersion_def)

lemma Parse_Inr:
  "Parse pm up dec data = Inr c \<longleftrightarrow>
     dec data = Some c \<and> Version c \<in> {FormatVersion, FormatVersionDir} \<and> wf_models pm up (Models c)
     \<and> catalogVersion (Models c) \<le> Version c"
  by (auto simp: Parse_def Validate_wf [symmetric] not_less split: option.splits if_splits)

section \<open>A sample catalog\<close>

text \<open>One per-file model and one folder model, with a magnet parser that knows their two magnets.\<close>

definition hexstr :: "nat \<Rightarrow> char \<Rightarrow> string" where
  "hexstr n c = replicate n c"

definition demo_file :: File where
  "demo_file = \<lparr>fName = ''q4/m.gguf'', StoreAs = '''', fSize = 10, SHA256 = hexstr 64 (CHR ''1''),
     fInfoHash = hexstr 40 (CHR ''a''), fMagnet = ''magnet:?a''\<rparr>"

definition demo_model :: Model where
  "demo_model = \<lparr>ID = ''m1'', HFRepo = ''o/r'', Revision = hexstr 40 (CHR ''0''), License = ''mit'',
     LicenseURL = '''', Layout = '''', mInfoHash = '''', mMagnet = '''', Files = [demo_file]\<rparr>"

definition demo_dir_file :: File where
  "demo_dir_file = \<lparr>fName = ''sub/w.bin'', StoreAs = '''', fSize = 7, SHA256 = hexstr 64 (CHR ''2''),
     fInfoHash = '''', fMagnet = ''''\<rparr>"

definition demo_dir_model :: Model where
  "demo_dir_model = \<lparr>ID = ''m2'', HFRepo = ''o/d'', Revision = hexstr 40 (CHR ''0''), License = ''mit'',
     LicenseURL = '''', Layout = ''dir'', mInfoHash = hexstr 40 (CHR ''b''), mMagnet = ''magnet:?b'',
     Files = [demo_dir_file]\<rparr>"

definition demo_pm :: magnet_parser where
  "demo_pm mg =
     (if mg = ''magnet:?a''
      then Some (hexstr 40 (CHR ''a''), [], [DirWebSeed ''o/r'' @ hexstr 40 (CHR ''0'') @ ''/'' @ ''q4/m.gguf''])
      else if mg = ''magnet:?b'' then Some (hexstr 40 (CHR ''b''), [], [DirWebSeed ''o/d''])
      else None)"

definition demo_up :: url_parser where
  "demo_up u = None"

definition demo_catalog :: Catalog where
  "demo_catalog = \<lparr>Version = 2, Generated = 5, Models = [demo_model, demo_dir_model]\<rparr>"

lemmas demo_catalog_defs =
  demo_file_def demo_model_def demo_dir_file_def demo_dir_model_def demo_pm_def demo_up_def demo_catalog_def

lemma hexstr_ok:
  "hex40 (hexstr 40 c) \<longleftrightarrow> is_hex_c c" "hex64 (hexstr 64 c) \<longleftrightarrow> is_hex_c c"
  "hexstr 40 c = hexstr 40 d \<longleftrightarrow> c = d" "hexstr 64 c = hexstr 64 d \<longleftrightarrow> c = d"
  by (auto simp: hex40_def hex64_def hexstr_def)

lemma demo_file_ok: "file_ok demo_pm demo_model demo_file"
  unfolding file_ok_def
  by (intro conjI) (simp_all add: demo_catalog_defs hexstr_ok DiskName_def after_slash_def
      diskRe_def is_lower_c_def is_upper_c_def is_hex_c_def is_digit_def HasPrefix_def del: HasPrefix_iff)

lemma demo_dir_file_ok: "dir_file_ok demo_dir_model demo_dir_file"
  unfolding dir_file_ok_def validRelPath_iff
  by (intro conjI) (simp_all add: demo_catalog_defs hexstr_ok is_hex_c_def is_digit_def)

lemma demo_model_ok: "model_ok demo_pm demo_up demo_model"
  using demo_file_ok unfolding model_ok_def
  by (auto simp: demo_model_def hexstr_ok IsDir_def LayoutDir_def license_ok_def idRe_def is_lower_c_def
      is_digit_def is_hex_c_def)

lemma demo_dir_model_ok: "model_ok demo_pm demo_up demo_dir_model"
proof -
  have "dir_ok demo_pm demo_dir_model"
    using demo_dir_file_ok unfolding dir_ok_def
    by (intro conjI) (simp_all add: demo_dir_model_def demo_pm_def hexstr_ok is_hex_c_def is_digit_def
        diskRe_def is_lower_c_def)
  then show ?thesis
    by (auto simp: model_ok_def demo_dir_model_def hexstr_ok IsDir_def LayoutDir_def license_ok_def idRe_def
        is_lower_c_def is_digit_def is_hex_c_def)
qed

lemma demo_wf: "wf_models demo_pm demo_up (Models demo_catalog)"
  using demo_model_ok demo_dir_model_ok unfolding wf_models_def
  by (simp add: demo_catalog_def unit_defs)
    (simp add: demo_catalog_defs IsDir_def LayoutDir_def hexstr_ok DiskName_def after_slash_def)

section \<open>Properties\<close>

text \<open>C2. \<open>Validate\<close> accepts exactly the well-formed model lists: every model and file passes its
  own checks (names, sizes, hashes, the web-seed pinned to the model's repository and revision), and
  across the whole list the ids, the infohashes, the disk names and the per-file contents are all
  distinct, with no per-file content repeated in a folder, whatever the order of the models.\<close>

theorem validate_exact: "Validate pm up ms = None \<longleftrightarrow> wf_models pm up ms"
  by (rule Validate_wf)

lemma validated_units:
  assumes "Validate pm up ms = None"
  shows "distinct (map fInfoHash (concat (map units ms)))" "distinct (map DiskName (concat (map units ms)))"
    and "f \<in> set (concat (map units ms)) \<Longrightarrow> diskRe (DiskName f)"
proof -
  have wf: "wf_models pm up ms" using assms by (simp add: Validate_wf)
  then have "map unit_disks ms = map (map DiskName \<circ> units) ms"
    by (auto simp: wf_models_def unit_disks_units)
  with wf show "distinct (map fInfoHash (concat (map units ms)))" "distinct (map DiskName (concat (map units ms)))"
    by (simp_all add: wf_models_def unit_hashes_def [abs_def] map_concat comp_def)
  show "f \<in> set (concat (map units ms)) \<Longrightarrow> diskRe (DiskName f)"
    using wf by (auto simp: wf_models_def intro: unit_disk_ok)
qed

text \<open>C3. In an accepted catalog the torrents of all models have pairwise different infohashes and
  pairwise different disk names, and every disk name is one visible path element, so no two torrents
  share a path under \<open>data_dir\<close> and none can name \<open>.incoming\<close> or \<open>.quarantine\<close>.\<close>

theorem validate_units_disjoint:
  assumes "Validate pm up ms = None"
  shows "distinct (map fInfoHash (concat (map units ms))) \<and> distinct (map DiskName (concat (map units ms)))
    \<and> (\<forall>f\<in>set (concat (map units ms)). DiskName f \<noteq> '''' \<and> CHR ''/'' \<notin> set (DiskName f) \<and> hd (DiskName f) \<noteq> CHR ''.'')"
  using validated_units [OF assms] by (simp add: diskRe_element)

text \<open>C14. What \<open>Build\<close> writes, \<open>Parse\<close> reads back as the same catalog, given a JSON codec that
  decodes what it encodes (also with the newline \<open>Build\<close> appends); folder models never end up in a
  version 1 catalog.\<close>

theorem build_parse_roundtrip:
  assumes json: "\<And>c d. enc c = Some d \<Longrightarrow> dec (d @ [CHR 0x0A]) = Some c"
    and built: "Build pm up enc models now = Inr data"
  shows "\<exists>c. Parse pm up dec data = Inr c \<and> Models c = models \<and> Generated c = now
           \<and> (Version c = FormatVersion \<longleftrightarrow> (\<forall>m\<in>set models. \<not> IsDir m))"
proof -
  let ?c = "\<lparr>Version = catalogVersion models, Generated = now, Models = models\<rparr>"
  from built have "wf_models pm up models" "\<exists>d. enc ?c = Some d \<and> data = d @ [CHR 0x0A]"
    by (auto simp: Build_def Validate_wf [symmetric] split: option.splits)
  then have "Parse pm up dec data = Inr ?c"
    using json catalogVersion_cases [of models] by (auto simp: Parse_Inr)
  then show ?thesis
    by (auto simp: catalogVersion_def FormatVersion_def FormatVersionDir_def)
qed

theorem validate_units_disjoint_witness:
  "distinct (map DiskName (concat (map units (Models demo_catalog))))
   \<and> map DiskName (concat (map units (Models demo_catalog))) = [''m.gguf'', ''m2'']"
proof
  have "Validate demo_pm demo_up (Models demo_catalog) = None" by (simp add: Validate_wf demo_wf)
  from validate_units_disjoint [OF this]
  show "distinct (map DiskName (concat (map units (Models demo_catalog))))" by blast
  show "map DiskName (concat (map units (Models demo_catalog))) = [''m.gguf'', ''m2'']"
    by (simp add: demo_catalog_defs units_def dirUnit_def IsDir_def LayoutDir_def DiskName_def after_slash_def)
qed

text \<open>A codec that knows one catalog.\<close>

definition demo_enc :: "Catalog \<Rightarrow> bytes option" where
  "demo_enc c = (if c = demo_catalog then Some ''{}'' else None)"

definition demo_dec :: "bytes \<Rightarrow> Catalog option" where
  "demo_dec d = (if d = ''{}'' @ [CHR 0x0A] then Some demo_catalog else None)"

lemma demo_build: "Build demo_pm demo_up demo_enc (Models demo_catalog) 5 = Inr (''{}'' @ [CHR 0x0A])"
proof -
  have "catalogVersion (Models demo_catalog) = 2"
    by (simp add: catalogVersion_def demo_catalog_def demo_dir_model_def IsDir_def LayoutDir_def FormatVersionDir_def)
  moreover have "Validate demo_pm demo_up (Models demo_catalog) = None" by (simp add: Validate_wf demo_wf)
  ultimately show ?thesis by (simp add: Build_def demo_enc_def) (simp add: demo_catalog_def)
qed

theorem build_parse_roundtrip_witness:
  "\<exists>c. Parse demo_pm demo_up demo_dec (''{}'' @ [CHR 0x0A]) = Inr c \<and> Models c = Models demo_catalog \<and> Generated c = 5"
proof -
  have "demo_dec (d @ [CHR 0x0A]) = Some c" if "demo_enc c = Some d" for c d
    using that by (auto simp: demo_enc_def demo_dec_def split: if_splits)
  from build_parse_roundtrip [where enc = demo_enc and dec = demo_dec, OF this demo_build] show ?thesis by blast
qed

end
