(* ===== verification/Fetch.thy ===== *)
theory Fetch
  imports Catalog
begin

text \<open>
  Package \<open>catalog\<close>, files \<open>sign.go\<close> and \<open>fetch.go\<close>: signing, verifying and fetching the catalog and
  the torrents, with the on-disk cache.

  Parameters: base64 (\<open>b64enc\<close>, \<open>b64dec\<close>) and ed25519 (\<open>ed_sign\<close>, \<open>ed_verify\<close>) of Go's library, the
  JSON decoder and the two parsers of \<open>Catalog\<close>, collected in a record; and the answers of the network,
  as a function from URLs.
\<close>

section \<open>Signatures\<close>

record lib =
  b64enc :: "bytes \<Rightarrow> string"
  b64dec :: "string \<Rightarrow> bytes option"
  ed_sign :: "bytes \<Rightarrow> bytes \<Rightarrow> bytes"
  ed_verify :: "bytes \<Rightarrow> bytes \<Rightarrow> bytes \<Rightarrow> bool"
  json_dec :: "bytes \<Rightarrow> Catalog option"
  magnet_uri :: magnet_parser
  url_parse :: url_parser

datatype sign_error = BadPrivateKey
datatype verify_error = ErrNoPubKey | BadPublicKey | MalformedSignature | ErrBadSignature

definition PrivateKeySize :: nat where "PrivateKeySize = 64"
definition PublicKeySize :: nat where "PublicKeySize = 32"

definition Sign :: "lib \<Rightarrow> string \<Rightarrow> bytes \<Rightarrow> sign_error + bytes" where
  "Sign L privB64 data =
     (case b64dec L (TrimSpace privB64) of
        None \<Rightarrow> Inl BadPrivateKey
      | Some k \<Rightarrow>
          if length k \<noteq> PrivateKeySize then Inl BadPrivateKey
          else Inr (b64enc L (ed_sign L k data) @ [CHR 0x0A]))"

definition Verify :: "lib \<Rightarrow> string \<Rightarrow> bytes \<Rightarrow> bytes \<Rightarrow> verify_error option" where
  "Verify L pubB64 data sig =
     (if TrimSpace pubB64 = '''' then Some ErrNoPubKey
      else case b64dec L (TrimSpace pubB64) of
        None \<Rightarrow> Some BadPublicKey
      | Some p \<Rightarrow>
          if length p \<noteq> PublicKeySize then Some BadPublicKey
          else case b64dec L (TrimSpace sig) of
            None \<Rightarrow> Some MalformedSignature
          | Some s \<Rightarrow> if \<not> ed_verify L p data s then Some ErrBadSignature else None)"

section \<open>HTTP\<close>

text \<open>What a GET came back with: no response, or a status and the body, whose reading may fail.\<close>

datatype http_answer = NoResponse | Response int bytes bool

datatype get_error = RequestFailed | BadStatus int | ReadFailed | TooLarge

definition get :: "(string \<Rightarrow> http_answer) \<Rightarrow> string \<Rightarrow> nat \<Rightarrow> get_error + bytes" where
  "get net url maxlen =
     (case net url of
        NoResponse \<Rightarrow> Inl RequestFailed
      | Response st b rf \<Rightarrow>
          if st \<noteq> 200 then Inl (BadStatus st)
          else if rf then Inl ReadFailed
          else let data = take (maxlen + 1) b
               in if length data > maxlen then Inl TooLarge else Inr data)"

section \<open>The cache directory\<close>

text \<open>The cache directory as a map from names to contents. \<open>writeCache\<close> creates the parent
  directory, writes a temporary file and renames it: a failure at any stage leaves the entry as it
  was (the temporary file is not an entry that is ever read). A call may also fail to read an entry
  that is there (\<open>os.ReadFile\<close>, \<open>metainfo.LoadFromFile\<close>). A call reads at most one entry and writes at
  most one, so what the disk does to it is one answer for the read and one for the write.\<close>

type_synonym cache = "string \<rightharpoonup> bytes"

datatype write_stage = MkdirStage | WriteStage | RenameStage

record cache_faults =
  unreadable :: bool
  unwritten :: "write_stage option"

definition no_faults :: cache_faults where
  "no_faults = \<lparr>unreadable = False, unwritten = None\<rparr>"

text \<open>What reading an entry gives: \<open>None\<close> for any error.\<close>

definition read_entry :: "cache_faults \<Rightarrow> string \<Rightarrow> cache \<Rightarrow> bytes option" where
  "read_entry fault name c = (if unreadable fault then None else c name)"

definition writeCache :: "write_stage option \<Rightarrow> string \<Rightarrow> bytes \<Rightarrow> cache \<Rightarrow> write_stage option \<times> cache" where
  "writeCache fault name data c =
     (case fault of
        None \<Rightarrow> (None, c(name \<mapsto> data))
      | Some s \<Rightarrow> (Some s, c))"

definition cache_name :: string where "cache_name = ''catalog.cache''"

datatype fetch_error =
    GetErr get_error | VerifyErr verify_error | ParseErr catalog_error | CacheRead | NoSignatureLine

datatype fetch_result_error =
    Rollback time time               \<comment> \<open>fetched, cached\<close>
  | CachingFailed write_stage
  | NoUsableCache fetch_error fetch_error
  | UsingCached fetch_error

record fetcher =
  URL :: string
  PubKey :: string

definition loadCache :: "lib \<Rightarrow> fetcher \<Rightarrow> cache_faults \<Rightarrow> cache \<Rightarrow> fetch_error + Catalog" where
  "loadCache L f fault c =
     (case read_entry fault cache_name c of
        None \<Rightarrow> Inl CacheRead
      | Some data \<Rightarrow>
          let (sig, body, found) = Cut (CHR 0x0A) data
          in if \<not> found then Inl NoSignatureLine
             else case Verify L (PubKey f) body sig of
               Some e \<Rightarrow> Inl (VerifyErr e)
             | None \<Rightarrow>
                 (case Parse (magnet_uri L) (url_parse L) (json_dec L) body of
                    Inl e \<Rightarrow> Inl (ParseErr e)
                  | Inr cat \<Rightarrow> Inr cat))"

text \<open>The first half of \<open>Fetch\<close>: two downloads, the signature, the parse.\<close>

definition fetch_remote :: "lib \<Rightarrow> fetcher \<Rightarrow> (string \<Rightarrow> http_answer) \<Rightarrow> fetch_error + (bytes \<times> bytes \<times> Catalog)" where
  "fetch_remote L f net =
     (case get net (URL f) (32 * 2 ^ 20) of
        Inl e \<Rightarrow> Inl (GetErr e)
      | Inr body \<Rightarrow>
          (case get net (URL f @ ''.sig'') 4096 of
             Inl e \<Rightarrow> Inl (GetErr e)
           | Inr sig \<Rightarrow>
               (case Verify L (PubKey f) body sig of
                  Some e \<Rightarrow> Inl (VerifyErr e)
                | None \<Rightarrow>
                    (case Parse (magnet_uri L) (url_parse L) (json_dec L) body of
                       Inl e \<Rightarrow> Inl (ParseErr e)
                     | Inr cat \<Rightarrow> Inr (body, sig, cat)))))"

definition Fetch :: "lib \<Rightarrow> fetcher \<Rightarrow> (string \<Rightarrow> http_answer) \<Rightarrow> cache_faults \<Rightarrow> cache
    \<Rightarrow> Catalog option \<times> fetch_result_error option \<times> cache" where
  "Fetch L f net fault c =
     (case fetch_remote L f net of
        Inr (body, sig, cat) \<Rightarrow>
          (let store = (case writeCache (unwritten fault) cache_name (TrimSpace sig @ [CHR 0x0A] @ body) c of
                          (Some s, c') \<Rightarrow> (Some cat, Some (CachingFailed s), c')
                        | (None, c') \<Rightarrow> (Some cat, None, c'))
           in case loadCache L f fault c of
                Inr cached \<Rightarrow>
                  if Generated cat < Generated cached
                  then (Some cached, Some (Rollback (Generated cat) (Generated cached)), c)
                  else store
              | Inl _ \<Rightarrow> store)
      | Inl err \<Rightarrow>
          (case loadCache L f fault c of
             Inl cerr \<Rightarrow> (None, Some (NoUsableCache err cerr), c)
           | Inr cached \<Rightarrow> (Some cached, Some (UsingCached err), c)))"

section \<open>Torrents\<close>

text \<open>A metainfo file as far as the node uses it: the bytes of its info dict. \<open>load\<close> is the library's
  \<open>metainfo.Load\<close> and \<open>info_hash\<close> its \<open>HashInfoBytes().HexString()\<close>.\<close>

datatype torrent_error = BadInfohash string | TorrentGet get_error | TorrentParse | WrongInfohash string | TorrentCache write_stage

definition torrent_name :: "string \<Rightarrow> string" where
  "torrent_name ih = ''torrents/'' @ ih @ ''.torrent''"

definition base_url :: "string \<Rightarrow> string" where
  "base_url u = rev (dropWhile (\<lambda>c. c \<noteq> CHR ''/'') (rev u))"

definition fetchTorrent :: "(bytes \<Rightarrow> 'mi option) \<Rightarrow> ('mi \<Rightarrow> string) \<Rightarrow> fetcher \<Rightarrow> (string \<Rightarrow> http_answer)
    \<Rightarrow> cache_faults \<Rightarrow> string \<Rightarrow> cache \<Rightarrow> (torrent_error + 'mi) \<times> cache" where
  "fetchTorrent load info_hash f net fault ih c =
     (if \<not> hex40 ih then (Inl (BadInfohash ih), c)
      else case Option.bind (read_entry fault (torrent_name ih) c) (\<lambda>d. Option.bind (load d)
                  (\<lambda>mi. if info_hash mi = ih then Some mi else None)) of
        Some mi \<Rightarrow> (Inr mi, c)
      | None \<Rightarrow>
          (case get net (base_url (URL f) @ ''torrents/'' @ ih @ ''.torrent'') (16 * 2 ^ 20) of
             Inl e \<Rightarrow> (Inl (TorrentGet e), c)
           | Inr data \<Rightarrow>
               (case load data of
                  None \<Rightarrow> (Inl TorrentParse, c)
                | Some mi \<Rightarrow>
                    if info_hash mi \<noteq> ih then (Inl (WrongInfohash (info_hash mi)), c)
                    else case writeCache (unwritten fault) (torrent_name ih) data c of
                      (Some s, c') \<Rightarrow> (Inl (TorrentCache s), c')
                    | (None, c') \<Rightarrow> (Inr mi, c'))))"

section \<open>Lemmas: trimming and the cache line\<close>

lemma Cut_append: "c \<notin> set xs \<Longrightarrow> Cut c (xs @ c # ys) = (xs, ys, True)"
proof -
  assume "c \<notin> set xs"
  then have "takeWhile (\<lambda>x. x \<noteq> c) (xs @ c # ys) = xs"
    by (subst takeWhile_append2) auto
  then show ?thesis by (simp add: Cut_def Let_def)
qed

lemma Verify_TrimSpace [simp]: "Verify L pub data (TrimSpace sig) = Verify L pub data sig"
  by (simp only: Verify_def TrimSpace_idem)

section \<open>Lemmas: where a catalog comes from\<close>

text \<open>A catalog is genuine when it is parsed from bytes that carry a signature under the key.\<close>

definition genuine :: "lib \<Rightarrow> fetcher \<Rightarrow> Catalog \<Rightarrow> bool" where
  "genuine L f cat \<longleftrightarrow>
     (\<exists>data sig. Verify L (PubKey f) data sig = None
        \<and> Parse (magnet_uri L) (url_parse L) (json_dec L) data = Inr cat)"

lemma loadCache_genuine: "loadCache L f fault c = Inr cat \<Longrightarrow> genuine L f cat"
  by (auto simp: loadCache_def genuine_def split: option.splits prod.splits if_splits sum.splits)

lemma fetch_remote_Inr:
  "fetch_remote L f net = Inr (body, sig, cat) \<longleftrightarrow>
     get net (URL f) (32 * 2 ^ 20) = Inr body \<and> get net (URL f @ ''.sig'') 4096 = Inr sig
     \<and> Verify L (PubKey f) body sig = None \<and> Parse (magnet_uri L) (url_parse L) (json_dec L) body = Inr cat"
  by (auto simp: fetch_remote_def split: sum.splits option.splits)

lemma fetch_remote_genuine: "fetch_remote L f net = Inr (body, sig, cat) \<Longrightarrow> genuine L f cat"
  by (auto simp: fetch_remote_Inr genuine_def)

lemma writeCache_other: "name \<noteq> name' \<Longrightarrow> snd (writeCache fault name data c) name' = c name'"
  by (auto simp: writeCache_def split: option.splits)

text \<open>The four ways \<open>Fetch\<close> ends.\<close>

lemma Fetch_cases:
  obtains
    (stored) body sig cat where "fetch_remote L f net = Inr (body, sig, cat)" "unwritten fault = None"
      "Fetch L f net fault c = (Some cat, None, c(cache_name \<mapsto> TrimSpace sig @ [CHR 0x0A] @ body))"
      "\<And>cached. loadCache L f fault c = Inr cached \<Longrightarrow> Generated cached \<le> Generated cat"
  | (unstored) body sig cat s where "fetch_remote L f net = Inr (body, sig, cat)" "unwritten fault = Some s"
      "Fetch L f net fault c = (Some cat, Some (CachingFailed s), c)"
      "\<And>cached. loadCache L f fault c = Inr cached \<Longrightarrow> Generated cached \<le> Generated cat"
  | (kept) cached e where "loadCache L f fault c = Inr cached" "Fetch L f net fault c = (Some cached, Some e, c)"
  | (failed) e where "\<exists>cerr. loadCache L f fault c = Inl cerr" "Fetch L f net fault c = (None, Some e, c)"
proof (cases "fetch_remote L f net")
  case (Inl err)
  show ?thesis
  proof (cases "loadCache L f fault c")
    case (Inl cerr)
    with \<open>fetch_remote L f net = Inl err\<close> show ?thesis by (intro failed) (auto simp: Fetch_def)
  next
    case (Inr cached)
    with \<open>fetch_remote L f net = Inl err\<close> show ?thesis by (intro kept) (auto simp: Fetch_def)
  qed
next
  case (Inr r)
  obtain body sig cat where r: "fetch_remote L f net = Inr (body, sig, cat)" using Inr by (cases r) auto
  show ?thesis
  proof (cases "\<exists>cached. loadCache L f fault c = Inr cached \<and> Generated cat < Generated cached")
    case True
    with r show ?thesis by (auto simp: Fetch_def intro: kept)
  next
    case False
    then have newer: "\<And>cached. loadCache L f fault c = Inr cached \<Longrightarrow> Generated cached \<le> Generated cat"
      by (meson linorder_not_less)
    show ?thesis
    proof (cases "unwritten fault")
      case None
      with r False show ?thesis
        by (intro stored [OF r None _ newer])
           (auto simp: Fetch_def writeCache_def Let_def split: sum.splits)
    next
      case (Some s)
      with r False show ?thesis
        by (intro unstored [OF r Some _ newer])
           (auto simp: Fetch_def writeCache_def Let_def split: sum.splits)
    qed
  qed
qed

definition one_line_sig :: "fetcher \<Rightarrow> (string \<Rightarrow> http_answer) \<Rightarrow> bool" where
  "one_line_sig f net \<longleftrightarrow>
     (case get net (URL f @ ''.sig'') 4096 of Inl _ \<Rightarrow> True | Inr sig \<Rightarrow> CHR 0x0A \<notin> set (TrimSpace sig))"

lemma loadCache_stored:
  assumes "fetch_remote L f net = Inr (body, sig, cat)" "one_line_sig f net" "\<not> unreadable fault"
  shows "loadCache L f fault (c(cache_name \<mapsto> TrimSpace sig @ [CHR 0x0A] @ body)) = Inr cat"
proof -
  have "Cut (CHR 0x0A) (TrimSpace sig @ CHR 0x0A # body) = (TrimSpace sig, body, True)"
    using assms by (intro Cut_append) (auto simp: one_line_sig_def fetch_remote_Inr)
  with assms(1) assms(3) show ?thesis by (simp add: loadCache_def read_entry_def fetch_remote_Inr)
qed

text \<open>A run of fetches: the daemon's first fetch and its refresh loop.\<close>

fun fetch_run :: "lib \<Rightarrow> fetcher \<Rightarrow> ((string \<Rightarrow> http_answer) \<times> cache_faults) list \<Rightarrow> cache \<Rightarrow> cache" where
  "fetch_run L f [] c = c"
| "fetch_run L f ((net, fault) # xs) c = fetch_run L f xs (snd (snd (Fetch L f net fault c)))"

text \<open>Whether a catalog can be loaded depends on the faults only through the read.\<close>

lemma loadCache_readable: "\<not> unreadable fault \<Longrightarrow> loadCache L f fault c = loadCache L f no_faults c"
  by (simp add: loadCache_def read_entry_def no_faults_def)

lemma loadCache_unreadable: "unreadable fault \<Longrightarrow> loadCache L f fault c = Inl CacheRead"
  by (simp add: loadCache_def read_entry_def)

text \<open>A fetch keeps the cache's catalog or replaces it by one that is not older, when it can read the
  cache, or when the server gives it no catalog.\<close>

definition checked :: "lib \<Rightarrow> fetcher \<Rightarrow> (string \<Rightarrow> http_answer) \<Rightarrow> cache_faults \<Rightarrow> bool" where
  "checked L f net fault \<longleftrightarrow> \<not> unreadable fault \<or> (\<exists>e. fetch_remote L f net = Inl e)"

lemma Fetch_keeps_newer:
  assumes c: "loadCache L f no_faults c = Inr cached" and o: "one_line_sig f net" and r: "checked L f net fault"
  shows "\<exists>cached'. loadCache L f no_faults (snd (snd (Fetch L f net fault c))) = Inr cached'
           \<and> Generated cached \<le> Generated cached'"
proof (cases rule: Fetch_cases [of L f net fault c])
  case (stored body sig cat)
  then have "\<not> unreadable fault" using r by (simp add: checked_def)
  with c have "loadCache L f fault c = Inr cached" by (metis loadCache_readable)
  with stored loadCache_stored [OF stored(1) o, of no_faults c] show ?thesis by (simp add: no_faults_def)
next
  case (unstored body sig cat s)
  then show ?thesis using c by simp
next
  case (kept cached' e)
  then show ?thesis using c by simp
next
  case (failed e)
  then show ?thesis using c by simp
qed

section \<open>The torrent source interface\<close>

text \<open>\<open>node.TorrentSource\<close>: what the node relies on is that a metainfo it is given has the infohash
  it asked for. The hash is the signed one, so the info dict is the publisher's.\<close>

locale torrent_source =
  fixes torrent :: "'env \<Rightarrow> string \<Rightarrow> 's \<Rightarrow> ('e + 'mi) \<times> 's"
    and info_hash :: "'mi \<Rightarrow> string"
  assumes torrent_hash: "torrent env ih s = (Inr mi, s') \<Longrightarrow> info_hash mi = ih"
begin

text \<open>Whatever happens between two requests, answers for one infohash agree on it.\<close>

lemma torrent_same_hash:
  assumes "torrent env ih s = (Inr mi, s')" "torrent env' ih t = (Inr mi', t')"
  shows "info_hash mi = info_hash mi'"
  using torrent_hash [OF assms(1)] torrent_hash [OF assms(2)] by simp

end

lemma fetchTorrent_hash:
  "fetchTorrent load info_hash f net fault ih c = (Inr mi, c') \<Longrightarrow> info_hash mi = ih \<and> hex40 ih"
  by (auto simp: fetchTorrent_def writeCache_def split: if_splits option.splits sum.splits bind_splits)

interpretation fetcher_source:
  torrent_source "\<lambda>(net, fault). fetchTorrent load info_hash f net fault" info_hash
  for load :: "bytes \<Rightarrow> 'mi option" and info_hash :: "'mi \<Rightarrow> string" and f :: fetcher
  by unfold_locales (auto dest: fetchTorrent_hash)

section \<open>Properties\<close>

lemma Fetch_newer_than_cache:
  assumes "loadCache L f fault c = Inr cached"
  shows "\<exists>cat. fst (Fetch L f net fault c) = Some cat \<and> Generated cached \<le> Generated cat"
proof (cases rule: Fetch_cases [of L f net fault c])
  case (stored body sig cat)
  then show ?thesis using assms by simp
next
  case (unstored body sig cat s)
  then show ?thesis using assms by simp
next
  case (kept cached' e)
  then show ?thesis using assms by simp
next
  case (failed e)
  then show ?thesis using assms by simp
qed

lemma Fetch_unreadable:
  assumes "unreadable fault"
  shows "fst (Fetch L f net fault c) = (case fetch_remote L f net of Inr (body, sig, cat) \<Rightarrow> Some cat | Inl e \<Rightarrow> None)"
  using assms by (auto simp: Fetch_def loadCache_unreadable Let_def split: sum.splits prod.splits option.splits)

lemma fetch_run_keeps_newer:
  assumes "loadCache L f no_faults c = Inr cached" "\<forall>(net, fault)\<in>set xs. one_line_sig f net \<and> checked L f net fault"
  shows "\<exists>cached'. loadCache L f no_faults (fetch_run L f xs c) = Inr cached' \<and> Generated cached \<le> Generated cached'"
  using assms
proof (induction xs arbitrary: c cached)
  case Nil
  then show ?case by simp
next
  case (Cons x xs)
  obtain net fault where x: "x = (net, fault)" by force
  with Cons.prems obtain mid where mid:
    "loadCache L f no_faults (snd (snd (Fetch L f net fault c))) = Inr mid" "Generated cached \<le> Generated mid"
    using Fetch_keeps_newer [of L f c cached net fault] by auto
  from Cons.IH [OF mid(1)] Cons.prems(2) obtain last where
    "loadCache L f no_faults (fetch_run L f xs (snd (snd (Fetch L f net fault c)))) = Inr last"
    "Generated mid \<le> Generated last" by auto
  with mid(2) x show ?case by auto
qed

text \<open>A sample library: keys, signatures and base64 that are the identity but for base64's skipping
  of newline bytes, which Go's decoder has; a signature of data is the data behind an \<open>s\<close>.\<close>

definition demo_json :: "bytes \<Rightarrow> Catalog option" where
  "demo_json d = (if d = ''new'' then Some demo_catalog
                  else if d = ''old'' then Some (demo_catalog\<lparr>Generated := 4\<rparr>) else None)"

definition demo_lib :: lib where
  "demo_lib = \<lparr>b64enc = id, b64dec = (\<lambda>s. Some (filter (\<lambda>c. c \<noteq> CHR 0x0A \<and> c \<noteq> CHR 0x0D) s)),
     ed_sign = (\<lambda>k d. CHR ''s'' # d), ed_verify = (\<lambda>p d s. s = CHR ''s'' # d),
     json_dec = demo_json, magnet_uri = demo_pm, url_parse = demo_up\<rparr>"

definition demo_fetcher :: fetcher where
  "demo_fetcher = \<lparr>URL = ''u'', PubKey = replicate 32 (CHR ''k'')\<rparr>"

definition demo_net :: "bytes \<Rightarrow> bytes \<Rightarrow> string \<Rightarrow> http_answer" where
  "demo_net data sig url =
     (if url = ''u'' then Response 200 data False
      else if url = ''u.sig'' then Response 200 sig False else NoResponse)"

lemmas demo_fetch_defs = demo_lib_def demo_fetcher_def demo_net_def demo_json_def

lemma demo_parse:
  "Parse demo_pm demo_up demo_json ''new'' = Inr demo_catalog"
  "Parse demo_pm demo_up demo_json ''old'' = Inr (demo_catalog\<lparr>Generated := 4\<rparr>)"
proof -
  have w: "wf_models demo_pm demo_up (Models (demo_catalog\<lparr>Generated := g\<rparr>))" for g
    using demo_wf by (simp add: demo_catalog_def)
  have v: "Version demo_catalog = FormatVersionDir" "catalogVersion (Models demo_catalog) \<le> Version demo_catalog"
    by (simp_all add: demo_catalog_def FormatVersionDir_def catalogVersion_def FormatVersion_def)
  show "Parse demo_pm demo_up demo_json ''new'' = Inr demo_catalog"
    using demo_wf v by (simp add: Parse_Inr demo_json_def)
  show "Parse demo_pm demo_up demo_json ''old'' = Inr (demo_catalog\<lparr>Generated := 4\<rparr>)"
    using w [of 4] v by (simp add: Parse_Inr demo_json_def)
qed

lemma demo_key: "TrimSpace (PubKey demo_fetcher) = replicate 32 (CHR ''k'')"
  by (subst TrimSpace_plain) (simp_all add: demo_fetcher_def plain_byte_def is_space_def)

lemma demo_Verify:
  "Verify demo_lib (PubKey demo_fetcher) data sig =
     (if filter (\<lambda>c. c \<noteq> CHR 0x0A \<and> c \<noteq> CHR 0x0D) (TrimSpace sig) = CHR ''s'' # data
      then None else Some ErrBadSignature)"
  by (simp add: Verify_def demo_key demo_lib_def PublicKeySize_def)

lemma demo_remote:
  assumes "data = ''new'' \<and> cat = demo_catalog \<or> data = ''old'' \<and> cat = demo_catalog\<lparr>Generated := 4\<rparr>"
    and "length sig \<le> 4096"
    and "filter (\<lambda>c. c \<noteq> CHR 0x0A \<and> c \<noteq> CHR 0x0D) (TrimSpace sig) = CHR ''s'' # data"
  shows "fetch_remote demo_lib demo_fetcher (demo_net data sig) = Inr (data, sig, cat)"
proof -
  have "Parse (magnet_uri demo_lib) (url_parse demo_lib) (json_dec demo_lib) data = Inr cat"
    using assms(1) demo_parse by (auto simp: demo_lib_def)
  moreover have "Verify demo_lib (PubKey demo_fetcher) data sig = None"
    by (simp only: demo_Verify assms(3) refl if_True)
  moreover have "length data = 3" using assms(1) by auto
  then have "get (demo_net data sig) (URL demo_fetcher) (32 * 2 ^ 20) = Inr data"
    by (simp add: get_def demo_fetcher_def demo_net_def)
  moreover have "get (demo_net data sig) (URL demo_fetcher @ ''.sig'') 4096 = Inr sig"
    using assms(2) by (simp add: get_def demo_fetcher_def demo_net_def)
  ultimately show ?thesis by (simp only: fetch_remote_Inr)
qed


definition newsig :: bytes where "newsig = ''snew''"

definition newsig_split :: bytes where "newsig_split = ''sn'' @ [CHR 0x0A] @ ''ew''"

definition oldsig :: bytes where "oldsig = ''sold''"

lemma demo_sigs:
  "TrimSpace newsig = newsig" "TrimSpace newsig_split = newsig_split" "TrimSpace oldsig = oldsig"
  by (simp_all add: newsig_def newsig_split_def oldsig_def TrimSpace_ends plain_byte_def is_space_def)

lemma demo_remotes:
  "fetch_remote demo_lib demo_fetcher (demo_net ''new'' newsig) = Inr (''new'', newsig, demo_catalog)"
  "fetch_remote demo_lib demo_fetcher (demo_net ''new'' newsig_split) = Inr (''new'', newsig_split, demo_catalog)"
  "fetch_remote demo_lib demo_fetcher (demo_net ''old'' oldsig) = Inr (''old'', oldsig, demo_catalog\<lparr>Generated := 4\<rparr>)"
proof -
  have f: "filter (\<lambda>c. c \<noteq> CHR 0x0A \<and> c \<noteq> CHR 0x0D) (TrimSpace newsig) = CHR ''s'' # ''new''"
    "filter (\<lambda>c. c \<noteq> CHR 0x0A \<and> c \<noteq> CHR 0x0D) (TrimSpace newsig_split) = CHR ''s'' # ''new''"
    "filter (\<lambda>c. c \<noteq> CHR 0x0A \<and> c \<noteq> CHR 0x0D) (TrimSpace oldsig) = CHR ''s'' # ''old''"
    unfolding demo_sigs by (simp_all add: newsig_def newsig_split_def oldsig_def)
  have l: "length newsig \<le> 4096" "length newsig_split \<le> 4096" "length oldsig \<le> 4096"
    by (simp_all add: newsig_def newsig_split_def oldsig_def)
  show "fetch_remote demo_lib demo_fetcher (demo_net ''new'' newsig) = Inr (''new'', newsig, demo_catalog)"
    using f(1) l(1) by (intro demo_remote) simp_all
  show "fetch_remote demo_lib demo_fetcher (demo_net ''new'' newsig_split) = Inr (''new'', newsig_split, demo_catalog)"
    using f(2) l(2) by (intro demo_remote) simp_all
  show "fetch_remote demo_lib demo_fetcher (demo_net ''old'' oldsig)
      = Inr (''old'', oldsig, demo_catalog\<lparr>Generated := 4\<rparr>)"
    using f(3) l(3) by (intro demo_remote) simp_all
qed

lemma demo_one_line:
  "one_line_sig demo_fetcher (demo_net ''new'' newsig)" "one_line_sig demo_fetcher (demo_net ''old'' oldsig)"
  by (simp_all add: one_line_sig_def get_def demo_fetcher_def demo_net_def demo_sigs)
     (simp_all add: newsig_def oldsig_def)

lemma demo_fresh_fetch:
  assumes "sig = newsig \<or> sig = newsig_split"
  shows "Fetch demo_lib demo_fetcher (demo_net ''new'' sig) no_faults (\<lambda>_. None)
       = (Some demo_catalog, None, [cache_name \<mapsto> sig @ [CHR 0x0A] @ ''new''])"
  using assms by (auto simp: Fetch_def demo_remotes loadCache_def read_entry_def writeCache_def no_faults_def demo_sigs)

lemma demo_cached:
  "loadCache demo_lib demo_fetcher no_faults [cache_name \<mapsto> newsig @ [CHR 0x0A] @ ''new''] = Inr demo_catalog"
  using loadCache_stored [OF demo_remotes(1) demo_one_line(1), of no_faults "\<lambda>_. None"] by (simp add: demo_sigs no_faults_def)

text \<open>C5. Whatever the network serves and whatever the cache file holds, a catalog that \<open>Fetch\<close> returns
  was parsed from bytes signed under the configured key, and it is well formed.\<close>

theorem fetch_genuine:
  assumes "Fetch L f net fault c = (Some cat, err, c')"
  shows "(\<exists>data sig. Verify L (PubKey f) data sig = None \<and> json_dec L data = Some cat)
     \<and> wf_models (magnet_uri L) (url_parse L) (Models cat)"
proof -
  have "genuine L f cat"
  proof (cases rule: Fetch_cases [of L f net fault c])
    case (stored body sig cat')
    with assms show ?thesis using fetch_remote_genuine by simp
  next
    case (unstored body sig cat' s)
    with assms show ?thesis using fetch_remote_genuine by simp
  next
    case (kept cached e)
    with assms show ?thesis using loadCache_genuine by simp
  next
    case (failed e)
    with assms show ?thesis by simp
  qed
  then show ?thesis by (auto simp: genuine_def Parse_Inr)
qed

theorem fetch_genuine_witness:
  "wf_models (magnet_uri demo_lib) (url_parse demo_lib) (Models demo_catalog)"
  using fetch_genuine [OF demo_fresh_fetch] by blast

text \<open>C4. Rollback protection. Once a catalog is cached, then after any run of fetches against servers
  whose signature file is one line, with any mix of network and disk failures in which no fetch got a
  catalog from the server while it could not read its cache, a further fetch that can read the cache returns
  a catalog, whatever the server and the disk's writes do, and not one generated earlier. A fetch that
  cannot read the cache has no protection and no fallback: it returns whatever signed catalog the server has,
  older or not, and none when the server fails.\<close>

theorem fetch_no_rollback:
  assumes "loadCache L f no_faults c = Inr cached"
    and "\<forall>(net, fault)\<in>set xs. one_line_sig f net \<and> (\<not> unreadable fault \<or> (\<exists>e. fetch_remote L f net = Inl e))"
  shows "(\<not> unreadable fault \<longrightarrow>
       (\<exists>cat. fst (Fetch L f net fault (fetch_run L f xs c)) = Some cat \<and> Generated cached \<le> Generated cat))
     \<and> (unreadable fault \<longrightarrow> fst (Fetch L f net fault (fetch_run L f xs c))
          = (case fetch_remote L f net of Inr (body, sig, cat) \<Rightarrow> Some cat | Inl e \<Rightarrow> None))"
proof -
  obtain mid where mid: "loadCache L f no_faults (fetch_run L f xs c) = Inr mid" "Generated cached \<le> Generated mid"
    using fetch_run_keeps_newer [OF assms(1), of xs] assms(2) by (auto simp: checked_def)
  have "\<exists>cat. fst (Fetch L f net fault (fetch_run L f xs c)) = Some cat \<and> Generated cached \<le> Generated cat"
    if "\<not> unreadable fault"
    using Fetch_newer_than_cache [of L f fault "fetch_run L f xs c" mid net] mid loadCache_readable [OF that] by force
  then show ?thesis by (simp add: Fetch_unreadable)
qed

theorem fetch_no_rollback_witness:
  "\<exists>cat. fst (Fetch demo_lib demo_fetcher (demo_net ''old'' oldsig) no_faults
            (fetch_run demo_lib demo_fetcher
               [(demo_net ''old'' oldsig, no_faults), (\<lambda>_. NoResponse, \<lparr>unreadable = True, unwritten = None\<rparr>)]
               [cache_name \<mapsto> newsig @ [CHR 0x0A] @ ''new''])) = Some cat
         \<and> 5 \<le> Generated cat"
proof -
  have "fetch_remote demo_lib demo_fetcher (\<lambda>_. NoResponse) = Inl (GetErr RequestFailed)" by (simp add: fetch_remote_def get_def)
  moreover have "one_line_sig demo_fetcher (\<lambda>_. NoResponse)" by (simp add: one_line_sig_def get_def)
  ultimately show ?thesis
    using fetch_no_rollback [OF demo_cached, of "[(demo_net ''old'' oldsig, no_faults), (\<lambda>_. NoResponse, \<lparr>unreadable = True, unwritten = None\<rparr>)]"
      no_faults "demo_net ''old'' oldsig"] demo_one_line(2) by (simp add: demo_catalog_def no_faults_def)
qed

text \<open>C38. The one-line condition is needed. Base64 decoding skips newlines, so a signature with a newline
  inside verifies; but the cache is split at its first newline, so what is stored does not verify when it
  is read back, and the next fetch accepts an older catalog without an error.\<close>

theorem fetch_rollback_through_split_signature:
  "\<exists>L f net1 net2 new old c1 c2. Fetch L f net1 no_faults (\<lambda>_. None) = (Some new, None, c1)
     \<and> Fetch L f net2 no_faults c1 = (Some old, None, c2) \<and> Generated old < Generated new
     \<and> (\<forall>s. b64dec L (filter (\<lambda>c. c \<noteq> CHR 0x0A \<and> c \<noteq> CHR 0x0D) s) = b64dec L s)"
proof -
  let ?c = "[cache_name \<mapsto> newsig_split @ [CHR 0x0A] @ ''new'']"
  have "Cut (CHR 0x0A) (newsig_split @ [CHR 0x0A] @ ''new'') = (''sn'', ''ew'' @ [CHR 0x0A] @ ''new'', True)"
    using Cut_append [of "CHR 0x0A" "''sn''" "''ew'' @ [CHR 0x0A] @ ''new''"] by (simp add: newsig_split_def)
  moreover have "TrimSpace ''sn'' = ''sn''" by (simp add: TrimSpace_plain plain_byte_def is_space_def)
  ultimately have "\<exists>e. loadCache demo_lib demo_fetcher no_faults ?c = Inl e"
    by (simp add: loadCache_def read_entry_def no_faults_def demo_Verify)
  then obtain c2 where "Fetch demo_lib demo_fetcher (demo_net ''old'' oldsig) no_faults ?c
      = (Some (demo_catalog\<lparr>Generated := 4\<rparr>), None, c2)"
    by (auto simp: Fetch_def demo_remotes writeCache_def no_faults_def)
  moreover have "Generated (demo_catalog\<lparr>Generated := 4\<rparr>) < Generated demo_catalog" by (simp add: demo_catalog_def)
  moreover have "\<forall>s. b64dec demo_lib (filter (\<lambda>c. c \<noteq> CHR 0x0A \<and> c \<noteq> CHR 0x0D) s) = b64dec demo_lib s"
    by (simp add: demo_lib_def)
  ultimately show ?thesis using demo_fresh_fetch [of newsig_split] by blast
qed

text \<open>C17. A torrent the fetcher hands out, from its cache or from the server, has the infohash asked for,
  so two of them for one infohash always agree on it; and what it stores is what it hands out later
  without the network, by every call that can read its cache.\<close>

theorem fetch_torrent_hash:
  assumes "fetchTorrent load info_hash f net fault ih c = (Inr mi, c')"
  shows "info_hash mi = ih \<and> hex40 ih
    \<and> (\<not> unreadable fault' \<longrightarrow> fetchTorrent load info_hash f net' fault' ih c' = (Inr mi, c'))"
proof -
  have "info_hash mi = ih"
    using fetcher_source.torrent_hash [where env = "(net, fault)" and ih = ih and s = c and s' = c'] assms by simp
  moreover have "hex40 ih" using fetchTorrent_hash [OF assms] by simp
  moreover have "Option.bind (c' (torrent_name ih)) (\<lambda>d. Option.bind (load d)
                   (\<lambda>mi. if info_hash mi = ih then Some mi else None)) = Some mi"
    using assms by (auto simp: fetchTorrent_def read_entry_def writeCache_def split: if_splits option.splits sum.splits)
  ultimately show ?thesis by (simp add: fetchTorrent_def read_entry_def)
qed

theorem fetch_torrent_hash_witness:
  "fetchTorrent Some (\<lambda>_. replicate 40 (CHR ''0'')) demo_fetcher (\<lambda>_. NoResponse) no_faults (replicate 40 (CHR ''0''))
     [torrent_name (replicate 40 (CHR ''0'')) \<mapsto> ''d''] = (Inr ''d'', [torrent_name (replicate 40 (CHR ''0'')) \<mapsto> ''d''])"
proof -
  have "hex40 (replicate 40 (CHR ''0''))" using hexstr_ok by (simp add: hexstr_def is_hex_c_def is_digit_def)
  then have "fetchTorrent Some (\<lambda>_. replicate 40 (CHR ''0'')) demo_fetcher (\<lambda>_. Response 200 ''d'' False) no_faults
     (replicate 40 (CHR ''0'')) (\<lambda>_. None) = (Inr ''d'', [torrent_name (replicate 40 (CHR ''0'')) \<mapsto> ''d''])"
    by (simp add: fetchTorrent_def read_entry_def writeCache_def get_def no_faults_def)
  from fetch_torrent_hash [OF this] show ?thesis by (auto simp: no_faults_def)
qed

end
