(* ===== verification/Filesystem.thy ===== *)
theory Filesystem
  imports Prelude "HOL-Library.List_Lexorder" "HOL-Library.Char_ord"
begin

text \<open>
  The file system as far as the node uses it: the calls of Go's \<open>os\<close> and \<open>path/filepath\<close> packages on
  absolute paths, with symbolic links, inode identity and failing calls; and \<open>rename.go\<close>,
  \<open>rename_linux.go\<close> and \<open>rename_other.go\<close>, the rename that never replaces.

  A path is the list of its components. A world holds the entries, the calls that fail (any call may
  be made to fail with any error), the next inode number and the clock. The calls that only look are
  functions of the world; the ones that change it return an error, if any, and the new world.
\<close>

section \<open>Worlds\<close>

type_synonym path = "string list"

datatype errno = ENOENT | ENOTDIR | EEXIST | ENOTEMPTY | EISDIR | EINVAL | ENOSYS | ELOOP | EPERM | EIO

text \<open>\<open>Reg\<close> a regular file (inode, content, modification time), \<open>Sym\<close> a symbolic link with its
  target as an absolute path, \<open>Special\<close> a device, socket or pipe.\<close>

datatype fnode = Reg nat bytes int | Dir nat | Sym nat path | Special nat

datatype syscall =
    SLstat path | SStat path | SReadDir path | SReadFile path | SRemove path | SLink path path
  | SRename path path | SRenameat2 path path | SMkdirAll path | SWriteFile path

record world =
  files :: "(path \<times> fnode) list"
  faults :: "syscall \<Rightarrow> errno option"
  next_ino :: nat
  clock :: int

text \<open>A call that is made to fail never lies about the entries: the errors that state that something
  is or is not there only come from the entries themselves.\<close>

definition fault :: "world \<Rightarrow> syscall \<Rightarrow> errno option" where
  "fault w c =
     (case faults w c of
        None \<Rightarrow> None
      | Some e \<Rightarrow> if e = ENOENT \<or> e = EEXIST \<or> e = ENOTEMPTY then Some EIO else Some e)"

definition entry :: "world \<Rightarrow> path \<Rightarrow> fnode option" where
  "entry w p = (if p = [] then Some (Dir 0) else map_of (files w) p)"

fun is_dir :: "fnode \<Rightarrow> bool" where
  "is_dir (Dir _) = True"
| "is_dir _ = False"

fun is_reg :: "fnode \<Rightarrow> bool" where
  "is_reg (Reg _ _ _) = True"
| "is_reg _ = False"

fun is_sym :: "fnode \<Rightarrow> bool" where
  "is_sym (Sym _ _) = True"
| "is_sym _ = False"

fun fi_size :: "fnode \<Rightarrow> int" where
  "fi_size (Reg _ c _) = int (length c)"
| "fi_size _ = 0"

fun fi_mtime :: "fnode \<Rightarrow> int" where
  "fi_mtime (Reg _ _ t) = t"
| "fi_mtime _ = 0"

fun inode :: "fnode \<Rightarrow> nat" where
  "inode (Reg i _ _) = i"
| "inode (Dir i) = i"
| "inode (Sym i _) = i"
| "inode (Special i) = i"

text \<open>\<open>errors.Is\<close> with \<open>fs.ErrExist\<close> and \<open>fs.ErrNotExist\<close>, as \<open>syscall.Errno\<close> defines it.\<close>

definition is_exist :: "errno \<Rightarrow> bool" where
  "is_exist e \<longleftrightarrow> e = EEXIST \<or> e = ENOTEMPTY"

definition is_not_exist :: "errno \<Rightarrow> bool" where
  "is_not_exist e \<longleftrightarrow> e = ENOENT"

section \<open>Paths\<close>

text \<open>\<open>filepath.Clean\<close> on the components of an absolute path.\<close>

definition clean_step :: "path \<Rightarrow> string \<Rightarrow> path" where
  "clean_step acc c = (if c = '''' \<or> c = ''.'' then acc else if c = ''..'' then butlast acc else acc @ [c])"

definition Clean :: "path \<Rightarrow> path" where
  "Clean p = foldl clean_step [] p"

definition FromSlash :: "string \<Rightarrow> path" where
  "FromSlash s = Split (CHR ''/'') s"

definition ToSlash :: "path \<Rightarrow> string" where
  "ToSlash p = Join ''/'' p"

text \<open>\<open>filepath.Join(dir, filepath.FromSlash(rel))\<close>.\<close>

definition join_rel :: "path \<Rightarrow> string \<Rightarrow> path" where
  "join_rel dir rel = Clean (dir @ FromSlash rel)"

text \<open>\<open>filepath.Rel\<close> of two absolute paths, as components: \<open>[]\<close> is \<open>"."\<close>.\<close>

fun strip_common :: "path \<Rightarrow> path \<Rightarrow> path \<times> path" where
  "strip_common (a # as) (b # bs) = (if a = b then strip_common as bs else (a # as, b # bs))"
| "strip_common as bs = (as, bs)"

definition Rel :: "path \<Rightarrow> path \<Rightarrow> path" where
  "Rel base targ =
     (let (up, down) = strip_common (Clean base) (Clean targ) in map (\<lambda>_. ''..'') up @ down)"

definition pathInDir :: "path \<Rightarrow> path \<Rightarrow> bool" where
  "pathInDir dir p = (let rel = Rel (Clean dir) p in \<not> (rel = [] \<or> rel = [''..''] \<or> prefix [''..''] rel))"

definition clean_path :: "path \<Rightarrow> bool" where
  "clean_path p \<longleftrightarrow> list_all (\<lambda>c. c \<noteq> '''' \<and> c \<noteq> ''.'' \<and> c \<noteq> ''..'') p"

section \<open>Path resolution\<close>

text \<open>The kernel's walk along a path, at most forty symbolic links deep. \<open>follow\<close> tells whether a link
  at the very end is followed. The result is the place the path names, where there may be no entry.\<close>

fun walk :: "world \<Rightarrow> nat \<Rightarrow> path \<Rightarrow> path \<Rightarrow> bool \<Rightarrow> errno + path" where
  "walk w fuel cur [] follow = Inr cur"
| "walk w fuel cur (c # rest) follow =
     (if c = '''' \<or> c = ''.'' then walk w fuel cur rest follow
      else if c = ''..'' then walk w fuel (butlast cur) rest follow
      else case entry w (cur @ [c]) of
        Some (Sym _ target) \<Rightarrow>
          if rest = [] \<and> \<not> follow then Inr (cur @ [c])
          else (case fuel of 0 \<Rightarrow> Inl ELOOP | Suc k \<Rightarrow> walk w k [] (target @ rest) follow)
      | Some (Dir _) \<Rightarrow> walk w fuel (cur @ [c]) rest follow
      | Some _ \<Rightarrow> if rest = [] then Inr (cur @ [c]) else Inl ENOTDIR
      | None \<Rightarrow> if rest = [] then Inr (cur @ [c]) else Inl ENOENT)"

definition resolve :: "world \<Rightarrow> path \<Rightarrow> bool \<Rightarrow> errno + path" where
  "resolve w p follow = walk w 40 [] p follow"

definition look :: "world \<Rightarrow> path \<Rightarrow> bool \<Rightarrow> errno + fnode" where
  "look w p follow =
     (case resolve w p follow of
        Inl e \<Rightarrow> Inl e
      | Inr q \<Rightarrow> (case entry w q of None \<Rightarrow> Inl ENOENT | Some n \<Rightarrow> Inr n))"

definition Lstat :: "world \<Rightarrow> path \<Rightarrow> errno + fnode" where
  "Lstat w p = (case fault w (SLstat p) of Some e \<Rightarrow> Inl e | None \<Rightarrow> look w p False)"

definition Stat :: "world \<Rightarrow> path \<Rightarrow> errno + fnode" where
  "Stat w p = (case fault w (SStat p) of Some e \<Rightarrow> Inl e | None \<Rightarrow> look w p True)"

definition ReadFile :: "world \<Rightarrow> path \<Rightarrow> errno + bytes" where
  "ReadFile w p =
     (case fault w (SReadFile p) of
        Some e \<Rightarrow> Inl e
      | None \<Rightarrow> (case look w p True of
          Inl e \<Rightarrow> Inl e
        | Inr (Reg _ c _) \<Rightarrow> Inr c
        | Inr (Dir _) \<Rightarrow> Inl EISDIR
        | Inr _ \<Rightarrow> Inl EIO))"

section \<open>Calls that change the world\<close>

definition put :: "world \<Rightarrow> path \<Rightarrow> fnode \<Rightarrow> world" where
  "put w p n = w\<lparr>files := (p, n) # filter (\<lambda>(q, _). q \<noteq> p) (files w)\<rparr>"

definition del :: "world \<Rightarrow> path \<Rightarrow> world" where
  "del w p = w\<lparr>files := filter (\<lambda>(q, _). q \<noteq> p) (files w)\<rparr>"

definition has_children :: "world \<Rightarrow> path \<Rightarrow> bool" where
  "has_children w p = list_ex (\<lambda>(q, _). strict_prefix p q) (files w)"

definition Remove :: "world \<Rightarrow> path \<Rightarrow> errno option \<times> world" where
  "Remove w p =
     (case fault w (SRemove p) of
        Some e \<Rightarrow> (Some e, w)
      | None \<Rightarrow> (case resolve w p False of
          Inl e \<Rightarrow> (Some e, w)
        | Inr q \<Rightarrow> (case entry w q of
            None \<Rightarrow> (Some ENOENT, w)
          | Some (Dir _) \<Rightarrow> if q = [] \<or> has_children w q then (Some ENOTEMPTY, w) else (None, del w q)
          | Some _ \<Rightarrow> (None, del w q))))"

text \<open>\<open>os.RemoveAll\<close> removes bottom-up what it can: an entry that cannot be removed stays, with the
  directories above it, and makes the call fail.\<close>

definition stuck :: "world \<Rightarrow> path \<Rightarrow> bool" where
  "stuck w q = list_ex (\<lambda>(r, _). prefix q r \<and> fault w (SRemove r) \<noteq> None) (files w)"

definition RemoveAll :: "world \<Rightarrow> path \<Rightarrow> errno option \<times> world" where
  "RemoveAll w p =
     (case resolve w p False of
        Inl e \<Rightarrow> (if is_not_exist e then None else Some e, w)
      | Inr q \<Rightarrow>
          if q = [] then (Some EPERM, w)
          else (if stuck w q then Some EIO else None,
                w\<lparr>files := filter (\<lambda>(r, _). \<not> prefix q r \<or> stuck w r) (files w)\<rparr>))"

definition Link :: "world \<Rightarrow> path \<Rightarrow> path \<Rightarrow> errno option \<times> world" where
  "Link w old new =
     (case fault w (SLink old new) of
        Some e \<Rightarrow> (Some e, w)
      | None \<Rightarrow> (case look w old False of
          Inl e \<Rightarrow> (Some e, w)
        | Inr n \<Rightarrow>
            if is_dir n then (Some EPERM, w)
            else (case resolve w new False of
                Inl e \<Rightarrow> (Some e, w)
              | Inr q \<Rightarrow> (case entry w q of
                  Some _ \<Rightarrow> (Some EEXIST, w)
                | None \<Rightarrow> (None, put w q n)))))"

text \<open>Moving an entry with everything below it.\<close>

definition move_tree :: "world \<Rightarrow> path \<Rightarrow> path \<Rightarrow> world" where
  "move_tree w p q =
     w\<lparr>files := map (\<lambda>(r, n). if prefix p r then (q @ drop (length p) r, n) else (r, n))
                 (filter (\<lambda>(r, _). \<not> prefix q r) (files w))\<rparr>"

text \<open>\<open>rename(2)\<close> between two resolved places, and \<open>renameat2\<close> with \<open>RENAME_NOREPLACE\<close>.\<close>

definition rename2 :: "world \<Rightarrow> path \<Rightarrow> path \<Rightarrow> errno option \<times> world" where
  "rename2 w p q =
     (case entry w p of
        None \<Rightarrow> (Some ENOENT, w)
      | Some n \<Rightarrow>
          if p = q then (None, w)
          else if prefix p q then (Some EINVAL, w)
          else if prefix q p then (Some ENOTEMPTY, w)
          else case entry w q of
            None \<Rightarrow> (None, move_tree w p q)
          | Some m \<Rightarrow>
              if is_dir n \<and> \<not> is_dir m then (Some ENOTDIR, w)
              else if \<not> is_dir n \<and> is_dir m then (Some EISDIR, w)
              else if is_dir m \<and> has_children w q then (Some ENOTEMPTY, w)
              else (None, move_tree w p q))"

definition Renameat2 :: "world \<Rightarrow> path \<Rightarrow> path \<Rightarrow> errno option \<times> world" where
  "Renameat2 w old new =
     (case fault w (SRenameat2 old new) of
        Some e \<Rightarrow> (Some e, w)
      | None \<Rightarrow> (case resolve w old False of
          Inl e \<Rightarrow> (Some e, w)
        | Inr p \<Rightarrow> (case resolve w new False of
            Inl e \<Rightarrow> (Some e, w)
          | Inr q \<Rightarrow> (case entry w p of
              None \<Rightarrow> (Some ENOENT, w)
            | Some _ \<Rightarrow> (case entry w q of
                Some _ \<Rightarrow> (Some EEXIST, w)
              | None \<Rightarrow> rename2 w p q)))))"

text \<open>\<open>os.Rename\<close> refuses a directory at the new path before it calls \<open>rename(2)\<close>.\<close>

definition Rename :: "world \<Rightarrow> path \<Rightarrow> path \<Rightarrow> errno option \<times> world" where
  "Rename w old new =
     (let go = (case fault w (SRename old new) of
                  Some e \<Rightarrow> (Some e, w)
                | None \<Rightarrow> (case resolve w old False of
                    Inl e \<Rightarrow> (Some e, w)
                  | Inr p \<Rightarrow> (case resolve w new False of
                      Inl e \<Rightarrow> (Some e, w)
                    | Inr q \<Rightarrow> rename2 w p q)))
      in case Lstat w new of
           Inr m \<Rightarrow>
             if is_dir m
             then (case Lstat w old of
                     Inl e \<Rightarrow> (Some e, w)
                   | Inr n \<Rightarrow> if new = old \<or> inode m \<noteq> inode n then (Some EEXIST, w) else go)
             else go
         | Inl _ \<Rightarrow> go)"

definition mkdir_step :: "errno option \<times> world \<Rightarrow> path \<Rightarrow> errno option \<times> world" where
  "mkdir_step r p =
     (case r of
        (Some e, w) \<Rightarrow> (Some e, w)
      | (None, w) \<Rightarrow>
          (case look w p True of
             Inr n \<Rightarrow> if is_dir n then (None, w) else (Some ENOTDIR, w)
           | Inl e \<Rightarrow>
               if e \<noteq> ENOENT then (Some e, w)
               else (case resolve w p False of
                       Inl e \<Rightarrow> (Some e, w)
                     | Inr q \<Rightarrow> (case entry w q of
                         Some _ \<Rightarrow> (Some EEXIST, w)
                       | None \<Rightarrow> (None, put (w\<lparr>next_ino := Suc (next_ino w)\<rparr>) q (Dir (next_ino w)))))))"

definition MkdirAll :: "world \<Rightarrow> path \<Rightarrow> errno option \<times> world" where
  "MkdirAll w p =
     (case fault w (SMkdirAll p) of
        Some e \<Rightarrow> (Some e, w)
      | None \<Rightarrow> foldl mkdir_step (None, w) (map (\<lambda>n. take n p) [1..<Suc (length p)]))"

definition WriteFile :: "world \<Rightarrow> path \<Rightarrow> bytes \<Rightarrow> errno option \<times> world" where
  "WriteFile w p data =
     (case fault w (SWriteFile p) of
        Some e \<Rightarrow> (Some e, w)
      | None \<Rightarrow> (case resolve w p True of
          Inl e \<Rightarrow> (Some e, w)
        | Inr q \<Rightarrow> (case entry w q of
            None \<Rightarrow> (None, put (w\<lparr>next_ino := Suc (next_ino w)\<rparr>) q (Reg (next_ino w) data (clock w)))
          | Some (Reg i _ _) \<Rightarrow> (None, put w q (Reg i data (clock w)))
          | Some (Dir _) \<Rightarrow> (Some EISDIR, w)
          | Some _ \<Rightarrow> (Some EIO, w))))"

section \<open>Renaming without replacing\<close>

definition renameNoReplaceFallback :: "world \<Rightarrow> path \<Rightarrow> path \<Rightarrow> errno option \<times> world" where
  "renameNoReplaceFallback w oldpath newpath =
     (case Lstat w newpath of
        Inr _ \<Rightarrow> (Some EEXIST, w)
      | Inl e \<Rightarrow> if \<not> is_not_exist e then (Some e, w) else Rename w oldpath newpath)"

definition renameNoReplace :: "world \<Rightarrow> path \<Rightarrow> path \<Rightarrow> errno option \<times> world" where
  "renameNoReplace w oldpath newpath =
     (case Renameat2 w oldpath newpath of
        (Some e, w') \<Rightarrow>
          if e = EINVAL \<or> e = ENOSYS then renameNoReplaceFallback w' oldpath newpath else (Some e, w')
      | (None, w') \<Rightarrow> (None, w'))"

definition renameNoReplace_other :: "world \<Rightarrow> path \<Rightarrow> path \<Rightarrow> errno option \<times> world" where
  "renameNoReplace_other w oldpath newpath = renameNoReplaceFallback w oldpath newpath"

section \<open>Walking a directory\<close>

text \<open>\<open>filepath.WalkDir\<close>: the entries below (and at) the root in lexical order, by the components
  relative to the root, each with what the callback is told: a node, or the error of reading a
  directory, whose entries are then not visited.\<close>

datatype walk_event = Visit path fnode | WalkErr path errno

definition below :: "world \<Rightarrow> path \<Rightarrow> path list" where
  "below w q =
     sort (remdups ((if q = [] then [[]] else []) @ map (\<lambda>(r, _). drop (length q) r) (filter (\<lambda>(r, _). prefix q r) (files w))))"

definition hidden_by_fault :: "world \<Rightarrow> path \<Rightarrow> path \<Rightarrow> bool" where
  "hidden_by_fault w root s = list_ex (\<lambda>n. fault w (SReadDir (root @ take n s)) \<noteq> None) [0..<length s]"

definition visit :: "world \<Rightarrow> path \<Rightarrow> path \<Rightarrow> path \<Rightarrow> walk_event list" where
  "visit w root q s =
     (case entry w (q @ s) of
        None \<Rightarrow> []
      | Some n \<Rightarrow>
          if hidden_by_fault w root s then []
          else Visit s n # (if is_dir n then (case fault w (SReadDir (root @ s)) of Some e \<Rightarrow> [WalkErr s e] | None \<Rightarrow> [])
                            else []))"

definition WalkDir :: "world \<Rightarrow> path \<Rightarrow> walk_event list" where
  "WalkDir w root =
     (case Lstat w root of
        Inl e \<Rightarrow> [WalkErr [] e]
      | Inr n \<Rightarrow>
          (case resolve w root False of
             Inl e \<Rightarrow> [WalkErr [] e]
           | Inr q \<Rightarrow> if is_dir n then concat (map (visit w root q) (below w q)) else [Visit [] n]))"

text \<open>\<open>os.ReadDir\<close>: the names in a directory with their nodes.\<close>

definition ReadDir :: "world \<Rightarrow> path \<Rightarrow> errno + (string \<times> fnode) list" where
  "ReadDir w p =
     (case fault w (SReadDir p) of
        Some e \<Rightarrow> Inl e
      | None \<Rightarrow> (case resolve w p True of
          Inl e \<Rightarrow> Inl e
        | Inr q \<Rightarrow> (case entry w q of
            None \<Rightarrow> Inl ENOENT
          | Some n \<Rightarrow>
              if \<not> is_dir n then Inl ENOTDIR
              else Inr (concat (map (\<lambda>s. case s of
                     [c] \<Rightarrow> (case entry w (q @ [c]) of Some m \<Rightarrow> [(c, m)] | None \<Rightarrow> [])
                   | _ \<Rightarrow> []) (below w q))))))"

section \<open>Lemmas: entries\<close>

lemma entry_put [simp]: "p \<noteq> [] \<Longrightarrow> entry (put w p n) q = (if q = p then Some n else entry w q)"
proof -
  have "map_of (filter (\<lambda>(q, _). q \<noteq> p) xs) q = map_of xs q" if "q \<noteq> p" for xs :: "(path \<times> fnode) list"
    using that by (induction xs) auto
  then show "p \<noteq> [] \<Longrightarrow> ?thesis" by (auto simp: entry_def put_def)
qed

lemma entry_filter:
  "entry (w\<lparr>files := filter (\<lambda>(r, _). P r) (files w)\<rparr>) q = (if q = [] \<or> P q then entry w q else None)"
proof -
  have "map_of (filter (\<lambda>(r, _). P r) xs) q = (if P q then map_of xs q else None)" for xs :: "(path \<times> fnode) list"
    by (induction xs) auto
  then show ?thesis by (auto simp: entry_def)
qed

lemma entry_del [simp]: "entry (del w p) q = (if q = p \<and> p \<noteq> [] then None else entry w q)"
  unfolding del_def entry_filter by auto

lemma entry_root [simp]: "entry w [] = Some (Dir 0)"
  by (simp add: entry_def)

lemma faults_put [simp]: "faults (put w p n) = faults w" and faults_del [simp]: "faults (del w p) = faults w"
  and faults_move_tree [simp]: "faults (move_tree w p q) = faults w"
  by (simp_all add: put_def del_def move_tree_def)

lemma entry_update [simp]:
  "entry (w\<lparr>next_ino := i\<rparr>) q = entry w q" "entry (w\<lparr>clock := t\<rparr>) q = entry w q" "entry (w\<lparr>faults := f\<rparr>) q = entry w q"
  by (simp_all add: entry_def)

lemma entry_move_tree:
  assumes "\<not> prefix p q" "\<not> prefix q p"
  shows "entry (move_tree w p q) r =
    (if prefix q r then entry w (p @ drop (length q) r) else if prefix p r then None else entry w r)"
proof -
  have ne: "p \<noteq> []" "q \<noteq> []" using assms by auto
  let ?g = "\<lambda>(r, n). if prefix p r then (q @ drop (length p) r, n) else (r, n :: fnode)"
  have "map_of (map ?g (filter (\<lambda>(r, _). \<not> prefix q r) xs)) r =
     (if prefix q r then map_of xs (p @ drop (length q) r) else if prefix p r then None else map_of xs r)" for xs
  proof (induction xs)
    case Nil
    then show ?case by simp
  next
    case (Cons x xs)
    obtain s n where x: "x = (s, n)" by force
    have "prefix p s \<Longrightarrow> r = q @ drop (length p) s \<longleftrightarrow> prefix q r \<and> s = p @ drop (length q) r"
      by (auto simp: prefix_def)
    moreover have "prefix p s \<Longrightarrow> \<not> prefix q s" using assms prefix_same_cases by blast
    moreover have "\<not> prefix p s \<Longrightarrow> s \<noteq> p @ drop (length q) r" by auto
    moreover have "prefix q s \<Longrightarrow> s \<noteq> p @ drop (length q) r"
      using assms prefix_same_cases [of q s p] by (metis prefixI)
    ultimately show ?case using Cons.IH
      by (cases "prefix q s"; cases "prefix p s"; cases "prefix q r") (simp_all add: x, auto)
  qed
  then show ?thesis using ne by (auto simp: entry_def move_tree_def)
qed

section \<open>Lemmas: paths\<close>

lemma clean_path_Nil [simp]: "clean_path []"
  by (simp add: clean_path_def)

lemma clean_step_clean: "clean_path acc \<Longrightarrow> clean_path (clean_step acc c)"
  by (simp add: clean_path_def clean_step_def) (meson in_set_butlastD)

lemma clean_path_Clean [simp]: "clean_path (Clean p)"
proof -
  have "clean_path acc \<Longrightarrow> clean_path (foldl clean_step acc p)" for acc
    by (induction p arbitrary: acc) (auto simp: clean_step_clean)
  from this [of "[]"] show ?thesis by (simp add: Clean_def)
qed

lemma Clean_append: "clean_path q \<Longrightarrow> Clean (p @ q) = Clean p @ q"
proof -
  have "clean_path q \<Longrightarrow> foldl clean_step acc q = acc @ q" for acc
    by (induction q arbitrary: acc) (auto simp: clean_step_def clean_path_def)
  then show "clean_path q \<Longrightarrow> ?thesis" by (simp add: Clean_def)
qed

lemma Clean_id [simp]: "clean_path p \<Longrightarrow> Clean p = p"
  using Clean_append [of p "[]"] by (simp add: Clean_def)

lemma clean_path_append [simp]: "clean_path (p @ q) \<longleftrightarrow> clean_path p \<and> clean_path q"
  by (auto simp: clean_path_def)

lemma strip_common_split:
  "strip_common xs ys = (up, down) \<Longrightarrow>
     \<exists>c. xs = c @ up \<and> ys = c @ down \<and> (up = [] \<or> down = [] \<or> hd up \<noteq> hd down)"
proof (induction xs ys arbitrary: up down rule: strip_common.induct)
  case (1 a as b bs)
  show ?case
  proof (cases "a = b")
    case True
    with 1 obtain c where "as = c @ up" "bs = c @ down" "up = [] \<or> down = [] \<or> hd up \<noteq> hd down" by auto
    with True show ?thesis by (intro exI [of _ "a # c"]) auto
  next
    case False
    with 1 show ?thesis by auto
  qed
qed auto

lemma pathInDir_iff: "pathInDir dir p \<longleftrightarrow> strict_prefix (Clean dir) (Clean p)"
proof -
  obtain up down where s: "strip_common (Clean dir) (Clean p) = (up, down)" by force
  then obtain c where c: "Clean dir = c @ up" "Clean p = c @ down" "up = [] \<or> down = [] \<or> hd up \<noteq> hd down"
    using strip_common_split by blast
  have "clean_path (c @ down)" using clean_path_Clean [of p] c(2) by simp
  then have nd: "\<not> prefix [''..''] down" by (cases down) (auto simp: clean_path_def)
  have "pathInDir dir p \<longleftrightarrow> up = [] \<and> down \<noteq> []"
    using nd s by (cases up) (auto simp: pathInDir_def Rel_def)
  also have "\<dots> \<longleftrightarrow> strict_prefix (Clean dir) (Clean p)"
    using c by (cases up; cases down) (auto simp: strict_prefix_def)
  finally show ?thesis .
qed

section \<open>Lemmas: resolution through real directories\<close>

text \<open>Every proper ancestor of the path is a directory, not a link to one.\<close>

definition real_path :: "world \<Rightarrow> path \<Rightarrow> bool" where
  "real_path w p \<longleftrightarrow> clean_path p \<and> (\<forall>c\<in>set p. CHR ''/'' \<notin> set c) \<and> (\<forall>q. strict_prefix q p \<longrightarrow> (\<exists>i. entry w q = Some (Dir i)))"

lemma walk_real:
  assumes "clean_path rest" "\<forall>q. strict_prefix q rest \<longrightarrow> (\<exists>i. entry w (cur @ q) = Some (Dir i))"
    "\<not> follow \<or> (\<forall>i t. entry w (cur @ rest) \<noteq> Some (Sym i t))"
  shows "walk w fuel cur rest follow = Inr (cur @ rest)"
  using assms
proof (induction rest arbitrary: cur)
  case Nil
  then show ?case by simp
next
  case (Cons c rest)
  have c: "c \<noteq> ''''" "c \<noteq> ''.''" "c \<noteq> ''..''" "clean_path rest" using Cons.prems(1) by (auto simp: clean_path_def)
  show ?case
  proof (cases "rest = []")
    case True
    with Cons.prems(3) c show ?thesis by (auto split: option.splits fnode.splits)
  next
    case False
    then have "strict_prefix [c] (c # rest)" by (auto simp: strict_prefix_def)
    with Cons.prems(2) obtain i where i: "entry w (cur @ [c]) = Some (Dir i)" by blast
    have "\<exists>i. entry w ((cur @ [c]) @ q) = Some (Dir i)" if "strict_prefix q rest" for q
      using Cons.prems(2) that by (auto dest: spec [of _ "c # q"])
    moreover have "\<not> follow \<or> (\<forall>i t. entry w ((cur @ [c]) @ rest) \<noteq> Some (Sym i t))"
      using Cons.prems(3) by simp
    ultimately have "walk w fuel (cur @ [c]) rest follow = Inr ((cur @ [c]) @ rest)"
      by (intro Cons.IH c(4)) blast+
    with i c show ?thesis by simp
  qed
qed

lemma resolve_real [simp]: "real_path w p \<Longrightarrow> resolve w p False = Inr p"
  using walk_real [of p w "[]" False 40] by (simp add: resolve_def real_path_def)

lemma resolve_real_follow: "real_path w p \<Longrightarrow> \<forall>i t. entry w p \<noteq> Some (Sym i t) \<Longrightarrow> resolve w p True = Inr p"
  using walk_real [of p w "[]" True 40] by (simp add: resolve_def real_path_def)

lemma look_real [simp]:
  "real_path w p \<Longrightarrow> look w p False = (case entry w p of None \<Rightarrow> Inl ENOENT | Some n \<Rightarrow> Inr n)"
  by (simp add: look_def)

lemma real_path_append: "real_path w (p @ q) \<Longrightarrow> real_path w p"
  unfolding real_path_def by (auto dest: prefix_order.less_le_trans [OF _ prefixI [OF refl]])

lemma real_path_child: "real_path w p \<Longrightarrow> entry w p = Some (Dir i) \<Longrightarrow> clean_path [c] \<Longrightarrow> CHR ''/'' \<notin> set c \<Longrightarrow> real_path w (p @ [c])"
  by (auto simp: real_path_def strict_prefix_def prefix_snoc)

lemma fault_honest [simp]:
  "fault w c \<noteq> Some ENOENT" "fault w c \<noteq> Some EEXIST" "fault w c \<noteq> Some ENOTEMPTY"
  by (auto simp: fault_def split: option.splits)

lemma fault_cong [simp]:
  "fault (put w p n) c = fault w c" "fault (del w p) c = fault w c" "fault (move_tree w p q) c = fault w c"
  "fault (w\<lparr>files := f\<rparr>) c = fault w c" "fault (w\<lparr>next_ino := i\<rparr>) c = fault w c"
  by (simp_all add: fault_def put_def del_def move_tree_def)

section \<open>Lemmas: what a call can change\<close>

lemma Remove_result:
  "(\<exists>e. Remove w p = (Some e, w)) \<or>
   (\<exists>q n. Remove w p = (None, del w q) \<and> resolve w p False = Inr q \<and> entry w q = Some n \<and> q \<noteq> []
      \<and> (is_dir n \<longrightarrow> \<not> has_children w q))"
proof (cases "fault w (SRemove p)")
  case None
  show ?thesis
  proof (cases "resolve w p False")
    case (Inr q)
    with None show ?thesis
      by (cases "entry w q"; cases "the (entry w q)"; cases "q = []") (auto simp: Remove_def)
  qed (simp add: Remove_def None)
qed (simp add: Remove_def)

lemma Remove_cases:
  obtains
    (failed) e where "Remove w p = (Some e, w)"
  | (removed) q n where "Remove w p = (None, del w q)" "resolve w p False = Inr q" "entry w q = Some n" "q \<noteq> []"
      "is_dir n \<longrightarrow> \<not> has_children w q"
  using Remove_result [of w p] by blast

lemma Link_result:
  "(\<exists>e. Link w old new = (Some e, w)) \<or>
   (\<exists>q n. Link w old new = (None, put w q n) \<and> look w old False = Inr n \<and> \<not> is_dir n
      \<and> resolve w new False = Inr q \<and> entry w q = None)"
  by (auto simp: Link_def split: option.splits sum.splits)

lemma Link_cases:
  obtains
    (failed) e where "Link w old new = (Some e, w)"
  | (linked) q n where "Link w old new = (None, put w q n)" "look w old False = Inr n" "\<not> is_dir n"
      "resolve w new False = Inr q" "entry w q = None"
  using Link_result [of w old new] by blast

lemma RemoveAll_entry:
  assumes "RemoveAll w p = (r, w')" "resolve w p False = Inr q"
  shows "entry w' s = (if s \<noteq> [] \<and> q \<noteq> [] \<and> prefix q s \<and> \<not> stuck w s then None else entry w s)"
  using assms entry_filter [of "\<lambda>r. \<not> prefix q r \<or> stuck w r" w s] by (auto simp: RemoveAll_def split: if_splits)

lemma RemoveAll_outside:
  assumes "RemoveAll w p = (r, w')" "\<And>q. resolve w p False = Inr q \<Longrightarrow> \<not> prefix q s"
  shows "entry w' s = entry w s"
proof (cases "resolve w p False")
  case (Inl e)
  with assms show ?thesis by (auto simp: RemoveAll_def)
next
  case (Inr q)
  then have "\<not> prefix q s" by (rule assms(2))
  then show ?thesis using RemoveAll_entry [OF assms(1) Inr, of s] by simp
qed

lemma rename2_free:
  assumes "rename2 w p q = (None, w')" "entry w q = None"
  shows "entry w p \<noteq> None \<and> \<not> prefix p q \<and> \<not> prefix q p \<and> w' = move_tree w p q"
  using assms by (auto simp: rename2_def split: option.splits if_splits)

lemma rename2_failed: "rename2 w p q = (Some e, w') \<Longrightarrow> w' = w"
  by (auto simp: rename2_def split: option.splits if_splits)

lemma Rename_failed: "Rename w p q = (Some e, w') \<Longrightarrow> w' = w"
  by (auto simp: Rename_def Let_def dest: rename2_failed split: option.splits sum.splits if_splits)

lemma Renameat2_failed: "Renameat2 w p q = (Some e, w') \<Longrightarrow> w' = w"
  by (auto simp: Renameat2_def dest: rename2_failed split: option.splits sum.splits)

section \<open>The no-replace contract\<close>

text \<open>A move succeeds only onto a place where there is nothing, moves the whole tree there, and leaves
  the world as it was when it fails; with nothing in its way and no failing call it succeeds.\<close>

locale no_replace_move =
  fixes mv :: "world \<Rightarrow> path \<Rightarrow> path \<Rightarrow> errno option \<times> world"
  assumes mv_failed: "mv w old new = (Some e, w') \<Longrightarrow> w' = w"
    and mv_moved: "mv w old new = (None, w') \<Longrightarrow>
      \<exists>p q. resolve w old False = Inr p \<and> resolve w new False = Inr q \<and> entry w p \<noteq> None \<and> entry w q = None
        \<and> \<not> prefix p q \<and> \<not> prefix q p \<and> w' = move_tree w p q"
    and mv_taken: "resolve w new False = Inr q \<Longrightarrow> entry w q \<noteq> None \<Longrightarrow> entry w p \<noteq> None \<Longrightarrow>
      resolve w old False = Inr p \<Longrightarrow> \<forall>c. fault w c = None \<Longrightarrow> mv w old new = (Some EEXIST, w)"
    and mv_free: "resolve w old False = Inr p \<Longrightarrow> resolve w new False = Inr q \<Longrightarrow> entry w p \<noteq> None \<Longrightarrow>
      entry w q = None \<Longrightarrow> \<not> prefix p q \<Longrightarrow> \<not> prefix q p \<Longrightarrow> \<forall>c. fault w c = None \<Longrightarrow>
      mv w old new = (None, move_tree w p q)"
begin

lemma mv_keeps:
  assumes "mv w old new = (r, w')" "entry w s = Some n" "\<And>p. resolve w old False = Inr p \<Longrightarrow> \<not> prefix p s"
    and wf: "\<And>q. prefix q s \<Longrightarrow> entry w q \<noteq> None"
  shows "entry w' s = Some n"
proof (cases r)
  case None
  obtain p q where pq: "resolve w old False = Inr p" "entry w q = None" "\<not> prefix p q" "\<not> prefix q p"
    "w' = move_tree w p q" using mv_moved [of w old new w'] assms(1) None by auto
  have "\<not> prefix q s" using wf [of q] pq(2) by blast
  with pq assms show ?thesis by (simp add: entry_move_tree)
next
  case (Some e)
  with assms mv_failed show ?thesis by blast
qed

end

lemma fallback_moved:
  assumes "renameNoReplaceFallback w old new = (None, w')"
  shows "\<exists>p q. resolve w old False = Inr p \<and> resolve w new False = Inr q \<and> entry w p \<noteq> None \<and> entry w q = None
        \<and> \<not> prefix p q \<and> \<not> prefix q p \<and> w' = move_tree w p q"
proof -
  from assms have l: "Lstat w new = Inl ENOENT" and r: "Rename w old new = (None, w')"
    by (auto simp: renameNoReplaceFallback_def is_not_exist_def split: sum.splits if_splits)
  from l have look: "look w new False = Inl ENOENT"
    by (auto simp: Lstat_def split: option.splits)
  from r l obtain p q where pq: "resolve w old False = Inr p" "resolve w new False = Inr q" "rename2 w p q = (None, w')"
    by (auto simp: Rename_def split: option.splits sum.splits)
  with look have "entry w q = None" by (auto simp: look_def split: option.splits)
  with pq rename2_free [OF pq(3)] show ?thesis by blast
qed

lemma fallback_failed: "renameNoReplaceFallback w old new = (Some e, w') \<Longrightarrow> w' = w"
  by (auto simp: renameNoReplaceFallback_def dest: Rename_failed split: sum.splits if_splits)

lemma rename2_moves:
  "entry w p \<noteq> None \<Longrightarrow> entry w q = None \<Longrightarrow> \<not> prefix p q \<Longrightarrow> \<not> prefix q p \<Longrightarrow>
   rename2 w p q = (None, move_tree w p q)"
  by (auto simp: rename2_def)

lemmas quiet_calls = Lstat_def Stat_def look_def Rename_def Renameat2_def

interpretation fallback: no_replace_move renameNoReplace_other
proof
  show "\<And>w old new e w'. renameNoReplace_other w old new = (Some e, w') \<Longrightarrow> w' = w"
    by (simp add: renameNoReplace_other_def fallback_failed)
  show "\<And>w old new w'. renameNoReplace_other w old new = (None, w') \<Longrightarrow>
      \<exists>p q. resolve w old False = Inr p \<and> resolve w new False = Inr q \<and> entry w p \<noteq> None \<and> entry w q = None
        \<and> \<not> prefix p q \<and> \<not> prefix q p \<and> w' = move_tree w p q"
    unfolding renameNoReplace_other_def by (rule fallback_moved)
qed (auto simp: renameNoReplace_other_def renameNoReplaceFallback_def quiet_calls is_not_exist_def rename2_moves)

interpretation linux: no_replace_move renameNoReplace
proof
  show "\<And>w old new e w'. renameNoReplace w old new = (Some e, w') \<Longrightarrow> w' = w"
    by (auto simp: renameNoReplace_def dest: Renameat2_failed fallback_failed split: prod.splits option.splits if_splits)
  fix w old new w'
  assume ok: "renameNoReplace w old new = (None, w')"
  show "\<exists>p q. resolve w old False = Inr p \<and> resolve w new False = Inr q \<and> entry w p \<noteq> None \<and> entry w q = None
        \<and> \<not> prefix p q \<and> \<not> prefix q p \<and> w' = move_tree w p q"
  proof (cases "\<exists>e. fst (Renameat2 w old new) = Some e")
    case True
    then obtain e where "Renameat2 w old new = (Some e, w)" using Renameat2_failed [of w old new] by (metis prod.collapse)
    with ok show ?thesis by (auto simp: renameNoReplace_def dest: fallback_moved split: if_splits)
  next
    case False
    with ok have "Renameat2 w old new = (None, w')"
      by (auto simp: renameNoReplace_def split: prod.splits option.splits)
    then show ?thesis
      by (auto simp: Renameat2_def dest: rename2_free split: option.splits sum.splits)
  qed
qed (auto simp: renameNoReplace_def Renameat2_def rename2_moves)

section \<open>Well-formed worlds\<close>

text \<open>Every entry has a clean name and lies in directories.\<close>

definition wf_world :: "world \<Rightarrow> bool" where
  "wf_world w = list_all (\<lambda>(p, _). p \<noteq> [] \<and> clean_path p \<and> list_all (\<lambda>c. CHR ''/'' \<notin> set c) p
      \<and> list_all (\<lambda>k. case entry w (take k p) of Some (Dir _) \<Rightarrow> True | _ \<Rightarrow> False) [0..<length p]) (files w)"

lemma files_entry: "p \<noteq> [] \<Longrightarrow> p \<in> fst ` set (files w) \<longleftrightarrow> entry w p \<noteq> None"
  by (simp add: entry_def map_of_eq_None_iff)

lemma has_children_iff: "has_children w p \<longleftrightarrow> (\<exists>q. strict_prefix p q \<and> entry w q \<noteq> None)"
proof -
  have "has_children w p \<longleftrightarrow> (\<exists>q\<in>fst ` set (files w). strict_prefix p q)"
    by (force simp: has_children_def list_ex_iff)
  also have "\<dots> \<longleftrightarrow> (\<exists>q. strict_prefix p q \<and> entry w q \<noteq> None)"
    using files_entry by (metis prefix_bot.extremum_strict)
  finally show ?thesis .
qed

lemma prefix_take: "strict_prefix q p \<longleftrightarrow> (\<exists>k<length p. q = take k p)"
  by (metis append_take_drop_id drop_eq_Nil2 less_le_not_le linorder_le_less_linear prefix_length_less prefixE
      prefix_order.dual_order.strict_iff_order append_eq_conv_conj take_is_prefix take_all_iff)

lemma wf_world_iff:
  "wf_world w \<longleftrightarrow> (\<forall>p \<in> fst ` set (files w). p \<noteq> [] \<and> clean_path p \<and> (\<forall>c\<in>set p. CHR ''/'' \<notin> set c)
      \<and> (\<forall>q. strict_prefix q p \<longrightarrow> (\<exists>i. entry w q = Some (Dir i))))"
proof -
  have "(case x of Some (Dir _) \<Rightarrow> True | _ \<Rightarrow> False) \<longleftrightarrow> (\<exists>i. x = Some (Dir i))" for x
    by (auto split: option.splits fnode.splits)
  then show ?thesis unfolding wf_world_def prefix_take by (fastforce simp: list_all_iff)
qed

lemma wf_entry:
  assumes "wf_world w" "entry w p \<noteq> None"
  shows "real_path w p" "\<forall>c\<in>set p. CHR ''/'' \<notin> set c"
  using assms files_entry [of p w] by (cases "p = []"; auto simp: wf_world_iff real_path_def)+

text \<open>The second world has the entries of the first but for some that are gone.\<close>

definition shrinks :: "(path \<Rightarrow> bool) \<Rightarrow> world \<Rightarrow> world \<Rightarrow> bool" where
  "shrinks P w w' \<longleftrightarrow> faults w' = faults w
     \<and> (\<forall>s. entry w' s = entry w s \<or> entry w' s = None \<and> P s)"

lemma shrinks_refl [simp]: "shrinks P w w"
  by (simp add: shrinks_def)

lemma shrinks_trans: "shrinks P w w' \<Longrightarrow> shrinks P w' w'' \<Longrightarrow> shrinks P w w''"
  unfolding shrinks_def by metis

lemma shrinks_mono: "shrinks P w w' \<Longrightarrow> (\<And>s. P s \<Longrightarrow> Q s) \<Longrightarrow> shrinks Q w w'"
  unfolding shrinks_def by blast

lemma shrinks_del: "P q \<Longrightarrow> shrinks P w (del w q)"
  by (simp add: shrinks_def)

text \<open>Nothing but directories on the way to the path.\<close>

definition plain_path :: "world \<Rightarrow> path \<Rightarrow> bool" where
  "plain_path w p \<longleftrightarrow> clean_path p \<and> (\<forall>q n. strict_prefix q p \<longrightarrow> entry w q = Some n \<longrightarrow> is_dir n)"

lemma real_plain: "real_path w p \<Longrightarrow> plain_path w p"
  by (fastforce simp: real_path_def plain_path_def)

lemma plain_shrinks: "plain_path w p \<Longrightarrow> shrinks P w w' \<Longrightarrow> plain_path w' p"
  unfolding plain_path_def shrinks_def by (metis option.distinct(1))

lemma walk_plain:
  assumes "clean_path rest" "\<forall>q n. strict_prefix q rest \<longrightarrow> entry w (cur @ q) = Some n \<longrightarrow> is_dir n"
  shows "walk w fuel cur rest False = Inr (cur @ rest) \<or> walk w fuel cur rest False = Inl ENOENT"
  using assms
proof (induction rest arbitrary: cur)
  case Nil
  then show ?case by simp
next
  case (Cons c rest)
  have c: "c \<noteq> ''''" "c \<noteq> ''.''" "c \<noteq> ''..''" "clean_path rest" using Cons.prems(1) by (auto simp: clean_path_def)
  show ?case
  proof (cases "rest = []")
    case True
    with c show ?thesis by (auto split: option.splits fnode.splits)
  next
    case False
    then have "strict_prefix [c] (c # rest)" by (auto simp: strict_prefix_def)
    with Cons.prems(2) have d: "entry w (cur @ [c]) = Some n \<Longrightarrow> is_dir n" for n by blast
    have "\<forall>q n. strict_prefix q rest \<longrightarrow> entry w ((cur @ [c]) @ q) = Some n \<longrightarrow> is_dir n"
      using Cons.prems(2) by (auto dest: spec [of _ "c # _"])
    from Cons.IH [OF c(4) this] c(1-3) d False show ?thesis
      by (auto split: option.splits fnode.splits)
  qed
qed

lemma resolve_plain: "plain_path w p \<Longrightarrow> resolve w p False = Inr p \<or> resolve w p False = Inl ENOENT"
  using walk_plain [of p w "[]" 40] by (simp add: resolve_def plain_path_def)

lemma Remove_shrinks:
  assumes "Remove w p = (r, w')" "plain_path w p" "P p"
  shows "shrinks P w w'"
proof (cases rule: Remove_cases [of w p])
  case (failed e)
  with assms show ?thesis by simp
next
  case (removed q n)
  with resolve_plain [OF assms(2)] have "q = p" by auto
  with removed assms show ?thesis by (auto intro: shrinks_del)
qed

lemma wf_del: "wf_world w \<Longrightarrow> \<not> has_children w q \<Longrightarrow> wf_world (del w q)"
  unfolding wf_world_iff has_children_iff
  by (auto simp: del_def [of w q] entry_del [unfolded del_def]) (metis files_entry fst_conv image_eqI option.distinct(1) prefix_bot.extremum_strict)

lemma wf_leaf: "wf_world w \<Longrightarrow> entry w q = Some n \<Longrightarrow> \<not> is_dir n \<Longrightarrow> \<not> has_children w q"
  unfolding has_children_iff by (metis is_dir.simps(1) option.inject real_path_def wf_entry(1))

lemma wf_Remove: "wf_world w \<Longrightarrow> Remove w p = (r, w') \<Longrightarrow> wf_world w'"
  by (cases rule: Remove_cases [of w p]) (auto dest: wf_leaf intro: wf_del)

lemma real_path_put: "real_path w p \<Longrightarrow> entry w q = None \<Longrightarrow> real_path (put w q n) p"
  unfolding real_path_def by (metis entry_put entry_root option.distinct(1))

lemma wf_put:
  assumes "wf_world w" "real_path w q" "entry w q = None"
  shows "wf_world (put w q n)"
proof -
  have q: "q \<noteq> []" using assms(3) by auto
  have "p \<noteq> [] \<and> real_path (put w q n) p" if "p \<in> fst ` set (files (put w q n))" for p
  proof -
    have "p = q \<or> p \<in> fst ` set (files w)" using that by (auto simp: put_def)
    then have "p \<noteq> [] \<and> real_path w p"
      using assms q by (auto simp: wf_world_iff real_path_def)
    then show ?thesis using real_path_put [OF _ assms(3)] by blast
  qed
  then show ?thesis unfolding wf_world_iff real_path_def by blast
qed

lemma Remove_real:
  assumes "Remove w p = (r, w')" "real_path w p"
  shows "w' = w \<and> r \<noteq> None \<or> w' = del w p \<and> r = None \<and> p \<noteq> [] \<and> entry w p \<noteq> None"
  using assms by (cases rule: Remove_cases [of w p]) auto

lemma Link_real:
  assumes "Link w old new = (r, w')" "real_path w new"
  shows "w' = w \<and> r \<noteq> None \<or> r = None \<and> entry w new = None \<and> (\<exists>n. look w old False = Inr n \<and> \<not> is_dir n \<and> w' = put w new n)"
  using assms by (cases rule: Link_cases [of w old new]) auto

lemma Link_taken: "real_path w new \<Longrightarrow> entry w new \<noteq> None \<Longrightarrow> \<exists>e. Link w old new = (Some e, w)"
  using Link_real [of w old new] by (metis prod.collapse option.exhaust)

lemma look_entry: "wf_world w \<Longrightarrow> entry w p = Some n \<Longrightarrow> look w p False = Inr n"
  using wf_entry(1) [of w p] by simp

end
