(* ===== verification/Downloaded.thy ===== *)
theory Downloaded
  imports Filesystem Fetch
begin

text \<open>
  \<open>internal/node/downloaded.go\<close>: the persistent record of the files the node downloaded itself, the
  check that such a file is still what was downloaded, and its removal.

  A record's path is its list of components. The record file \<open>downloaded.json\<close> is written like the
  catalog cache (a temporary file, then a rename), so a failed save leaves it as it was; its JSON
  encoding is a parameter. The order of the entries of a map is the order Go happens to iterate in.
\<close>

section \<open>The record\<close>

record fileIdentity =
  idSize :: int
  idModTime :: int

record downloadedFile =
  Path :: path
  dSize :: int
  ModTime :: int
  dFiles :: "(string \<times> fileIdentity) list option"

definition isDir :: "downloadedFile \<Rightarrow> bool" where
  "isDir f \<longleftrightarrow> dFiles f \<noteq> None"

type_synonym dlmap = "(string \<times> downloadedFile) list"

text \<open>\<open>mem\<close> is the map in memory, \<open>disk\<close> the content of the file, \<open>save_fault\<close> the stage at which a
  save fails at present, if it does.\<close>

record downloadRecord =
  mem :: dlmap
  disk :: "bytes option"
  save_fault :: "write_stage option"

type_synonym dlcodec = "(dlmap \<Rightarrow> bytes option) \<times> (bytes \<Rightarrow> dlmap option)"

datatype save_error = MarshalFailed | SaveFailed write_stage

text \<open>Reading the file: absent, unreadable, or its content.\<close>

datatype disk_read = DiskAbsent | DiskUnreadable | DiskData bytes

definition openDownloadRecord :: "dlcodec \<Rightarrow> disk_read \<Rightarrow> downloadRecord option" where
  "openDownloadRecord cd d =
     (case d of
        DiskAbsent \<Rightarrow> Some \<lparr>mem = [], disk = None, save_fault = None\<rparr>
      | DiskUnreadable \<Rightarrow> None
      | DiskData b \<Rightarrow>
          Some \<lparr>mem = (case snd cd b of None \<Rightarrow> [] | Some m \<Rightarrow> m), disk = Some b, save_fault = None\<rparr>)"

definition Get :: "downloadRecord \<Rightarrow> string \<Rightarrow> downloadedFile option" where
  "Get r ih = map_of (mem r) ih"

definition All :: "downloadRecord \<Rightarrow> dlmap" where
  "All r = mem r"

definition saveLocked :: "dlcodec \<Rightarrow> downloadRecord \<Rightarrow> save_error option \<times> downloadRecord" where
  "saveLocked cd r =
     (case fst cd (mem r) of
        None \<Rightarrow> (Some MarshalFailed, r)
      | Some b \<Rightarrow>
          (case save_fault r of
             Some s \<Rightarrow> (Some (SaveFailed s), r)
           | None \<Rightarrow> (None, r\<lparr>disk := Some b\<rparr>)))"

definition Put :: "dlcodec \<Rightarrow> downloadRecord \<Rightarrow> string \<Rightarrow> downloadedFile \<Rightarrow> save_error option \<times> downloadRecord" where
  "Put cd r ih f = saveLocked cd (r\<lparr>mem := (ih, f) # filter (\<lambda>(k, _). k \<noteq> ih) (mem r)\<rparr>)"

definition Delete :: "dlcodec \<Rightarrow> downloadRecord \<Rightarrow> string \<Rightarrow> save_error option \<times> downloadRecord" where
  "Delete cd r ih =
     (if map_of (mem r) ih = None then (None, r)
      else saveLocked cd (r\<lparr>mem := filter (\<lambda>(k, _). k \<noteq> ih) (mem r)\<rparr>))"

section \<open>Checking a recorded file\<close>

text \<open>The callback of the walk, with \<open>seen\<close> and \<open>ok\<close>; the walk stops at the first mismatch.\<close>

fun check_walk :: "world \<Rightarrow> path \<Rightarrow> (string \<times> fileIdentity) list \<Rightarrow> walk_event list \<Rightarrow> nat \<Rightarrow> nat \<times> bool" where
  "check_walk w root fs [] seen = (seen, True)"
| "check_walk w root fs (WalkErr s e # evs) seen = (seen, False)"
| "check_walk w root fs (Visit s n # evs) seen =
     (if is_dir n then check_walk w root fs evs seen
      else case map_of fs (ToSlash s) of
        None \<Rightarrow> (seen, False)
      | Some fid \<Rightarrow>
          if fault w (SLstat (root @ s)) \<noteq> None \<or> \<not> is_reg n \<or> fi_size n \<noteq> idSize fid \<or> fi_mtime n \<noteq> idModTime fid
          then (seen, False)
          else check_walk w root fs evs (seen + 1))"

definition map_len :: "('k \<times> 'v) list \<Rightarrow> nat" where
  "map_len fs = length (remdups (map fst fs))"

definition statRecorded :: "world \<Rightarrow> downloadedFile \<Rightarrow> bool \<times> bool" where
  "statRecorded w f =
     (case Lstat w (Path f) of
        Inl _ \<Rightarrow> (True, False)
      | Inr fi \<Rightarrow>
          (case dFiles f of
             None \<Rightarrow> (False, is_reg fi \<and> fi_size fi = dSize f \<and> fi_mtime fi = ModTime f)
           | Some fs \<Rightarrow>
               if \<not> is_dir fi then (False, False)
               else case check_walk w (Path f) fs (WalkDir w (Path f)) 0 of
                 (seen, ok) \<Rightarrow> (False, ok \<and> seen = map_len fs)))"

section \<open>Recording and removing a directory\<close>

fun record_files :: "world \<Rightarrow> path \<Rightarrow> string list \<Rightarrow> downloadedFile \<Rightarrow> errno + downloadedFile" where
  "record_files w root [] rec = Inr rec"
| "record_files w root (rel # rels) rec =
     (case Lstat w (join_rel root rel) of
        Inl e \<Rightarrow> Inl e
      | Inr fi \<Rightarrow>
          record_files w root rels
            (rec\<lparr>dFiles := Some ((rel, \<lparr>idSize = fi_size fi, idModTime = fi_mtime fi\<rparr>)
                   # filter (\<lambda>(k, _). k \<noteq> rel) (case dFiles rec of Some fs \<Rightarrow> fs | None \<Rightarrow> [])),
                 dSize := i64 (dSize rec + fi_size fi)\<rparr>))"

definition recordDir :: "world \<Rightarrow> path \<Rightarrow> string list \<Rightarrow> errno + downloadedFile" where
  "recordDir w root fs = record_files w root fs \<lparr>Path = root, dSize = 0, ModTime = 0, dFiles = Some []\<rparr>"

definition path_strlen :: "path \<Rightarrow> nat" where
  "path_strlen p = sum_list (map (\<lambda>c. 1 + length c) p)"

fun remove_dirs :: "world \<Rightarrow> path list \<Rightarrow> errno option \<Rightarrow> errno option \<times> world" where
  "remove_dirs w [] firstErr = (firstErr, w)"
| "remove_dirs w (d # ds) firstErr =
     (case Remove w d of
        (None, w') \<Rightarrow> remove_dirs w' ds firstErr
      | (Some e, w') \<Rightarrow>
          remove_dirs w' ds
            (if \<not> is_not_exist e \<and> e \<noteq> ENOTEMPTY \<and> e \<noteq> EEXIST \<and> firstErr = None then Some e else firstErr))"

definition removeEmptyDirs :: "world \<Rightarrow> path list \<Rightarrow> errno option \<times> world" where
  "removeEmptyDirs w dirs = remove_dirs w (rev (sort_key path_strlen (remdups dirs))) None"

datatype remove_error = EscapesDir string | RemoveFailed errno

text \<open>The directories between a removed file and the recorded root, nearest first: the inner loop of
  \<open>removeRecorded\<close>. Its test \<open>HasPrefix(d, rec.Path)\<close> is on strings.\<close>

definition path_string :: "path \<Rightarrow> string" where
  "path_string p = (if p = [] then ''/'' else concat (map (\<lambda>c. CHR ''/'' # c) p))"

function parents_upto :: "path \<Rightarrow> path \<Rightarrow> path list" where
  "parents_upto root d =
     (if d = root \<or> \<not> HasPrefix (path_string d) (path_string root) \<or> d = [] then []
      else d # parents_upto root (butlast d))"
  by auto
termination by (relation "measure (\<lambda>(root, d). length d)") auto

declare parents_upto.simps [simp del]

fun remove_files :: "world \<Rightarrow> path \<Rightarrow> string list \<Rightarrow> path list \<Rightarrow> (remove_error + path list) \<times> world" where
  "remove_files w root [] dirs = (Inr dirs, w)"
| "remove_files w root (rel # rels) dirs =
     (let p = join_rel root rel
      in if \<not> pathInDir root p then (Inl (EscapesDir rel), w)
         else case Remove w p of
           (Some e, w') \<Rightarrow>
             if \<not> is_not_exist e then (Inl (RemoveFailed e), w')
             else remove_files w' root rels (dirs @ parents_upto root (butlast p))
         | (None, w') \<Rightarrow> remove_files w' root rels (dirs @ parents_upto root (butlast p)))"

definition removeRecorded :: "world \<Rightarrow> downloadedFile \<Rightarrow> remove_error option \<times> world" where
  "removeRecorded w rec =
     (case dFiles rec of
        None \<Rightarrow> (case Remove w (Path rec) of (e, w') \<Rightarrow> (map_option RemoveFailed e, w'))
      | Some fs \<Rightarrow>
          (case remove_files w (Path rec) (remdups (map fst fs)) [Path rec] of
             (Inl e, w') \<Rightarrow> (Some e, w')
           | (Inr dirs, w') \<Rightarrow> (case removeEmptyDirs w' dirs of (e, w'') \<Rightarrow> (map_option RemoveFailed e, w''))))"

section \<open>The store contract\<close>

text \<open>What the node relies on: what a lookup finds after a change, whether or not the save succeeded.\<close>

locale record_store =
  fixes lookup :: "'r \<Rightarrow> string \<Rightarrow> 'f option"
    and insert_rec :: "'r \<Rightarrow> string \<Rightarrow> 'f \<Rightarrow> 'e option \<times> 'r"
    and delete_rec :: "'r \<Rightarrow> string \<Rightarrow> 'e option \<times> 'r"
  assumes lookup_insert: "lookup (snd (insert_rec r ih f)) k = (if k = ih then Some f else lookup r k)"
    and lookup_delete: "lookup (snd (delete_rec r ih)) k = (if k = ih then None else lookup r k)"
begin

text \<open>Moving a record to another infohash, as \<open>claimRecord\<close> does.\<close>

lemma lookup_moved:
  assumes "lookup r old = Some f" "old \<noteq> new"
  shows "lookup (snd (delete_rec (snd (insert_rec r new f)) old)) k =
    (if k = new then Some f else if k = old then None else lookup r k)"
  using assms by (simp add: lookup_insert lookup_delete)

end

lemma map_of_filter_key: "map_of (filter (\<lambda>(k, _). k \<noteq> ih) xs) k = (if k = ih then None else map_of xs k)"
  by (induction xs) auto

lemma mem_saveLocked [simp]: "mem (snd (saveLocked cd r)) = mem r"
  by (auto simp: saveLocked_def split: option.splits)

lemma mem_Put: "mem (snd (Put cd r ih f)) = (ih, f) # filter (\<lambda>(k, _). k \<noteq> ih) (mem r)"
  by (simp add: Put_def)

lemma Get_Delete: "Get (snd (Delete cd r ih)) k = (if k = ih then None else Get r k)"
  by (auto simp: Get_def Delete_def map_of_filter_key)

interpretation dl_store: record_store Get "Put cd" "Delete cd" for cd :: dlcodec
  by unfold_locales (simp_all add: Get_Delete, simp add: Get_def mem_Put map_of_filter_key)

section \<open>Lemmas: the walk of a recorded directory\<close>

text \<open>What it means for a directory to hold exactly the recorded files, unchanged.\<close>

definition unchanged :: "fnode \<Rightarrow> fileIdentity \<Rightarrow> bool" where
  "unchanged n fid \<longleftrightarrow> is_reg n \<and> fi_size n = idSize fid \<and> fi_mtime n = idModTime fid"

definition dir_matches :: "world \<Rightarrow> path \<Rightarrow> (string \<times> fileIdentity) list \<Rightarrow> bool" where
  "dir_matches w root fs \<longleftrightarrow>
     (\<forall>s n. entry w (root @ s) = Some n \<and> \<not> is_dir n \<longrightarrow> (\<exists>fid. map_of fs (ToSlash s) = Some fid \<and> unchanged n fid))
   \<and> (\<forall>rel \<in> fst ` set fs. \<exists>s n. rel = ToSlash s \<and> entry w (root @ s) = Some n \<and> is_reg n)"

fun good_event :: "world \<Rightarrow> path \<Rightarrow> (string \<times> fileIdentity) list \<Rightarrow> walk_event \<Rightarrow> bool" where
  "good_event w root fs (WalkErr s e) = False"
| "good_event w root fs (Visit s n) =
     (is_dir n \<or> (\<exists>fid. map_of fs (ToSlash s) = Some fid \<and> unchanged n fid) \<and> fault w (SLstat (root @ s)) = None)"

fun file_visit :: "walk_event \<Rightarrow> path list" where
  "file_visit (Visit s n) = (if is_dir n then [] else [s])"
| "file_visit (WalkErr s e) = []"

lemma check_walk_ok:
  "check_walk w root fs evs seen = (seen', True) \<longleftrightarrow>
     (\<forall>e\<in>set evs. good_event w root fs e) \<and> seen' = seen + length (concat (map file_visit evs))"
proof (induction w root fs evs seen rule: check_walk.induct)
  case (3 w root fs s n evs seen)
  then show ?case by (cases "is_dir n"; cases "map_of fs (ToSlash s)") (auto simp: unchanged_def)
qed auto

lemma set_below: "set (below w q) = {s. q @ s \<in> fst ` set (files w)} \<union> (if q = [] then {[]} else {})"
proof -
  have "set (below w q) = drop (length q) ` {r \<in> fst ` set (files w). prefix q r} \<union> (if q = [] then {[]} else {})"
    unfolding below_def by (auto simp: image_iff split: prod.splits) force+
  also have "drop (length q) ` {r \<in> fst ` set (files w). prefix q r} = {s. q @ s \<in> fst ` set (files w)}"
  proof (intro set_eqI iffI)
    fix s assume "s \<in> {s. q @ s \<in> fst ` set (files w)}"
    then show "s \<in> drop (length q) ` {r \<in> fst ` set (files w). prefix q r}"
      by (intro image_eqI [of _ _ "q @ s"]) auto
  qed (force simp: prefix_def)
  finally show ?thesis .
qed

lemma visit_eq:
  "visit w root q s =
     (if entry w (q @ s) = None \<or> hidden_by_fault w root s then []
      else if is_dir (the (entry w (q @ s))) \<and> fault w (SReadDir (root @ s)) \<noteq> None
      then [Visit s (the (entry w (q @ s))), WalkErr s (the (fault w (SReadDir (root @ s))))]
      else [Visit s (the (entry w (q @ s)))])"
  by (cases "entry w (q @ s)"; cases "fault w (SReadDir (root @ s))") (simp_all add: visit_def)

lemma set_visit:
  "e \<in> set (visit w root q s) \<longleftrightarrow>
     (\<exists>n. entry w (q @ s) = Some n \<and> \<not> hidden_by_fault w root s
        \<and> (e = Visit s n \<or> is_dir n \<and> (\<exists>x. fault w (SReadDir (root @ s)) = Some x \<and> e = WalkErr s x)))"
  unfolding visit_eq by auto

lemma WalkDir_dir:
  "Lstat w root = Inr n \<Longrightarrow> is_dir n \<Longrightarrow> resolve w root False = Inr root \<Longrightarrow>
   WalkDir w root = concat (map (visit w root root) (below w root))"
  by (simp add: WalkDir_def)

lemma hidden_first:
  assumes "hidden_by_fault w root s"
  obtains k x where "k < length s" "fault w (SReadDir (root @ take k s)) = Some x" "\<not> hidden_by_fault w root (take k s)"
proof -
  let ?P = "\<lambda>k. k < length s \<and> fault w (SReadDir (root @ take k s)) \<noteq> None"
  have "\<exists>k. ?P k" using assms unfolding hidden_by_fault_def list_ex_iff by auto
  then have k: "?P (LEAST k. ?P k)" by (rule LeastI_ex)
  have "\<not> hidden_by_fault w root (take (LEAST k. ?P k) s)"
  proof
    assume "hidden_by_fault w root (take (LEAST k. ?P k) s)"
    then obtain j where j: "j < (LEAST k. ?P k)" "fault w (SReadDir (root @ take j (take (LEAST k. ?P k) s))) \<noteq> None"
      unfolding hidden_by_fault_def list_ex_iff by auto
    then have "?P j" using k by (simp add: min_def)
    with not_less_Least [OF j(1)] show False by blast
  qed
  with k that show ?thesis by blast
qed

lemma walk_complete:
  assumes wf: "wf_world w" and root: "root \<noteq> []" and l: "Lstat w root = Inr n0" "is_dir n0" "resolve w root False = Inr root"
    and quiet: "\<And>s e. WalkErr s e \<notin> set (WalkDir w root)"
    and e: "entry w (root @ s) = Some n"
  shows "Visit s n \<in> set (WalkDir w root)"
proof -
  have files: "root @ t \<in> fst ` set (files w) \<longleftrightarrow> entry w (root @ t) \<noteq> None" for t
    using files_entry [of "root @ t" w] root by simp
  have "\<not> hidden_by_fault w root s"
  proof
    assume "hidden_by_fault w root s"
    then obtain k x where k: "k < length s" "fault w (SReadDir (root @ take k s)) = Some x"
      "\<not> hidden_by_fault w root (take k s)" by (rule hidden_first)
    then have "strict_prefix (root @ take k s) (root @ s)" by (simp add: strict_prefix_def take_is_prefix)
    then obtain i where "entry w (root @ take k s) = Some (Dir i)"
      using wf_entry(1) [OF wf, of "root @ s"] e by (auto simp: real_path_def)
    with k files have "WalkErr (take k s) x \<in> set (WalkDir w root)"
      by (auto simp: WalkDir_dir [OF l] set_below set_visit intro!: bexI [of _ "take k s"])
    with quiet show False by blast
  qed
  with e files show ?thesis
    by (auto simp: WalkDir_dir [OF l] set_below set_visit intro!: bexI [of _ s])
qed

lemma concat_select:
  assumes "\<And>x. g x = [] \<or> g x = [x]"
  shows "set (concat (map g xs)) \<subseteq> set xs \<and> (distinct xs \<longrightarrow> distinct (concat (map g xs)))"
proof (induction xs)
  case Nil
  then show ?case by simp
next
  case (Cons a xs)
  with assms [of a] show ?case by auto
qed

lemma concat_map_concat: "concat (map f (concat (map h xs))) = concat (map (\<lambda>x. concat (map f (h x))) xs)"
  by (induction xs) auto

lemma set_file_visits: "set (concat (map file_visit evs)) = {s. \<exists>n. Visit s n \<in> set evs \<and> \<not> is_dir n}"
proof (induction evs)
  case Nil
  then show ?case by simp
next
  case (Cons e evs)
  then show ?case by (cases e) auto
qed

lemma distinct_file_visits:
  assumes "Lstat w root = Inr n0" "is_dir n0" "resolve w root False = Inr root"
  shows "distinct (concat (map file_visit (WalkDir w root)))"
proof -
  have "concat (map file_visit (visit w root root s)) = [] \<or> concat (map file_visit (visit w root root s)) = [s]" for s
    by (simp add: visit_eq)
  note concat_select [of "\<lambda>s. concat (map file_visit (visit w root root s))", OF this, of "below w root"]
  then show ?thesis by (simp add: WalkDir_dir [OF assms] concat_map_concat below_def)
qed

section \<open>Lemmas: when a recorded directory matches\<close>

lemma ToSlash_inj:
  assumes "\<forall>c\<in>set s. CHR ''/'' \<notin> set c" "\<forall>c\<in>set t. CHR ''/'' \<notin> set c" "s \<noteq> []" "t \<noteq> []" "ToSlash s = ToSlash t"
  shows "s = t"
proof -
  have "s = Split (CHR ''/'') (ToSlash s)" unfolding ToSlash_def by (rule Split_Join [OF assms(3,1), symmetric])
  also have "\<dots> = t" unfolding assms(5) unfolding ToSlash_def by (rule Split_Join [OF assms(4,2)])
  finally show ?thesis .
qed

lemma FromSlash_ToSlash: "s \<noteq> [] \<Longrightarrow> \<forall>c\<in>set s. CHR ''/'' \<notin> set c \<Longrightarrow> FromSlash (ToSlash s) = s"
  unfolding ToSlash_def FromSlash_def by (rule Split_Join)

lemma Lstat_real:
  "real_path w p \<Longrightarrow> Lstat w p = Inr n \<Longrightarrow> entry w p = Some n"
  by (auto simp: Lstat_def split: option.splits)

definition files_under :: "world \<Rightarrow> path \<Rightarrow> path set" where
  "files_under w root = {s. \<exists>n. entry w (root @ s) = Some n \<and> \<not> is_dir n}"

lemma files_under_inj:
  assumes "wf_world w" "entry w root = Some (Dir i)"
  shows "inj_on ToSlash (files_under w root)" "\<forall>s\<in>files_under w root. s \<noteq> [] \<and> (\<forall>c\<in>set s. CHR ''/'' \<notin> set c) \<and> clean_path s"
proof -
  show *: "\<forall>s\<in>files_under w root. s \<noteq> [] \<and> (\<forall>c\<in>set s. CHR ''/'' \<notin> set c) \<and> clean_path s"
  proof
    fix s assume "s \<in> files_under w root"
    then obtain n where n: "entry w (root @ s) = Some n" "\<not> is_dir n" by (auto simp: files_under_def)
    then have "s \<noteq> []" using assms(2) by (cases s) auto
    with n wf_entry [OF assms(1), of "root @ s"] show "s \<noteq> [] \<and> (\<forall>c\<in>set s. CHR ''/'' \<notin> set c) \<and> clean_path s"
      by (auto simp: real_path_def)
  qed
  show "inj_on ToSlash (files_under w root)"
    using * by (meson ToSlash_inj inj_onI)
qed

lemma statRecorded_dir_sound:
  assumes wf: "wf_world w" and real: "real_path w (Path rec)" and root: "Path rec \<noteq> []"
    and fs: "dFiles rec = Some fs" and m: "snd (statRecorded w rec)"
  shows "dir_matches w (Path rec) fs \<and> (\<exists>i. entry w (Path rec) = Some (Dir i))"
proof -
  let ?p = "Path rec" let ?evs = "WalkDir w (Path rec)"
  from m fs obtain n0 where l: "Lstat w ?p = Inr n0" "is_dir n0"
    and c: "check_walk w ?p fs ?evs 0 = (map_len fs, True)"
    by (auto simp: statRecorded_def split: sum.splits if_splits prod.splits)
  note r = resolve_real [OF real]
  have e0: "\<exists>i. entry w ?p = Some (Dir i)" using Lstat_real [OF real l(1)] l(2) by (cases n0) auto
  then obtain i where i: "entry w ?p = Some (Dir i)" ..
  from c have good: "\<forall>e\<in>set ?evs. good_event w ?p fs e" and len: "map_len fs = length (concat (map file_visit ?evs))"
    by (auto simp: check_walk_ok)
  then have quiet: "WalkErr s e \<notin> set ?evs" for s e by force
  have visit: "entry w (?p @ s) = Some n \<longleftrightarrow> Visit s n \<in> set ?evs" for s n
    using walk_complete [OF wf root l r quiet] by (auto simp: WalkDir_dir [OF l r] set_visit)
  have under: "set (concat (map file_visit ?evs)) = files_under w ?p"
    unfolding set_file_visits files_under_def by (auto simp: visit)
  have known: "\<exists>fid. map_of fs (ToSlash s) = Some fid \<and> unchanged n fid"
    if "entry w (?p @ s) = Some n" "\<not> is_dir n" for s n
    using good that visit by force
  have "card (files_under w ?p) = map_len fs"
    using under distinct_card [OF distinct_file_visits [OF l r]] len by simp
  then have "card (ToSlash ` files_under w ?p) = card (fst ` set fs)"
    using card_image [OF files_under_inj(1) [OF wf i]] by (simp add: map_len_def card_set [symmetric] del: card_set)
  moreover have "ToSlash ` files_under w ?p \<subseteq> fst ` set fs"
    using known by (force simp: files_under_def dest: map_of_SomeD)
  ultimately have "ToSlash ` files_under w ?p = fst ` set fs" by (simp add: card_subset_eq)
  then have "\<forall>rel \<in> fst ` set fs. \<exists>s n. rel = ToSlash s \<and> entry w (?p @ s) = Some n \<and> is_reg n"
    using known unfolding files_under_def unchanged_def by (smt (verit) imageE mem_Collect_eq)
  with known e0 show ?thesis unfolding dir_matches_def by blast
qed

lemma statRecorded_dir_complete:
  assumes wf: "wf_world w" and real: "real_path w (Path rec)" and root: "Path rec \<noteq> []"
    and fs: "dFiles rec = Some fs" and quiet: "\<forall>c. fault w c = None"
    and m: "dir_matches w (Path rec) fs" and i: "entry w (Path rec) = Some (Dir i)"
  shows "snd (statRecorded w rec)"
proof -
  let ?p = "Path rec" let ?evs = "WalkDir w (Path rec)"
  have l: "Lstat w ?p = Inr (Dir i)" "is_dir (Dir i)" using quiet real i by (simp_all add: Lstat_def)
  note r = resolve_real [OF real]
  have ne: "WalkErr s e \<notin> set ?evs" for s e using quiet by (auto simp: WalkDir_dir [OF l r] set_visit)
  have visit: "entry w (?p @ s) = Some n \<longleftrightarrow> Visit s n \<in> set ?evs" for s n
    using walk_complete [OF wf root l r ne] by (auto simp: WalkDir_dir [OF l r] set_visit)
  have under: "set (concat (map file_visit ?evs)) = files_under w ?p"
    unfolding set_file_visits files_under_def by (auto simp: visit)
  have good: "\<forall>e\<in>set ?evs. good_event w ?p fs e"
  proof
    fix e assume e: "e \<in> set ?evs"
    then obtain s n where "e = Visit s n" using ne by (metis walk_event.exhaust)
    with e m quiet visit [of s n] show "good_event w ?p fs e" by (auto simp: dir_matches_def)
  qed
  have "fst ` set fs = ToSlash ` files_under w ?p"
  proof (intro subset_antisym subsetI)
    fix rel assume "rel \<in> fst ` set fs"
    then obtain s n where "rel = ToSlash s" "entry w (?p @ s) = Some n" "is_reg n"
      using m unfolding dir_matches_def by blast
    then show "rel \<in> ToSlash ` files_under w ?p" by (cases n) (auto simp: files_under_def)
  next
    fix rel assume "rel \<in> ToSlash ` files_under w ?p"
    then obtain s n where "rel = ToSlash s" "entry w (?p @ s) = Some n" "\<not> is_dir n" by (auto simp: files_under_def)
    with m obtain fid where "map_of fs rel = Some fid" unfolding dir_matches_def by blast
    from map_of_SomeD [OF this] show "rel \<in> fst ` set fs" by force
  qed
  then have "map_len fs = card (files_under w ?p)"
    using card_image [OF files_under_inj(1) [OF wf i]] by (simp add: map_len_def card_set [symmetric] del: card_set)
  also have "\<dots> = length (concat (map file_visit ?evs))"
    using under distinct_card [OF distinct_file_visits [OF l r]] by simp
  finally have "check_walk w ?p fs ?evs 0 = (map_len fs, True)" using good by (simp add: check_walk_ok)
  with l fs show ?thesis by (simp add: statRecorded_def)
qed

section \<open>Lemmas: removal\<close>

lemma plain_prefix: "plain_path w p \<Longrightarrow> prefix q p \<Longrightarrow> plain_path w q"
  unfolding plain_path_def by (metis clean_path_append prefixE prefix_order.less_le_trans)

lemma parents_upto_between:
  "prefix root d \<Longrightarrow> x \<in> set (parents_upto root d) \<Longrightarrow> prefix root x \<and> prefix x d"
proof (induction root d rule: parents_upto.induct)
  case (1 root d)
  show ?case
  proof (cases "d = root \<or> \<not> HasPrefix (path_string d) (path_string root) \<or> d = []")
    case True
    with 1(3) show ?thesis by (subst (asm) parents_upto.simps) (simp only: if_True list.set empty_iff)
  next
    case False
    with 1(2) have "prefix root (butlast d)"
      by (metis append_butlast_last_id prefix_order.le_imp_less_or_eq prefix_snoc)
    with False 1 show ?thesis
      by (subst (asm) parents_upto.simps) (auto intro: prefix_order.trans prefixeq_butlast)
  qed
qed

lemma remove_files_shrinks:
  assumes "remove_files w root rels dirs = (r, w')"
    and "\<And>rel. rel \<in> set rels \<Longrightarrow> plain_path w (join_rel root rel) \<and> P (join_rel root rel)"
  shows "shrinks P w w'"
  using assms
proof (induction rels arbitrary: w dirs)
  case Nil
  then show ?case by simp
next
  case (Cons rel rels)
  obtain r1 w1 where rm: "Remove w (join_rel root rel) = (r1, w1)" by force
  have s1: "shrinks P w w1" using Remove_shrinks [OF rm] Cons.prems(2) by simp
  have "plain_path w1 (join_rel root x) \<and> P (join_rel root x)" if "x \<in> set rels" for x
    using Cons.prems(2) [of x] that plain_shrinks [OF _ s1] by simp
  note IH = Cons.IH [OF _ this]
  show ?case
    using Cons.prems(1) rm s1 IH shrinks_trans [OF s1] by (auto simp: Let_def split: if_splits option.splits)
qed

lemma wf_remove_files: "wf_world w \<Longrightarrow> remove_files w root rels dirs = (r, w') \<Longrightarrow> wf_world w'"
proof (induction rels arbitrary: w dirs)
  case (Cons rel rels)
  obtain r1 w1 where rm: "Remove w (join_rel root rel) = (r1, w1)" by force
  with Cons wf_Remove [OF Cons.prems(1) rm] show ?case by (auto simp: Let_def split: if_splits option.splits)
qed simp

lemma remove_files_dirs:
  assumes "remove_files w root rels dirs = (Inr ds, w')" "d \<in> set ds"
    "\<And>rel. rel \<in> set rels \<Longrightarrow> \<exists>s. s \<noteq> [] \<and> join_rel root rel = root @ s"
  shows "d \<in> set dirs \<or> (\<exists>rel\<in>set rels. prefix root d \<and> strict_prefix d (join_rel root rel))"
  using assms
proof (induction rels arbitrary: w dirs)
  case Nil
  then show ?case by simp
next
  case (Cons rel rels)
  obtain s where s: "s \<noteq> []" "join_rel root rel = root @ s" using Cons.prems(3) by force
  have between: "prefix root x \<and> strict_prefix x (join_rel root rel)"
    if "x \<in> set (parents_upto root (butlast (join_rel root rel)))" for x
  proof -
    have "strict_prefix (root @ butlast s) (root @ s)" using s(1) by (cases s rule: rev_cases) (auto simp: strict_prefix_def)
    then show ?thesis using that parents_upto_between [of root "butlast (root @ s)" x] s
      by (auto simp: butlast_append intro: prefix_order.le_less_trans)
  qed
  have step: ?case if "remove_files w1 root rels (dirs @ parents_upto root (butlast (join_rel root rel))) = (Inr ds, w')" for w1
    using Cons.IH [OF that Cons.prems(2)] Cons.prems(3) between by auto
  show ?case
    using Cons.prems(1) step by (auto simp: Let_def split: if_splits option.splits prod.splits)
qed

lemma remove_dirs_shrinks:
  assumes "remove_dirs w ds fe = (r, w')" "\<And>d. d \<in> set ds \<Longrightarrow> plain_path w d \<and> P d"
  shows "shrinks P w w'"
  using assms
proof (induction ds arbitrary: w fe)
  case Nil
  then show ?case by simp
next
  case (Cons d ds)
  obtain r1 w1 where rm: "Remove w d = (r1, w1)" by force
  have s1: "shrinks P w w1" using Remove_shrinks [OF rm] Cons.prems(2) by simp
  have "plain_path w1 x \<and> P x" if "x \<in> set ds" for x
    using Cons.prems(2) [of x] that plain_shrinks [OF _ s1] by simp
  note IH = Cons.IH [OF _ this]
  show ?case
    using Cons.prems(1) rm IH shrinks_trans [OF s1] by (auto split: option.splits)
qed

lemma wf_remove_dirs: "wf_world w \<Longrightarrow> remove_dirs w ds fe = (r, w') \<Longrightarrow> wf_world w'"
proof (induction ds arbitrary: w fe)
  case (Cons d ds)
  obtain r1 w1 where rm: "Remove w d = (r1, w1)" by force
  with Cons wf_Remove [OF Cons.prems(1) rm] show ?case by (auto split: option.splits)
qed simp

text \<open>An entry that the node downloaded and that is unchanged: the recorded file itself, or in a
  recorded directory a directory or a recorded file.\<close>

definition ours :: "world \<Rightarrow> downloadedFile \<Rightarrow> path \<Rightarrow> bool" where
  "ours w rec s \<longleftrightarrow>
     (case dFiles rec of
        None \<Rightarrow> s = Path rec \<and> (\<exists>n. entry w s = Some n \<and> is_reg n \<and> fi_size n = dSize rec \<and> fi_mtime n = ModTime rec)
      | Some fs \<Rightarrow> prefix (Path rec) s \<and>
          (\<exists>n. entry w s = Some n \<and> (is_dir n \<or>
             (\<exists>fid. map_of fs (ToSlash (drop (length (Path rec)) s)) = Some fid \<and> unchanged n fid))))"

lemma ours_under: "ours w rec s \<Longrightarrow> prefix (Path rec) s"
  by (auto simp: ours_def split: option.splits)

text \<open>In a matching directory every recorded name is the relative path of an entry.\<close>

lemma matched_rel:
  assumes wf: "wf_world w" and real: "real_path w root" and m: "dir_matches w root fs"
    and i: "entry w root = Some (Dir i)" and rel: "rel \<in> fst ` set fs"
  obtains s n where "s \<noteq> []" "rel = ToSlash s" "join_rel root rel = root @ s" "entry w (root @ s) = Some n" "is_reg n"
proof -
  obtain s n where s: "rel = ToSlash s" "entry w (root @ s) = Some n" "is_reg n"
    using m rel unfolding dir_matches_def by blast
  then have "s \<in> files_under w root" by (cases n) (auto simp: files_under_def)
  then have "s \<noteq> []" "\<forall>c\<in>set s. CHR ''/'' \<notin> set c" "clean_path s" using files_under_inj(2) [OF wf i] by auto
  moreover from this have "join_rel root rel = root @ s"
    using real by (simp add: join_rel_def s(1) FromSlash_ToSlash Clean_append real_path_def)
  ultimately show ?thesis using s that by blast
qed

lemma recorded_file_ours:
  assumes wf: "wf_world w" and real: "real_path w (Path rec)" and fs: "dFiles rec = Some fs"
    and dm: "dir_matches w (Path rec) fs" and i: "entry w (Path rec) = Some (Dir i)" and rel: "rel \<in> fst ` set fs"
  shows "plain_path w (join_rel (Path rec) rel) \<and> ours w rec (join_rel (Path rec) rel)"
proof -
  obtain s n where s: "s \<noteq> []" "rel = ToSlash s" "join_rel (Path rec) rel = Path rec @ s"
      "entry w (Path rec @ s) = Some n" "is_reg n"
    using matched_rel [OF wf real dm i rel] by blast
  moreover from this have "\<not> is_dir n" by (cases n) auto
  ultimately have "ours w rec (Path rec @ s)" using fs dm unfolding dir_matches_def ours_def by auto
  with s wf_entry(1) [OF wf, of "Path rec @ s"] show ?thesis by (simp add: real_plain)
qed

lemma recorded_rels:
  assumes "wf_world w" "real_path w (Path rec)" "dir_matches w (Path rec) fs" "entry w (Path rec) = Some (Dir i)"
    and "rel \<in> set (remdups (map fst fs))"
  shows "\<exists>s. s \<noteq> [] \<and> join_rel (Path rec) rel = Path rec @ s \<and> plain_path w (Path rec @ s)
           \<and> (\<forall>n. entry w (Path rec @ s) = Some n \<longrightarrow> \<not> is_dir n)"
proof -
  obtain s n where s: "s \<noteq> []" "join_rel (Path rec) rel = Path rec @ s" "entry w (Path rec @ s) = Some n" "is_reg n"
    using matched_rel [OF assms(1-4), of rel] assms(5) by (metis list.set_map set_remdups)
  with wf_entry(1) [OF assms(1), of "Path rec @ s"] have "plain_path w (Path rec @ s)" by (simp add: real_plain)
  with s show ?thesis by (cases n) auto
qed

lemma recorded_dir_ours:
  assumes wf: "wf_world w" and real: "real_path w (Path rec)" and fs: "dFiles rec = Some fs"
    and dm: "dir_matches w (Path rec) fs" and i: "entry w (Path rec) = Some (Dir i)"
    and f: "remove_files w (Path rec) (remdups (map fst fs)) [Path rec] = (Inr dirs, w1)" and d: "d \<in> set dirs"
  shows "plain_path w d \<and> ours w rec d"
proof -
  have "\<And>rel. rel \<in> set (remdups (map fst fs)) \<Longrightarrow> \<exists>s. s \<noteq> [] \<and> join_rel (Path rec) rel = Path rec @ s"
    using recorded_rels [OF wf real dm i] by blast
  from remove_files_dirs [OF f d this]
  consider "d = Path rec"
    | rel where "rel \<in> fst ` set fs" "prefix (Path rec) d" "strict_prefix d (join_rel (Path rec) rel)" by auto
  then show ?thesis
  proof cases
    case 1
    with i fs real show ?thesis by (simp add: ours_def real_plain)
  next
    case 2
    obtain s n where "join_rel (Path rec) rel = Path rec @ s" "entry w (Path rec @ s) = Some n"
      using matched_rel [OF wf real dm i 2(1)] by blast
    with 2 wf_entry(1) [OF wf, of "Path rec @ s"] have "\<exists>j. entry w d = Some (Dir j)" by (auto simp: real_path_def)
    with 2 fs recorded_file_ours [OF wf real fs dm i 2(1)] show ?thesis
      by (auto simp: ours_def dest: plain_prefix [OF _ prefix_order.less_imp_le])
  qed
qed

lemma removeRecorded_ours:
  assumes wf: "wf_world w" and real: "real_path w (Path rec)" and root: "Path rec \<noteq> []"
    and m: "snd (statRecorded w rec)" and rm: "removeRecorded w rec = (r, w')"
  shows "shrinks (ours w rec) w w' \<and> wf_world w'"
proof (cases "dFiles rec")
  case None
  obtain n where l: "Lstat w (Path rec) = Inr n" and n: "is_reg n" "fi_size n = dSize rec" "fi_mtime n = ModTime rec"
    using m None by (auto simp: statRecorded_def split: sum.splits)
  have "ours w rec (Path rec)" using None Lstat_real [OF real l] n by (simp add: ours_def)
  moreover obtain e where "Remove w (Path rec) = (e, w')"
    using rm None by (auto simp: removeRecorded_def split: prod.splits)
  ultimately show ?thesis using Remove_shrinks real_plain [OF real] wf_Remove [OF wf] by blast
next
  case (Some fs)
  obtain i where dm: "dir_matches w (Path rec) fs" and i: "entry w (Path rec) = Some (Dir i)"
    using statRecorded_dir_sound [OF wf real root Some m] by blast
  obtain r1 w1 where f: "remove_files w (Path rec) (remdups (map fst fs)) [Path rec] = (r1, w1)" by force
  have s1: "shrinks (ours w rec) w w1"
    using remove_files_shrinks [OF f] recorded_file_ours [OF wf real Some dm i] by simp
  have wf1: "wf_world w1" using wf_remove_files [OF wf f] .
  show ?thesis
  proof (cases r1)
    case (Inl e)
    with rm Some f s1 wf1 show ?thesis by (simp add: removeRecorded_def)
  next
    case (Inr dirs)
    obtain e where e: "removeEmptyDirs w1 dirs = (e, w')"
      using rm Some f Inr by (auto simp: removeRecorded_def split: prod.splits)
    have "plain_path w1 d \<and> ours w rec d" if "d \<in> set (rev (sort_key path_strlen (remdups dirs)))" for d
      using recorded_dir_ours [OF wf real Some dm i f [unfolded Inr], of d] that plain_shrinks [OF _ s1] by simp
    from remove_dirs_shrinks [OF e [unfolded removeEmptyDirs_def] this]
    have "shrinks (ours w rec) w1 w'" .
    moreover have "wf_world w'" using wf_remove_dirs [OF wf1] e by (simp add: removeEmptyDirs_def)
    ultimately show ?thesis using shrinks_trans [OF s1] by blast
  qed
qed

section \<open>Lemmas: removal succeeds when no call fails\<close>

lemma shrinksD: "shrinks P w w' \<Longrightarrow> entry w' s = entry w s \<or> entry w' s = None"
  by (simp add: shrinks_def) metis

lemma fault_shrinks: "shrinks P w w' \<Longrightarrow> fault w' c = fault w c"
  by (simp add: shrinks_def fault_def)

lemma Remove_quiet:
  assumes "wf_world w" "plain_path w p" "fault w (SRemove p) = None"
  shows "fst (Remove w p) \<in> {None, Some ENOENT, Some ENOTEMPTY}"
    and "(\<And>n. entry w p = Some n \<Longrightarrow> \<not> is_dir n) \<Longrightarrow>
      entry (snd (Remove w p)) p = None \<and> fst (Remove w p) \<in> {None, Some ENOENT}"
proof -
  show "fst (Remove w p) \<in> {None, Some ENOENT, Some ENOTEMPTY}"
    using resolve_plain [OF assms(2)] assms(3) by (auto simp: Remove_def split: option.splits fnode.splits if_splits)
  assume leaf: "\<And>n. entry w p = Some n \<Longrightarrow> \<not> is_dir n"
  then have "p \<noteq> []" by force
  show "entry (snd (Remove w p)) p = None \<and> fst (Remove w p) \<in> {None, Some ENOENT}"
  proof (cases "entry w p")
    case None
    with resolve_plain [OF assms(2)] assms(3) show ?thesis by (auto simp: Remove_def)
  next
    case (Some n)
    with wf_entry(1) [OF assms(1)] have "resolve w p False = Inr p" by simp
    with Some leaf [OF Some] assms(3) \<open>p \<noteq> []\<close> show ?thesis by (cases n) (auto simp: Remove_def)
  qed
qed

lemma remove_files_quiet:
  assumes "wf_world w" "clean_path root" "\<forall>c. fault w c = None"
    and "\<And>rel. rel \<in> set rels \<Longrightarrow> \<exists>s. s \<noteq> [] \<and> join_rel root rel = root @ s \<and> plain_path w (root @ s)
           \<and> (\<forall>n. entry w (root @ s) = Some n \<longrightarrow> \<not> is_dir n)"
  shows "\<exists>ds w'. remove_files w root rels dirs = (Inr ds, w') \<and> (\<forall>rel\<in>set rels. entry w' (join_rel root rel) = None)"
  using assms(1,3,4)
proof (induction rels arbitrary: w dirs)
  case Nil
  then show ?case by simp
next
  case (Cons rel rels)
  obtain s where s: "s \<noteq> []" "join_rel root rel = root @ s" "plain_path w (root @ s)"
    "\<And>n. entry w (root @ s) = Some n \<Longrightarrow> \<not> is_dir n" using Cons.prems(3) [of rel] by auto
  have inside: "pathInDir root (root @ s)"
    using s(1,3) assms(2) by (simp add: pathInDir_iff plain_path_def strict_prefix_def)
  obtain r1 w1 where rm: "Remove w (root @ s) = (r1, w1)" by force
  have gone: "entry w1 (root @ s) = None" "r1 = None \<or> r1 = Some ENOENT"
    using Remove_quiet(2) [OF Cons.prems(1) s(3) _ s(4)] Cons.prems(2) rm by auto
  have s1: "shrinks (\<lambda>q. q = root @ s) w w1" using Remove_shrinks [OF rm s(3)] by simp
  have "\<exists>t. t \<noteq> [] \<and> join_rel root x = root @ t \<and> plain_path w1 (root @ t)
           \<and> (\<forall>n. entry w1 (root @ t) = Some n \<longrightarrow> \<not> is_dir n)" if x: "x \<in> set rels" for x
  proof -
    obtain t where t: "t \<noteq> []" "join_rel root x = root @ t" "plain_path w (root @ t)"
      "\<forall>n. entry w (root @ t) = Some n \<longrightarrow> \<not> is_dir n" using Cons.prems(3) [of x] x by auto
    moreover have "entry w1 (root @ t) = entry w (root @ t) \<or> entry w1 (root @ t) = None"
      by (rule shrinksD [OF s1])
    ultimately show ?thesis using plain_shrinks [OF _ s1] by (intro exI [of _ t]) auto
  qed
  then obtain ds w' where ih: "remove_files w1 root rels (dirs @ parents_upto root (butlast (root @ s))) = (Inr ds, w')"
    "\<forall>x\<in>set rels. entry w' (join_rel root x) = None"
    using Cons.IH [OF wf_Remove [OF Cons.prems(1) rm], of "dirs @ parents_upto root (butlast (root @ s))"]
      Cons.prems(2) fault_shrinks [OF s1] by metis
  have "shrinks (\<lambda>_. True) w1 w'"
    by (rule remove_files_shrinks [OF ih(1)]) (use Cons.prems(3) plain_shrinks [OF _ s1] in force)
  from shrinksD [OF this, of "root @ s"] gone(1) have "entry w' (root @ s) = None" by auto
  with ih gone(2) inside rm s(2) show ?case
    by (auto simp: Let_def is_not_exist_def)
qed

lemma remove_dirs_quiet:
  assumes "wf_world w" "\<forall>c. fault w c = None" "\<And>d. d \<in> set ds \<Longrightarrow> plain_path w d"
  shows "fst (remove_dirs w ds fe) = fe"
  using assms
proof (induction ds arbitrary: w)
  case (Cons d ds)
  obtain r1 w1 where rm: "Remove w d = (r1, w1)" by force
  have d: "plain_path w d" using Cons.prems(3) by simp
  have s1: "shrinks (\<lambda>_. True) w w1" using Remove_shrinks [OF rm d] by simp
  have "fst (remove_dirs w1 ds fe) = fe"
    by (rule Cons.IH) (use wf_Remove [OF Cons.prems(1) rm] Cons.prems plain_shrinks [OF _ s1] fault_shrinks [OF s1] in auto)
  moreover have "r1 \<in> {None, Some ENOENT, Some ENOTEMPTY}"
    using Remove_quiet(1) [OF Cons.prems(1) d] Cons.prems(2) rm by simp
  ultimately show ?case using rm by (auto simp: is_not_exist_def)
qed simp

text \<open>Once every recorded file is gone, nothing but directories is left of a matching directory.\<close>

lemma recorded_files_gone:
  assumes wf: "wf_world w" and real: "real_path w (Path rec)" and dm: "dir_matches w (Path rec) fs"
    and i: "entry w (Path rec) = Some (Dir i)" and s1: "shrinks P w w1" and s2: "shrinks Q w1 w'"
    and gone: "\<forall>rel\<in>fst ` set fs. entry w1 (join_rel (Path rec) rel) = None"
  shows "files_under w' (Path rec) = {}"
proof (rule ccontr)
  let ?p = "Path rec"
  assume "files_under w' ?p \<noteq> {}"
  then obtain s n where s: "entry w' (?p @ s) = Some n" "\<not> is_dir n" by (auto simp: files_under_def)
  then have e: "entry w1 (?p @ s) = Some n" "entry w (?p @ s) = Some n"
    using shrinksD [OF s1, of "?p @ s"] shrinksD [OF s2, of "?p @ s"] by auto
  with s dm obtain fid where "map_of fs (ToSlash s) = Some fid" unfolding dir_matches_def by blast
  then have "ToSlash s \<in> fst ` set fs" by (force dest: map_of_SomeD)
  moreover have "s \<in> files_under w ?p" using e s by (auto simp: files_under_def)
  then have "join_rel ?p (ToSlash s) = ?p @ s"
    using files_under_inj(2) [OF wf i] real by (simp add: join_rel_def FromSlash_ToSlash Clean_append real_path_def)
  ultimately show False using gone e(1) by fastforce
qed

lemma removeRecorded_quiet_file:
  assumes wf: "wf_world w" and real: "real_path w (Path rec)" and root: "Path rec \<noteq> []" and None: "dFiles rec = None"
    and quiet: "\<forall>c. fault w c = None" and m: "snd (statRecorded w rec)" and rm: "removeRecorded w rec = (r, w')"
  shows "r = None \<and> files_under w' (Path rec) = {}"
proof -
  obtain n where l: "Lstat w (Path rec) = Inr n" and n: "is_reg n"
    using m None by (auto simp: statRecorded_def split: sum.splits)
  have e: "entry w (Path rec) = Some n" using Lstat_real [OF real l] .
  have "Remove w (Path rec) = (None, del w (Path rec))"
    using real e n root quiet by (cases n) (auto simp: Remove_def)
  then have r: "r = None" "w' = del w (Path rec)" using rm None by (auto simp: removeRecorded_def)
  moreover have "\<not> has_children w (Path rec)" using wf_leaf [OF wf e] n by (cases n) auto
  then have "entry w (Path rec @ s) = None" if "s \<noteq> []" for s
    using that unfolding has_children_iff by (metis prefixI prefix_order.le_less self_append_conv)
  ultimately show ?thesis using root by (auto simp: files_under_def split: if_splits)
qed

lemma removeRecorded_quiet:
  assumes wf: "wf_world w" and real: "real_path w (Path rec)" and root: "Path rec \<noteq> []"
    and quiet: "\<forall>c. fault w c = None" and m: "snd (statRecorded w rec)" and rm: "removeRecorded w rec = (r, w')"
  shows "r = None \<and> files_under w' (Path rec) = {}"
proof (cases "dFiles rec")
  case None
  then show ?thesis using removeRecorded_quiet_file [OF wf real root _ quiet m rm] by blast
next
  case (Some fs)
  let ?p = "Path rec" let ?rels = "remdups (map fst fs)"
  obtain i where dm: "dir_matches w ?p fs" and i: "entry w ?p = Some (Dir i)"
    using statRecorded_dir_sound [OF wf real root Some m] by blast
  note rels = recorded_rels [OF wf real dm i]
  have "clean_path ?p" using real by (simp add: real_path_def)
  from remove_files_quiet [OF wf this quiet rels, of ?rels "[?p]"] obtain ds w1
    where f: "remove_files w ?p ?rels [?p] = (Inr ds, w1)"
      and gone: "\<forall>rel\<in>set ?rels. entry w1 (join_rel ?p rel) = None" by blast
  have s1: "shrinks (\<lambda>_. True) w w1" using remove_files_shrinks [OF f] rels by fastforce
  have ds: "plain_path w1 d" if "d \<in> set ds" for d
    using recorded_dir_ours [OF wf real Some dm i f that] plain_shrinks [OF _ s1] by blast
  obtain e where e: "removeEmptyDirs w1 ds = (e, w')" and r: "r = map_option RemoveFailed e"
    using rm Some f by (auto simp: removeRecorded_def split: prod.splits)
  have "wf_world w1" "\<forall>c. fault w1 c = None" using wf_remove_files [OF wf f] quiet fault_shrinks [OF s1] by auto
  then have "e = None" using e remove_dirs_quiet [of w1 "rev (sort_key path_strlen (remdups ds))" None] ds
    by (simp add: removeEmptyDirs_def)
  moreover have "shrinks (\<lambda>_. True) w1 w'"
    by (rule remove_dirs_shrinks [OF e [unfolded removeEmptyDirs_def]]) (simp add: ds)
  then have "files_under w' ?p = {}" using recorded_files_gone [OF wf real dm i s1] gone by simp
  ultimately show ?thesis using r by simp
qed

section \<open>Properties\<close>

text \<open>A sample world: \<open>/d\<close> with the downloaded folder \<open>m\<close> and someone else's file \<open>u\<close>.\<close>

definition demo_world :: world where
  "demo_world = \<lparr>files = [([''d''], Dir 1), ([''d'', ''m''], Dir 2), ([''d'', ''m'', ''w''], Reg 3 ''abc'' 7),
     ([''d'', ''u''], Reg 4 ''x'' 9)], faults = (\<lambda>_. None), next_ino = 5, clock = 10\<rparr>"

definition demo_rec :: downloadedFile where
  "demo_rec = \<lparr>Path = [''d'', ''m''], dSize = 3, ModTime = 0, dFiles = Some [(''w'', \<lparr>idSize = 3, idModTime = 7\<rparr>)]\<rparr>"

lemma demo_quiet: "\<forall>c. fault demo_world c = None"
  by (simp add: demo_world_def fault_def)

lemma demo_entry:
  "entry demo_world p = (if p = [] then Some (Dir 0) else if p = [''d''] then Some (Dir 1)
     else if p = [''d'', ''m''] then Some (Dir 2) else if p = [''d'', ''m'', ''w''] then Some (Reg 3 ''abc'' 7)
     else if p = [''d'', ''u''] then Some (Reg 4 ''x'' 9) else None)"
  by (simp add: entry_def demo_world_def)

lemma demo_wf_world: "wf_world demo_world"
  unfolding demo_world_def by code_simp

lemma demo_real: "real_path demo_world [''d'', ''m'']"
  using wf_entry(1) [OF demo_wf_world, of "[''d'', ''m'']"] by (simp add: demo_entry)

lemma demo_under:
  "entry demo_world ([''d'', ''m''] @ s) =
     (if s = [] then Some (Dir 2) else if s = [''w''] then Some (Reg 3 ''abc'' 7) else None)"
  by (simp add: demo_entry)

lemma demo_dir_matches: "dir_matches demo_world [''d'', ''m''] [(''w'', \<lparr>idSize = 3, idModTime = 7\<rparr>)]"
proof -
  have w: "ToSlash [''w''] = ''w''" by (simp add: ToSlash_def)
  then have "\<exists>s n. ''w'' = ToSlash s \<and> entry demo_world ([''d'', ''m''] @ s) = Some n \<and> is_reg n"
    by (intro exI [of _ "[''w'']"] exI [of _ "Reg 3 ''abc'' 7"]) (simp add: demo_under del: append.simps)
  moreover have "\<exists>fid. map_of [(''w'', \<lparr>idSize = 3, idModTime = 7\<rparr>)] (ToSlash s) = Some fid \<and> unchanged n fid"
    if "entry demo_world ([''d'', ''m''] @ s) = Some n" "\<not> is_dir n" for s n
    using that w by (auto simp: demo_under unchanged_def simp del: append.simps split: if_splits)
  ultimately show ?thesis unfolding dir_matches_def by simp
qed

lemma demo_stat: "snd (statRecorded demo_world demo_rec)"
  using statRecorded_dir_complete [OF demo_wf_world, of demo_rec] demo_real demo_quiet demo_dir_matches
  by (simp add: demo_rec_def demo_entry)

text \<open>A recorded folder counts as unchanged exactly when it is a directory that holds the recorded
  files, each with its size and modification time, and nothing else but directories.\<close>

theorem stat_recorded_exact:
  assumes "wf_world w" "real_path w (Path rec)" "Path rec \<noteq> []" "\<forall>c. fault w c = None" "dFiles rec = Some fs"
  shows "snd (statRecorded w rec) \<longleftrightarrow> (\<exists>i. entry w (Path rec) = Some (Dir i)) \<and> dir_matches w (Path rec) fs"
  using statRecorded_dir_sound [OF assms(1-3,5)] statRecorded_dir_complete [OF assms(1-3,5,4)] by blast

theorem stat_recorded_exact_witness:
  "snd (statRecorded demo_world demo_rec) \<longleftrightarrow> (\<exists>i. entry demo_world [''d'', ''m''] = Some (Dir i))
     \<and> dir_matches demo_world [''d'', ''m''] [(''w'', \<lparr>idSize = 3, idModTime = 7\<rparr>)]"
  using stat_recorded_exact [OF demo_wf_world, of demo_rec] demo_real demo_quiet by (simp add: demo_rec_def)

text \<open>C24. Removing a recorded download that was just found unchanged touches nothing else: an entry is
  as before, or it is gone and was the recorded file, a recorded file of the folder with its recorded
  size and time, or a directory inside it; and when no call fails, none of its files is left.\<close>

theorem remove_recorded_only_ours:
  assumes "wf_world w" "real_path w (Path rec)" "Path rec \<noteq> []" "snd (statRecorded w rec)"
    "removeRecorded w rec = (r, w')"
  shows "(\<forall>s. entry w' s = entry w s \<or> entry w' s = None \<and> ours w rec s) \<and> wf_world w'
     \<and> ((\<forall>c. fault w c = None) \<longrightarrow> r = None \<and> files_under w' (Path rec) = {})"
  using removeRecorded_ours [OF assms] removeRecorded_quiet [OF assms(1-3) _ assms(4,5)]
  by (auto simp: shrinks_def)

theorem remove_recorded_only_ours_witness:
  "entry (snd (removeRecorded demo_world demo_rec)) [''d'', ''u''] = Some (Reg 4 ''x'' 9)
   \<and> files_under (snd (removeRecorded demo_world demo_rec)) [''d'', ''m''] = {}"
proof -
  obtain r w' where rm: "removeRecorded demo_world demo_rec = (r, w')" by force
  have "wf_world demo_world" "real_path demo_world (Path demo_rec)" "Path demo_rec \<noteq> []"
    using demo_wf_world demo_real by (simp_all add: demo_rec_def)
  note res = remove_recorded_only_ours [OF this demo_stat rm]
  have "\<not> ours demo_world demo_rec [''d'', ''u'']"
    using ours_under [of demo_world demo_rec "[''d'', ''u'']"] by (auto simp: demo_rec_def)
  then have "entry w' [''d'', ''u''] = entry demo_world [''d'', ''u'']" using res by blast
  with res demo_quiet rm show ?thesis by (simp add: demo_entry demo_rec_def)
qed

text \<open>What is relied on of the JSON encoding: decoding what was encoded gives the same map.\<close>

definition codec_ok :: "dlcodec \<Rightarrow> bool" where
  "codec_ok cd \<longleftrightarrow> (\<forall>m b. fst cd m = Some b \<longrightarrow> (\<exists>m'. snd cd b = Some m' \<and> map_of m' = map_of m))"

lemma saved_reopens:
  assumes "codec_ok cd" "saveLocked cd r = (None, r')"
  shows "\<exists>b r2. disk r' = Some b \<and> openDownloadRecord cd (DiskData b) = Some r2 \<and> (\<forall>k. Get r2 k = Get r' k)"
proof -
  obtain b where b: "fst cd (mem r) = Some b" "r' = r\<lparr>disk := Some b\<rparr>"
    using assms(2) by (auto simp: saveLocked_def split: option.splits)
  then obtain m' where "snd cd b = Some m'" "map_of m' = map_of (mem r)"
    using assms(1) unfolding codec_ok_def by blast
  with b show ?thesis by (simp add: openDownloadRecord_def Get_def)
qed

text \<open>The record survives a restart: after a \<open>Put\<close> that reported no error, opening the file again
  finds the new record and every other record the node had.\<close>

theorem record_survives_restart:
  assumes "codec_ok cd" "Put cd r ih f = (None, r')"
  shows "\<exists>b r2. disk r' = Some b \<and> openDownloadRecord cd (DiskData b) = Some r2
     \<and> (\<forall>k. Get r2 k = (if k = ih then Some f else Get r k))"
proof -
  have "Get r' k = (if k = ih then Some f else Get r k)" for k
    using dl_store.lookup_insert [of cd r ih f k] assms(2) by simp
  with saved_reopens [OF assms(1), of _ r'] assms(2) show ?thesis unfolding Put_def by metis
qed

definition demo_codec :: dlcodec where
  "demo_codec = ((\<lambda>m. if m = [(''h'', demo_rec)] then Some ''j'' else None),
                 (\<lambda>b. if b = ''j'' then Some [(''h'', demo_rec)] else None))"

theorem record_survives_restart_witness:
  "\<exists>b r2. openDownloadRecord demo_codec (DiskData b) = Some r2 \<and> Get r2 ''h'' = Some demo_rec"
proof -
  let ?r = "\<lparr>mem = [], disk = None, save_fault = None\<rparr> :: downloadRecord"
  have "codec_ok demo_codec" by (simp add: codec_ok_def demo_codec_def)
  moreover obtain r' where "Put demo_codec ?r ''h'' demo_rec = (None, r')"
    by (simp add: Put_def saveLocked_def demo_codec_def)
  ultimately show ?thesis using record_survives_restart [of demo_codec ?r "''h''" demo_rec r'] by fastforce
qed

end
