(* ===== verification/Job.thy ===== *)
theory Job
  imports Downloaded
begin

text \<open>
  \<open>internal/node/job.go\<close> for per-file models, and the part of \<open>node.go\<close> that decides what is the
  node's own stale download: looking for a local copy, verifying it, claiming its record, promoting
  a finished download to its place in \<open>data_dir\<close>, and quarantining a bad one.

  Every function works on the node's file system and download record (\<open>io\<close>). Hashing a file is a
  parameter of the environment here; \<open>Hashcache\<close> models the cache behind it. A job may be stopped at
  any moment: the environment says at which of the places where the code looks it is seen to be.
\<close>

section \<open>Jobs and their environment\<close>

datatype State =
    StateAbsent | StateQueued | StateAdopting | StateDownloading | StateVerifying | StateSeeding
  | StatePaused | StateFailed

text \<open>\<open>SHA256Context\<close>: the sum, the sum with an error of saving the cache, or an error.\<close>

datatype hash_result = HashOk string | HashUnsaved string | HashFailed

fun is_unsaved :: "hash_result \<Rightarrow> bool" where
  "is_unsaved (HashUnsaved _) = True"
| "is_unsaved _ = False"

fun hash_sum :: "hash_result \<Rightarrow> string option" where
  "hash_sum (HashOk s) = Some s"
| "hash_sum (HashUnsaved s) = Some s"
| "hash_sum HashFailed = None"

record jenv =
  dataDir :: path
  codec :: dlcodec
  cat :: "Catalog option"
  hash :: "world \<Rightarrow> path \<Rightarrow> hash_result"
  stopped_at :: "path \<Rightarrow> bool"     \<comment> \<open>\<open>ctx.Err()\<close> before the candidate is looked at\<close>
  stopped_in :: "path \<Rightarrow> bool"     \<comment> \<open>\<open>ctx.Err()\<close> after hashing it\<close>
  hash_file :: "world \<Rightarrow> path \<Rightarrow> string option"   \<comment> \<open>\<open>HashFileContext\<close>, past the cache\<close>
  bad_piece :: "nat \<Rightarrow> bool"        \<comment> \<open>clearing the completion of the piece fails\<close>
  now_ns :: nat                   \<comment> \<open>\<open>time.Now().UnixNano()\<close>\<close>

text \<open>\<open>hput\<close> lists the sums given to the hash cache with \<open>Put\<close>, \<open>pieces\<close> is the recorded completion of
  the torrents' pieces, a map of the torrent library's store that the node only clears.\<close>

type_synonym completion = "(string \<times> nat) \<Rightarrow> bool option"

record io =
  wd :: world
  dl :: downloadRecord
  hput :: "(path \<times> string) list"
  pieces :: completion

datatype job_error =
    LstatFailed path errno
  | NotRegular path | DanglingLink path errno | LinkToNonRegular path
  | NotDirectory path | LinkToNonDirectory path
  | SizeMismatch path int int | ShaMismatch path string string
  | HashError path | Stopped
  | FileMissing path string errno | FileNotRegular path string
  | DestinationExists path path | Errno errno | ReplaceFailed path errno
  | MoveAsideFailed path errno | NotMovedBack path errno
  | DownloadMismatch string string | QuarantineFailed string errno | Quarantined string path bool
  | RemoveStaleFailed path errno
  | StorageFailed | BadMagnet magnet_error | DirInfoMismatch
  | NoLocalCopy | FetchingTorrent | NoRoom

record job =
  jmodel :: string
  jf :: File
  jdir :: "Model option"
  adopt :: "path list"
  jstate :: State
  jpath :: "path option"
  jerr :: "job_error option"
  noSpace :: bool
  downloaded :: bool
  prune :: bool
  dups :: "path list"
  replaceIH :: "string option"

definition newJob :: "string \<Rightarrow> File \<Rightarrow> path list \<Rightarrow> job" where
  "newJob m f cands = \<lparr>jmodel = m, jf = f, jdir = None, adopt = cands, jstate = StateQueued, jpath = None, jerr = None,
     noSpace = False, downloaded = False, prune = False, dups = [], replaceIH = None\<rparr>"

definition dataPath :: "jenv \<Rightarrow> job \<Rightarrow> path" where
  "dataPath E j = dataDir E @ [DiskName (jf j)]"

definition incomingDir :: "jenv \<Rightarrow> path" where
  "incomingDir E = dataDir E @ [''.incoming'']"

definition incomingPath :: "jenv \<Rightarrow> job \<Rightarrow> path" where
  "incomingPath E j = incomingDir E @ [DiskName (jf j)]"

definition set_state :: "State \<Rightarrow> path option \<Rightarrow> job_error option \<Rightarrow> job \<Rightarrow> job" where
  "set_state s p msg j =
     (let j' = j\<lparr>jstate := s, jerr := msg\<rparr> in case p of None \<Rightarrow> j' | Some q \<Rightarrow> j'\<lparr>jpath := Some q\<rparr>)"

text \<open>\<open>fail\<close> does nothing in a job that is being stopped.\<close>

definition fail :: "bool \<Rightarrow> job_error \<Rightarrow> job \<Rightarrow> job" where
  "fail stopping err j = (if stopping then j else set_state StateFailed None (Some err) j)"

definition failed :: "job \<Rightarrow> bool" where
  "failed j \<longleftrightarrow> jstate j = StateFailed"

definition stop :: "bool \<Rightarrow> job \<Rightarrow> job" where
  "stop pr j = j\<lparr>prune := pr\<rparr>"

section \<open>The node's own stale downloads\<close>

definition inCatalog :: "Catalog option \<Rightarrow> string \<Rightarrow> bool" where
  "inCatalog c ih = (case c of None \<Rightarrow> False | Some k \<Rightarrow> list_ex (\<lambda>m. list_ex (\<lambda>f. fInfoHash f = ih) (units m)) (Models k))"

fun find_stale :: "world \<Rightarrow> Catalog option \<Rightarrow> path \<Rightarrow> string \<Rightarrow> dlmap \<Rightarrow> string option" where
  "find_stale w c p except [] = None"
| "find_stale w c p except ((ih, rec) # rs) =
     (if ih = except \<or> Path rec \<noteq> p \<or> inCatalog c ih then find_stale w c p except rs
      else if snd (statRecorded w rec) then Some ih
      else find_stale w c p except rs)"

definition staleOwnDownload :: "jenv \<Rightarrow> io \<Rightarrow> path \<Rightarrow> string \<Rightarrow> string option" where
  "staleOwnDownload E S p except = find_stale (wd S) (cat E) p except (All (dl S))"

section \<open>Looking for a local copy\<close>

definition statDataPath :: "world \<Rightarrow> path \<Rightarrow> job_error + fnode option" where
  "statDataPath w dp =
     (case Lstat w dp of
        Inl e \<Rightarrow> if is_not_exist e then Inr None else Inl (LstatFailed dp e)
      | Inr lfi \<Rightarrow>
          if is_reg lfi then Inr (Some lfi)
          else if \<not> is_sym lfi then Inl (NotRegular dp)
          else case Stat w dp of
            Inl e \<Rightarrow> Inl (DanglingLink dp e)
          | Inr fi \<Rightarrow> if \<not> is_reg fi then Inl (LinkToNonRegular dp) else Inr (Some fi))"

datatype verdict = Verified | Mismatch job_error | Unverified job_error

definition verifyDataPath :: "jenv \<Rightarrow> world \<Rightarrow> job \<Rightarrow> path \<Rightarrow> fnode \<Rightarrow> verdict" where
  "verifyDataPath E w j dp fi =
     (if fi_size fi \<noteq> fSize (jf j) then Mismatch (SizeMismatch dp (fi_size fi) (fSize (jf j)))
      else case hash_sum (hash E w dp) of
        None \<Rightarrow> Unverified (HashError dp)
      | Some s \<Rightarrow> if s \<noteq> SHA256 (jf j) then Mismatch (ShaMismatch dp s (SHA256 (jf j))) else Verified)"

definition claimRecord :: "jenv \<Rightarrow> io \<Rightarrow> job \<Rightarrow> path \<Rightarrow> job \<times> io" where
  "claimRecord E S j dp =
     (let ih = fInfoHash (jf j)
      in if (case Get (dl S) ih of None \<Rightarrow> True | Some rec \<Rightarrow> Path rec \<noteq> dp)
         then (case staleOwnDownload E S dp ih of
                 None \<Rightarrow> (j, S)
               | Some old \<Rightarrow>
                   (case Get (dl S) old of
                      None \<Rightarrow> (j, S)
                    | Some rec \<Rightarrow>
                        (case Put (codec E) (dl S) ih rec of
                           (Some _, d) \<Rightarrow> (j, S\<lparr>dl := d\<rparr>)
                         | (None, d) \<Rightarrow> (j\<lparr>downloaded := True\<rparr>, S\<lparr>dl := snd (Delete (codec E) d old)\<rparr>))))
         else (j\<lparr>downloaded := True\<rparr>, S))"

text \<open>The loop over the adoption candidates.\<close>

fun adopt_loop :: "jenv \<Rightarrow> world \<Rightarrow> string \<Rightarrow> path list \<Rightarrow> nat list \<Rightarrow> path option \<Rightarrow> path list
    \<Rightarrow> job_error + (path option \<times> path list)" where
  "adopt_loop E w sha [] kept found dps = Inr (found, dps)"
| "adopt_loop E w sha (p # ps) kept found dps =
     (if stopped_at E p then Inl Stopped
      else case Stat w p of
        Inl _ \<Rightarrow> adopt_loop E w sha ps kept found dps
      | Inr fi \<Rightarrow>
          if inode fi \<in> set kept then adopt_loop E w sha ps kept found dps
          else case hash_sum (hash E w p) of
            None \<Rightarrow> if stopped_in E p then Inl Stopped else adopt_loop E w sha ps kept found dps
          | Some s \<Rightarrow>
              if is_unsaved (hash E w p) \<and> stopped_in E p then Inl Stopped
              else if s \<noteq> sha then adopt_loop E w sha ps kept found dps
              else (case found of
                      None \<Rightarrow> adopt_loop E w sha ps (kept @ [inode fi]) (Some p) dps
                    | Some q \<Rightarrow> adopt_loop E w sha ps (kept @ [inode fi]) (Some q) (dps @ [p])))"

definition findLocal :: "jenv \<Rightarrow> io \<Rightarrow> job \<Rightarrow> (job_error + (path option \<times> path list)) \<times> job \<times> io" where
  "findLocal E S j =
     (let dp = dataPath E j; w = wd S; go = (\<lambda>kept found. adopt_loop E w (SHA256 (jf j)) (adopt j) kept found [])
      in case statDataPath w dp of
           Inl e \<Rightarrow> (Inl e, j, S)
         | Inr None \<Rightarrow> (go [] None, j, S)
         | Inr (Some fi) \<Rightarrow>
             (case verifyDataPath E w j dp fi of
                Verified \<Rightarrow> (let (j', S') = claimRecord E S j dp in (go [inode fi] (Some dp), j', S'))
              | Unverified e \<Rightarrow> (Inl e, j, S)
              | Mismatch e \<Rightarrow>
                  (case staleOwnDownload E S dp (fInfoHash (jf j)) of
                     None \<Rightarrow> (Inl e, j, S)
                   | Some old \<Rightarrow> (go [] None, j\<lparr>replaceIH := Some old\<rparr>, S))))"

section \<open>Promoting a finished download\<close>

definition promote :: "jenv \<Rightarrow> io \<Rightarrow> job \<Rightarrow> path \<Rightarrow> path \<Rightarrow> job_error option \<times> io" where
  "promote E S j incoming final =
     (let link = (\<lambda>S. case Link (wd S) incoming final of
                        (Some e, w) \<Rightarrow> (Some (if is_exist e then DestinationExists final incoming else Errno e), S\<lparr>wd := w\<rparr>)
                      | (None, w) \<Rightarrow> (case Remove w incoming of (e, w') \<Rightarrow> (map_option Errno e, S\<lparr>wd := w'\<rparr>)))
      in case replaceIH j of
           None \<Rightarrow> link S
         | Some old \<Rightarrow>
             if staleOwnDownload E S final (fInfoHash (jf j)) = Some old
             then (case Remove (wd S) final of
                     (Some e, w) \<Rightarrow>
                       if \<not> is_not_exist e then (Some (ReplaceFailed final e), S\<lparr>wd := w\<rparr>)
                       else link (S\<lparr>wd := w, dl := snd (Delete (codec E) (dl S) old)\<rparr>)
                   | (None, w) \<Rightarrow> link (S\<lparr>wd := w, dl := snd (Delete (codec E) (dl S) old)\<rparr>))
             else link S)"

section \<open>Quarantine\<close>

fun itoa :: "nat \<Rightarrow> string" where
  "itoa n = (if n < 10 then [char_of (48 + n)] else itoa (n div 10) @ [char_of (48 + n mod 10)])"

declare itoa.simps [simp del]

definition quarantine_name :: "path \<Rightarrow> nat \<Rightarrow> path" where
  "quarantine_name dst i = (if i > 0 then butlast dst @ [last dst @ ''.'' @ itoa i] else dst)"

function quarantine_from :: "(world \<Rightarrow> path \<Rightarrow> path \<Rightarrow> errno option \<times> world) \<Rightarrow> world \<Rightarrow> path \<Rightarrow> path \<Rightarrow> nat
    \<Rightarrow> (errno + path) \<times> world" where
  "quarantine_from mv w src dst i =
     (case mv w src (quarantine_name dst i) of
        (None, w') \<Rightarrow> (Inr (quarantine_name dst i), w')
      | (Some e, w') \<Rightarrow> if \<not> is_exist e \<or> i \<ge> 99 then (Inl e, w') else quarantine_from mv w' src dst (i + 1))"
  by auto
termination by (relation "measure (\<lambda>(mv, w, src, dst, i). 100 - i)") auto

declare quarantine_from.simps [simp del]

definition quarantineTo :: "(world \<Rightarrow> path \<Rightarrow> path \<Rightarrow> errno option \<times> world) \<Rightarrow> world \<Rightarrow> path \<Rightarrow> path
    \<Rightarrow> (errno + path) \<times> world" where
  "quarantineTo mv w src dst = quarantine_from mv w src dst 0"

text \<open>Clearing the completion of a torrent's pieces, up to the first one that fails.\<close>

fun forget_from :: "(nat \<Rightarrow> bool) \<Rightarrow> string \<Rightarrow> nat list \<Rightarrow> completion \<Rightarrow> bool \<times> completion" where
  "forget_from bad ih [] pc = (True, pc)"
| "forget_from bad ih (i # is) pc = (if bad i then (False, pc) else forget_from bad ih is (pc((ih, i) := None)))"

definition hex_hash :: "string \<Rightarrow> bool" where
  "hex_hash s \<longleftrightarrow> length s = 40 \<and> list_all (\<lambda>c. is_hex_c (lower c)) s"

definition forgetPieces :: "jenv \<Rightarrow> job \<Rightarrow> nat \<Rightarrow> completion \<Rightarrow> bool \<times> completion" where
  "forgetPieces E j n pc =
     (if \<not> hex_hash (fInfoHash (jf j)) then (False, pc) else forget_from (bad_piece E) (fInfoHash (jf j)) [0..<n] pc)"

definition quarantine_dir :: "jenv \<Rightarrow> path" where
  "quarantine_dir E = dataDir E @ [''.quarantine'']"

definition quarantine_dst :: "jenv \<Rightarrow> job \<Rightarrow> string \<Rightarrow> path" where
  "quarantine_dst E j got = quarantine_dir E @ [DiskName (jf j) @ ''.'' @ take 12 got]"

definition quarantine :: "jenv \<Rightarrow> io \<Rightarrow> job \<Rightarrow> string \<Rightarrow> nat \<Rightarrow> job_error \<times> io" where
  "quarantine E S j got n =
     (case MkdirAll (wd S) (quarantine_dir E) of
        (Some e, w) \<Rightarrow> (QuarantineFailed got e, S\<lparr>wd := w\<rparr>)
      | (None, w) \<Rightarrow>
          (case quarantineTo renameNoReplace w (incomingPath E j) (quarantine_dst E j got) of
             (Inl e, w') \<Rightarrow> (QuarantineFailed got e, S\<lparr>wd := w'\<rparr>)
           | (Inr dst, w') \<Rightarrow>
               (case forgetPieces E j n (pieces S) of
                  (forgotten, pc) \<Rightarrow> (Quarantined got dst forgotten, S\<lparr>wd := w', pieces := pc\<rparr>))))"

section \<open>Finishing a download\<close>

text \<open>The second half of \<open>download\<close>, from the moment every piece is there: hash, quarantine or promote,
  remember, and go on to seeding. \<open>None\<close> for the path means the job ends here.\<close>

definition record_file :: "jenv \<Rightarrow> io \<Rightarrow> job \<Rightarrow> path \<Rightarrow> string \<Rightarrow> io" where
  "record_file E S j final got =
     (let S1 = S\<lparr>hput := hput S @ [(final, got)]\<rparr>
      in case Stat (wd S) final of
           Inl _ \<Rightarrow> S1
         | Inr fi \<Rightarrow> S1\<lparr>dl := snd (Put (codec E) (dl S) (fInfoHash (jf j))
                            \<lparr>Path = final, dSize = fi_size fi, ModTime = fi_mtime fi, dFiles = None\<rparr>)\<rparr>)"

definition finish_file :: "jenv \<Rightarrow> io \<Rightarrow> job \<Rightarrow> nat \<Rightarrow> path option \<times> job \<times> io" where
  "finish_file E S j n =
     (let inc = incomingPath E j; stopping = stopped_in E inc; final = dataPath E j; j = set_state StateVerifying None None j
      in case hash_file E (wd S) inc of
           None \<Rightarrow> (None, fail stopping (HashError inc) j, S)
         | Some got \<Rightarrow>
             if stopping then (None, j, S)
             else if got \<noteq> SHA256 (jf j)
             then (case quarantine E S j got n of (e, S') \<Rightarrow> (None, fail stopping e j, S'))
             else (case promote E S j inc final of
                     (Some e, S') \<Rightarrow> (None, fail stopping e j, S')
                   | (None, S') \<Rightarrow> (Some final, j\<lparr>downloaded := True\<rparr>, record_file E S' j final got)))"

section \<open>Pruning at the end of a job\<close>

definition pruneDataPathIfUnchanged :: "jenv \<Rightarrow> io \<Rightarrow> job \<Rightarrow> io" where
  "pruneDataPathIfUnchanged E S j =
     (let ih = fInfoHash (jf j)
      in case Get (dl S) ih of
           None \<Rightarrow> S
         | Some rec \<Rightarrow>
             (case statRecorded (wd S) rec of
                (missing, same) \<Rightarrow>
                  if missing \<or> \<not> same then S\<lparr>dl := snd (Delete (codec E) (dl S) ih)\<rparr>
                  else (case removeRecorded (wd S) rec of
                          (None, w) \<Rightarrow> S\<lparr>wd := w, dl := snd (Delete (codec E) (dl S) ih)\<rparr>
                        | (Some _, w) \<Rightarrow> S\<lparr>wd := w\<rparr>)))"

section \<open>Lemmas: stale downloads and claims\<close>

lemma find_stale_Some:
  "find_stale w c p except rs = Some ih \<Longrightarrow>
     ih \<noteq> except \<and> \<not> inCatalog c ih \<and> (\<exists>rec. (ih, rec) \<in> set rs \<and> Path rec = p \<and> snd (statRecorded w rec))"
  by (induction w c p except rs rule: find_stale.induct) (auto split: if_splits)

lemma staleOwnDownload_Some:
  assumes "staleOwnDownload E S p except = Some ih"
  shows "ih \<noteq> except \<and> \<not> inCatalog (cat E) ih
     \<and> (\<exists>rec. (ih, rec) \<in> set (mem (dl S)) \<and> Path rec = p \<and> snd (statRecorded (wd S) rec))"
  using find_stale_Some assms by (simp add: staleOwnDownload_def All_def)

lemma claimRecord_wd [simp]: "wd (snd (claimRecord E S j dp)) = wd S"
  by (auto simp: claimRecord_def Let_def split: option.splits prod.splits)

lemma claimRecord_wd_eq: "claimRecord E S j dp = (j', S') \<Longrightarrow> wd S' = wd S"
  using claimRecord_wd [of E S j dp] by simp

lemma claimRecord_job:
  "jf (fst (claimRecord E S j dp)) = jf j" "replaceIH (fst (claimRecord E S j dp)) = replaceIH j"
  by (auto simp: claimRecord_def Let_def split: option.splits prod.splits)

section \<open>Lemmas: what a search finds\<close>

definition verified :: "jenv \<Rightarrow> world \<Rightarrow> string \<Rightarrow> path \<Rightarrow> bool" where
  "verified E w sha p \<longleftrightarrow> hash_sum (hash E w p) = Some sha"

text \<open>The inode a path leads to.\<close>

definition ino_of :: "world \<Rightarrow> path \<Rightarrow> nat option" where
  "ino_of w p = (case look w p True of Inr n \<Rightarrow> Some (inode n) | Inl _ \<Rightarrow> None)"

lemma Stat_ino: "Stat w p = Inr n \<Longrightarrow> ino_of w p = Some (inode n)"
  by (auto simp: Stat_def ino_of_def split: option.splits)

lemma walk_follow:
  "walk w fuel cur p False = Inr q \<Longrightarrow> (\<And>i t. entry w q \<noteq> Some (Sym i t)) \<Longrightarrow> walk w fuel cur p True = Inr q"
proof (induction w fuel cur p "False" arbitrary: q rule: walk.induct)
  case (2 w fuel cur c rest)
  show ?case
  proof (cases "c = '''' \<or> c = ''.'' \<or> c = ''..''")
    case True
    with 2 show ?thesis by (auto split: if_splits)
  next
    case False
    then show ?thesis using 2(3-) by (auto split: option.splits fnode.splits nat.splits if_splits)
  qed
qed simp

lemma Lstat_ino:
  assumes "Lstat w p = Inr n" "\<not> is_sym n"
  shows "ino_of w p = Some (inode n)"
proof -
  from assms obtain q where q: "walk w 40 [] p False = Inr q" "entry w q = Some n"
    by (auto simp: Lstat_def look_def resolve_def split: option.splits sum.splits)
  moreover have "entry w q \<noteq> Some (Sym i t)" for i t using q(2) assms(2) by auto
  ultimately have "walk w 40 [] p True = Inr q" by (metis walk_follow)
  with q show ?thesis by (simp add: ino_of_def look_def resolve_def)
qed

lemma is_reg_not_sym: "is_reg n \<Longrightarrow> \<not> is_sym n" and is_dir_not_sym: "is_dir n \<Longrightarrow> \<not> is_sym n"
  by (cases n; simp)+

lemma statDataPath_ino: "statDataPath w dp = Inr (Some fi) \<Longrightarrow> ino_of w dp = Some (inode fi) \<and> is_reg fi"
  by (auto simp: statDataPath_def dest: Lstat_ino Stat_ino is_reg_not_sym split: sum.splits if_splits)

lemma adopt_step:
  assumes "adopt_loop E w sha (p # ps) kept found dps = Inr r"
  shows "adopt_loop E w sha ps kept found dps = Inr r \<or>
    (\<exists>fi. Stat w p = Inr fi \<and> inode fi \<notin> set kept \<and> verified E w sha p
       \<and> adopt_loop E w sha ps (kept @ [inode fi]) (Some (case found of None \<Rightarrow> p | Some q \<Rightarrow> q))
            (case found of None \<Rightarrow> dps | Some _ \<Rightarrow> dps @ [p]) = Inr r)"
  using assms by (auto simp: verified_def split: sum.splits option.splits if_splits)

definition copies :: "path option \<Rightarrow> path list \<Rightarrow> path list" where
  "copies found dps = (case found of None \<Rightarrow> [] | Some p \<Rightarrow> p # dps)"

text \<open>The loop over candidates, for files and for folders: a step passes over the candidate, or takes it
  because it is acceptable and not the same inode as one taken before.\<close>

locale adoption =
  fixes w :: world
    and loop :: "path list \<Rightarrow> nat list \<Rightarrow> path option \<Rightarrow> path list \<Rightarrow> 'e + (path option \<times> path list)"
    and acceptable :: "path \<Rightarrow> bool"
  assumes loop_done: "loop [] kept found dps = Inr r \<Longrightarrow> r = (found, dps)"
    and loop_next: "loop (p # ps) kept found dps = Inr r \<Longrightarrow> loop ps kept found dps = Inr r \<or>
      (\<exists>fi. Stat w p = Inr fi \<and> inode fi \<notin> set kept \<and> acceptable p
         \<and> loop ps (kept @ [inode fi]) (Some (case found of None \<Rightarrow> p | Some q \<Rightarrow> q))
              (case found of None \<Rightarrow> dps | Some _ \<Rightarrow> dps @ [p]) = Inr r)"
begin

lemma loop_sound:
  assumes "loop ps kept found dps = Inr (found', dps')"
    and "found = None \<longrightarrow> dps = []" "\<forall>p\<in>set (copies found dps). acceptable p"
    and "map (ino_of w) (copies found dps) = map Some kept" "distinct kept"
  shows "(found' = None \<longrightarrow> dps' = []) \<and> (\<forall>p\<in>set (copies found' dps'). acceptable p)
     \<and> distinct (map (ino_of w) (copies found' dps'))"
  using assms
proof (induction ps arbitrary: kept found dps)
  case Nil
  from loop_done [OF Nil(1)] Nil show ?case by (simp add: distinct_map)
next
  case (Cons p ps)
  from loop_next [OF Cons.prems(1)] show ?case
  proof
    assume "loop ps kept found dps = Inr (found', dps')"
    from Cons.IH [OF this Cons.prems(2-)] show ?thesis .
  next
    assume "\<exists>fi. Stat w p = Inr fi \<and> inode fi \<notin> set kept \<and> acceptable p
       \<and> loop ps (kept @ [inode fi]) (Some (case found of None \<Rightarrow> p | Some q \<Rightarrow> q))
            (case found of None \<Rightarrow> dps | Some _ \<Rightarrow> dps @ [p]) = Inr (found', dps')"
    then obtain fi where fi: "Stat w p = Inr fi" "inode fi \<notin> set kept" "acceptable p"
      and rest: "loop ps (kept @ [inode fi]) (Some (case found of None \<Rightarrow> p | Some q \<Rightarrow> q))
            (case found of None \<Rightarrow> dps | Some _ \<Rightarrow> dps @ [p]) = Inr (found', dps')" by blast
    have c: "copies (Some (case found of None \<Rightarrow> p | Some q \<Rightarrow> q)) (case found of None \<Rightarrow> dps | Some _ \<Rightarrow> dps @ [p])
        = copies found dps @ [p]"
      using Cons.prems(2) by (cases found) (auto simp: copies_def)
    from Cons.IH [OF rest] show ?thesis unfolding c using Cons.prems fi Stat_ino [OF fi(1)] by auto
  qed
qed

text \<open>The search starts with nothing, or with the acceptable entry at the data path.\<close>

lemma search_none:
  "loop ps [] None [] = Inr (found, dps) \<Longrightarrow>
     (found = None \<longrightarrow> dps = []) \<and> (\<forall>p\<in>set (copies found dps). acceptable p)
     \<and> distinct (map (ino_of w) (copies found dps))"
  using loop_sound [of ps "[]" None "[]" found dps] by (simp add: copies_def)

lemma search_some:
  "loop ps [i] (Some dp) [] = Inr (found, dps) \<Longrightarrow> ino_of w dp = Some i \<Longrightarrow> acceptable dp \<Longrightarrow>
     (found = None \<longrightarrow> dps = []) \<and> (\<forall>p\<in>set (copies found dps). acceptable p)
     \<and> distinct (map (ino_of w) (copies found dps))"
  by (rule loop_sound [of ps "[i]" "Some dp" "[]"]) (simp_all add: copies_def)

end

interpretation file_adoption: adoption w "adopt_loop E w sha" "verified E w sha"
  for E :: jenv and w :: world and sha :: string
proof
  show "adopt_loop E w sha [] kept found dps = Inr r \<Longrightarrow> r = (found, dps)" for kept found dps r
    by simp
qed (erule adopt_step)

lemma verifyDataPath_Verified: "verifyDataPath E w j dp fi = Verified \<Longrightarrow> verified E w (SHA256 (jf j)) dp"
  by (auto simp: verifyDataPath_def verified_def split: option.splits if_splits)

lemma findLocal_wd: "findLocal E S j = (r, j', S') \<Longrightarrow> wd S' = wd S"
  by (auto simp: findLocal_def Let_def dest: claimRecord_wd_eq split: sum.splits option.splits verdict.splits prod.splits)

lemma findLocal_sound:
  assumes "findLocal E S j = (Inr (found, dps), j', S')"
  shows "(\<forall>p\<in>set (copies found dps). verified E (wd S) (SHA256 (jf j)) p)
     \<and> distinct (map (ino_of (wd S)) (copies found dps)) \<and> (found = None \<longrightarrow> dps = [])"
proof -
  note none = file_adoption.search_none [of E "wd S" "SHA256 (jf j)" "adopt j" found dps]
  note some = file_adoption.search_some [of E "wd S" "SHA256 (jf j)" "adopt j" _ "dataPath E j" found dps]
  show ?thesis
    using assms none some
    by (auto simp: findLocal_def Let_def split: sum.splits option.splits verdict.splits prod.splits
        dest!: statDataPath_ino verifyDataPath_Verified)
qed

section \<open>Lemmas: promotion\<close>

text \<open>The link-and-unlink part of \<open>promote\<close>.\<close>

definition link_in :: "world \<Rightarrow> path \<Rightarrow> path \<Rightarrow> job_error option \<times> world" where
  "link_in w incoming final =
     (case Link w incoming final of
        (Some e, w') \<Rightarrow> (Some (if is_exist e then DestinationExists final incoming else Errno e), w')
      | (None, w') \<Rightarrow> (case Remove w' incoming of (e, w'') \<Rightarrow> (map_option Errno e, w'')))"

lemma promote_eq:
  "promote E S j incoming final =
     (case replaceIH j of
        Some old \<Rightarrow>
          if staleOwnDownload E S final (fInfoHash (jf j)) = Some old
          then (case Remove (wd S) final of
                  (Some e, w) \<Rightarrow>
                    if \<not> is_not_exist e then (Some (ReplaceFailed final e), S\<lparr>wd := w\<rparr>)
                    else (case link_in w incoming final of
                            (r, w') \<Rightarrow> (r, S\<lparr>wd := w', dl := snd (Delete (codec E) (dl S) old)\<rparr>))
                | (None, w) \<Rightarrow>
                    (case link_in w incoming final of
                       (r, w') \<Rightarrow> (r, S\<lparr>wd := w', dl := snd (Delete (codec E) (dl S) old)\<rparr>)))
          else (case link_in (wd S) incoming final of (r, w') \<Rightarrow> (r, S\<lparr>wd := w'\<rparr>))
      | None \<Rightarrow> (case link_in (wd S) incoming final of (r, w') \<Rightarrow> (r, S\<lparr>wd := w'\<rparr>)))"
  by (auto simp: promote_def link_in_def Let_def split: option.splits prod.splits)

definition moved_in :: "world \<Rightarrow> world \<Rightarrow> path \<Rightarrow> path \<Rightarrow> fnode \<Rightarrow> job_error option \<Rightarrow> bool" where
  "moved_in w w' incoming final n r \<longleftrightarrow>
     (\<forall>s. s \<noteq> incoming \<and> s \<noteq> final \<longrightarrow> entry w' s = entry w s)
   \<and> (r = None \<longrightarrow> entry w' final = Some n \<and> entry w' incoming = None)
   \<and> (r \<noteq> None \<longrightarrow> entry w' incoming = Some n)
   \<and> wf_world w'"

lemma link_in_moved:
  assumes wf: "wf_world w" and real: "real_path w final" and n: "entry w incoming = Some n" and ne: "incoming \<noteq> final"
    and res: "link_in w incoming final = (r, w')"
  shows "moved_in w w' incoming final n r \<and> (entry w final \<noteq> None \<longrightarrow> w' = w \<and> r \<noteq> None)"
proof -
  obtain r1 w1 where l: "Link w incoming final = (r1, w1)" by force
  from Link_real [OF l real] show ?thesis
  proof
    assume "w1 = w \<and> r1 \<noteq> None"
    with l res n wf show ?thesis by (auto simp: link_in_def moved_in_def split: option.splits)
  next
    assume "r1 = None \<and> entry w final = None \<and> (\<exists>n. look w incoming False = Inr n \<and> \<not> is_dir n \<and> w1 = put w final n)"
    then have f: "r1 = None" "entry w final = None" "\<not> is_dir n" "w1 = put w final n"
      using look_entry [OF wf n] by auto
    have fn: "final \<noteq> []" using f(2) by auto
    have wf1: "wf_world w1" unfolding f by (rule wf_put [OF wf real f(2)])
    have n1: "entry w1 incoming = Some n" using n ne fn by (simp add: f)
    obtain r2 where rm: "Remove w1 incoming = (r2, w')" and r: "r = map_option Errno r2"
      using res l f(1) by (auto simp: link_in_def split: prod.splits)
    note Remove_real [OF rm wf_entry(1) [OF wf1]]
    then show ?thesis using n1 wf_Remove [OF wf1 rm] f fn ne r n
      by (auto simp: moved_in_def)
  qed
qed

lemma promote_moved:
  assumes wf: "wf_world (wd S)" and real: "real_path (wd S) final" and n: "entry (wd S) incoming = Some n"
    and ne: "incoming \<noteq> final" and res: "promote E S j incoming final = (r, S')"
  shows "moved_in (wd S) (wd S') incoming final n r"
    and "entry (wd S) final = Some m \<Longrightarrow> replaceIH j = None \<or> staleOwnDownload E S final (fInfoHash (jf j)) \<noteq> replaceIH j \<Longrightarrow>
      wd S' = wd S \<and> dl S' = dl S \<and> r \<noteq> None"
proof -
  have plain: "moved_in (wd S) (wd S') incoming final n r \<and> (entry (wd S) final \<noteq> None \<longrightarrow> wd S' = wd S \<and> r \<noteq> None)
      \<and> dl S' = dl S" if "(case link_in (wd S) incoming final of (r, w') \<Rightarrow> (r, S\<lparr>wd := w'\<rparr>)) = (r, S')"
    using that link_in_moved [OF wf real n ne] by (auto split: prod.splits)
  show "entry (wd S) final = Some m \<Longrightarrow> replaceIH j = None \<or> staleOwnDownload E S final (fInfoHash (jf j)) \<noteq> replaceIH j \<Longrightarrow>
      wd S' = wd S \<and> dl S' = dl S \<and> r \<noteq> None"
    using res plain by (auto simp: promote_eq split: option.splits)
  show "moved_in (wd S) (wd S') incoming final n r"
  proof (cases "replaceIH j \<noteq> None \<and> staleOwnDownload E S final (fInfoHash (jf j)) = replaceIH j")
    case False
    with res plain show ?thesis by (auto simp: promote_eq split: option.splits if_splits)
  next
    case True
    obtain r1 w1 where rm: "Remove (wd S) final = (r1, w1)" by force
    have w1: "w1 = wd S \<and> r1 \<noteq> None \<or> w1 = del (wd S) final \<and> r1 = None \<and> final \<noteq> []"
      using Remove_real [OF rm real] by auto
    have wf1: "wf_world w1" using wf_Remove [OF wf rm] .
    have real1: "real_path w1 final" using real w1 by (auto simp: real_path_def)
    have n1: "entry w1 incoming = Some n" and other: "\<forall>s. s \<noteq> final \<longrightarrow> entry w1 s = entry (wd S) s"
      using w1 n ne by auto
    have step: "moved_in (wd S) w' incoming final n r" if "link_in w1 incoming final = (r, w')" for w'
      using link_in_moved [OF wf1 real1 n1 ne that] other by (auto simp: moved_in_def)
    show ?thesis
      using True res rm step n wf w1 by (auto simp: promote_eq moved_in_def split: option.splits if_splits prod.splits)
  qed
qed

section \<open>Lemmas: quarantine\<close>

context no_replace_move
begin

lemma quarantine_from_moves:
  assumes "quarantine_from mv w src dst i = (Inr d, w')"
  shows "\<exists>k p q. d = quarantine_name dst k \<and> resolve w src False = Inr p \<and> resolve w d False = Inr q
     \<and> entry w p \<noteq> None \<and> entry w q = None \<and> \<not> prefix p q \<and> \<not> prefix q p \<and> w' = move_tree w p q"
  using assms
proof (induction "100 - i" arbitrary: i rule: less_induct)
  case less
  show ?case
  proof (cases "mv w src (quarantine_name dst i)")
    case (Pair r w1)
    show ?thesis
    proof (cases r)
      case None
      with less.prems Pair have "d = quarantine_name dst i" "w' = w1" by (auto simp: quarantine_from.simps [of mv w src dst i])
      with mv_moved [OF Pair [unfolded None]] show ?thesis by blast
    next
      case (Some e)
      with mv_failed Pair have "w1 = w" by blast
      with less.prems Pair Some have "i < 99" "quarantine_from mv w src dst (i + 1) = (Inr d, w')"
        by (auto simp: quarantine_from.simps [of mv w src dst i] split: if_splits)
      then show ?thesis using less.hyps [of "i + 1"] by simp
    qed
  qed
qed

lemma quarantine_from_failed: "quarantine_from mv w src dst i = (Inl e, w') \<Longrightarrow> w' = w"
proof (induction "100 - i" arbitrary: i rule: less_induct)
  case less
  obtain r w1 where m: "mv w src (quarantine_name dst i) = (r, w1)" by force
  with less show ?case
  proof (cases r)
    case None
    with less.prems m show ?thesis by (auto simp: quarantine_from.simps [of mv w src dst i])
  next
    case (Some x)
    with mv_failed m have "w1 = w" by blast
    with less.prems m Some have "w' = w \<or> i < 99 \<and> quarantine_from mv w src dst (i + 1) = (Inl e, w')"
      by (auto simp: quarantine_from.simps [of mv w src dst i] split: if_splits)
    then show ?thesis using less.hyps [of "i + 1"] by auto
  qed
qed

lemma quarantine_first_free:
  assumes quiet: "\<forall>c. fault w c = None" and src: "resolve w src False = Inr p" "entry w p \<noteq> None"
    and names: "\<And>k. resolve w (quarantine_name dst k) False = Inr (quarantine_name dst k)"
    and free: "entry w (quarantine_name dst m) = None" "\<not> prefix p (quarantine_name dst m)" "\<not> prefix (quarantine_name dst m) p"
    and i: "i \<le> m" "m \<le> 99" "\<And>k. i \<le> k \<Longrightarrow> k < m \<Longrightarrow> entry w (quarantine_name dst k) \<noteq> None"
  shows "quarantine_from mv w src dst i = (Inr (quarantine_name dst m), move_tree w p (quarantine_name dst m))"
  using i
proof (induction "m - i" arbitrary: i)
  case 0
  then have "i = m" by simp
  with mv_free [OF src(1) names src(2) free quiet] show ?case by (simp add: quarantine_from.simps [of mv w src dst m])
next
  case (Suc d)
  then have "i < m" by simp
  with Suc.prems have "mv w src (quarantine_name dst i) = (Some EEXIST, w)"
    using mv_taken [OF names _ src(2,1) quiet] by simp
  moreover have "quarantine_from mv w src dst (i + 1) = (Inr (quarantine_name dst m), move_tree w p (quarantine_name dst m))"
    using Suc by (intro Suc.hyps(1)) auto
  ultimately show ?case using \<open>i < m\<close> Suc.prems
    by (simp add: quarantine_from.simps [of mv w src dst i] is_exist_def)
qed

end

section \<open>Properties\<close>

text \<open>A sample job: a file of three bytes, downloaded to \<open>/d/.incoming\<close>, with an older download of the
  node's own at its place in \<open>/d\<close>.\<close>

definition demo_jfile :: File where
  "demo_jfile = \<lparr>fName = ''a'', StoreAs = '''', fSize = 3, SHA256 = ''s3'', fInfoHash = ''new'', fMagnet = ''''\<rparr>"

definition demo_hash :: "world \<Rightarrow> path \<Rightarrow> hash_result" where
  "demo_hash w p = (case look w p True of Inr (Reg _ c _) \<Rightarrow> HashOk (''s'' @ itoa (length c)) | _ \<Rightarrow> HashFailed)"

definition demo_env :: jenv where
  "demo_env = \<lparr>dataDir = [''d''], codec = ((\<lambda>_. Some ''j''), (\<lambda>_. None)), cat = None, hash = demo_hash,
     stopped_at = (\<lambda>_. False), stopped_in = (\<lambda>_. False),
     hash_file = (\<lambda>w p. hash_sum (demo_hash w p)), bad_piece = (\<lambda>_. False), now_ns = 0\<rparr>"

definition demo_jworld :: world where
  "demo_jworld = \<lparr>files = [([''d''], Dir 1), ([''d'', ''.incoming''], Dir 2), ([''d'', ''.incoming'', ''a''], Reg 3 ''abc'' 7),
     ([''d'', ''a''], Reg 4 ''x'' 9)], faults = (\<lambda>_. None), next_ino = 5, clock = 10\<rparr>"

definition demo_io :: io where
  "demo_io = \<lparr>wd = demo_jworld, dl = \<lparr>mem = [(''old'', \<lparr>Path = [''d'', ''a''], dSize = 1, ModTime = 9, dFiles = None\<rparr>)],
     disk = None, save_fault = None\<rparr>, hput = [], pieces = (\<lambda>_. None)\<rparr>"

definition demo_job :: job where
  "demo_job = (newJob ''m'' demo_jfile [[''d'', ''.incoming'', ''a'']])\<lparr>replaceIH := Some ''old''\<rparr>"

lemma demo_jentry:
  "entry demo_jworld p = (if p = [] then Some (Dir 0) else if p = [''d''] then Some (Dir 1)
     else if p = [''d'', ''.incoming''] then Some (Dir 2) else if p = [''d'', ''.incoming'', ''a''] then Some (Reg 3 ''abc'' 7)
     else if p = [''d'', ''a''] then Some (Reg 4 ''x'' 9) else None)"
  by (simp add: entry_def demo_jworld_def)

lemma demo_jwf: "wf_world demo_jworld"
  unfolding demo_jworld_def by code_simp

lemma demo_jreal: "real_path demo_jworld [''d'', ''a'']"
  using wf_entry(1) [OF demo_jwf, of "[''d'', ''a'']"] by (simp add: demo_jentry)

text \<open>The search for a local copy changes nothing on disk, whatever it finds. What it returns to be
  seeded, and the duplicates it reports, all hash to the catalog's SHA-256 and are different files
  (inodes).\<close>

theorem find_local_verified:
  assumes "findLocal E S j = (r, j', S')"
  shows "wd S' = wd S \<and> (\<forall>found dps. r = Inr (found, dps) \<longrightarrow>
     (\<forall>p\<in>set (copies found dps). hash_sum (hash E (wd S) p) = Some (SHA256 (jf j)))
     \<and> distinct (map (ino_of (wd S)) (copies found dps)) \<and> (found = None \<longrightarrow> dps = []))"
  using findLocal_wd [OF assms] findLocal_sound assms unfolding verified_def by blast

lemma demo_find: "fst (findLocal demo_env demo_io demo_job) = Inr (Some [''d'', ''.incoming'', ''a''], [])"
  unfolding demo_env_def demo_io_def demo_job_def demo_jworld_def demo_jfile_def by code_simp

theorem find_local_verified_witness:
  "hash_sum (hash demo_env (wd demo_io) [''d'', ''.incoming'', ''a'']) = Some ''s3''"
proof -
  obtain j' S' where "findLocal demo_env demo_io demo_job = (Inr (Some [''d'', ''.incoming'', ''a''], []), j', S')"
    using demo_find by (metis prod.collapse)
  from find_local_verified [OF this] show ?thesis
    by (simp add: copies_def demo_job_def newJob_def demo_jfile_def)
qed

text \<open>C12. Promotion never replaces what is not the node's own. Nothing but the two paths changes; if it
  reports success the download is at its final path and gone from \<open>.incoming\<close>, and otherwise it is
  still in \<open>.incoming\<close>; and if anything is at the final path that is not the recorded, unchanged
  download of a torrent that left the catalog, nothing is changed at all.\<close>

theorem promote_never_overwrites:
  assumes "wf_world (wd S)" "real_path (wd S) final" "entry (wd S) incoming = Some n" "incoming \<noteq> final"
    "promote E S j incoming final = (r, S')"
  shows "(\<forall>s. s \<noteq> incoming \<and> s \<noteq> final \<longrightarrow> entry (wd S') s = entry (wd S) s)
     \<and> (r = None \<longrightarrow> entry (wd S') final = Some n \<and> entry (wd S') incoming = None)
     \<and> (r \<noteq> None \<longrightarrow> entry (wd S') incoming = Some n)
     \<and> (entry (wd S) final = None
        \<or> (\<exists>ih rec. replaceIH j = Some ih \<and> (ih, rec) \<in> set (mem (dl S)) \<and> Path rec = final \<and> ih \<noteq> fInfoHash (jf j)
             \<and> \<not> inCatalog (cat E) ih \<and> snd (statRecorded (wd S) rec))
        \<or> wd S' = wd S \<and> dl S' = dl S \<and> r \<noteq> None)"
  using promote_moved [OF assms] staleOwnDownload_Some [of E S final "fInfoHash (jf j)"]
  unfolding moved_in_def by (metis not_None_eq)

lemma demo_promote_result:
  "\<exists>S'. promote demo_env demo_io demo_job [''d'', ''.incoming'', ''a''] [''d'', ''a''] = (None, S')"
proof -
  have "fst (promote demo_env demo_io demo_job [''d'', ''.incoming'', ''a''] [''d'', ''a'']) = None"
    unfolding demo_env_def demo_io_def demo_job_def demo_jworld_def demo_jfile_def by code_simp
  then show ?thesis by (metis prod.collapse)
qed

theorem promote_never_overwrites_witness:
  "\<exists>S'. promote demo_env demo_io demo_job [''d'', ''.incoming'', ''a''] [''d'', ''a''] = (None, S')
     \<and> entry (wd S') [''d'', ''a''] = Some (Reg 3 ''abc'' 7)"
proof -
  obtain S' where S': "promote demo_env demo_io demo_job [''d'', ''.incoming'', ''a''] [''d'', ''a''] = (None, S')"
    using demo_promote_result by blast
  have "wf_world (wd demo_io)" "real_path (wd demo_io) [''d'', ''a'']"
    "entry (wd demo_io) [''d'', ''.incoming'', ''a''] = Some (Reg 3 ''abc'' 7)"
    using demo_jwf demo_jreal by (simp_all add: demo_io_def demo_jentry)
  from promote_never_overwrites [OF this _ S'] S' show ?thesis by simp
qed

text \<open>A quarantined download replaces nothing: it is moved, with everything below it, to a name
  where there was nothing, and every other entry stays; if it cannot be moved nothing changes.\<close>

theorem quarantine_never_replaces:
  assumes "wf_world w" "entry w src = Some n" "quarantineTo renameNoReplace w src dst = (r, w')"
  shows "case r of
      Inl e \<Rightarrow> w' = w
    | Inr d \<Rightarrow> (\<exists>q. resolve w d False = Inr q \<and> entry w q = None \<and> (\<forall>s. entry w' (q @ s) = entry w (src @ s)))
        \<and> (\<forall>s m. entry w s = Some m \<and> \<not> prefix src s \<longrightarrow> entry w' s = Some m)"
proof (cases r)
  case (Inl e)
  with assms(3) linux.quarantine_from_failed show ?thesis by (auto simp: quarantineTo_def)
next
  case (Inr d)
  have src: "resolve w src False = Inr src" using wf_entry(1) [OF assms(1), of src] assms(2) by simp
  then obtain q where q: "resolve w d False = Inr q" "entry w q = None" "\<not> prefix src q" "\<not> prefix q src"
    "w' = move_tree w src q"
    using linux.quarantine_from_moves [of w src dst 0 d w'] assms(3) Inr by (auto simp: quarantineTo_def)
  have "\<not> prefix q s" if "entry w s = Some m" for s m
  proof
    assume "prefix q s"
    then have "q = s \<or> strict_prefix q s" by (simp add: strict_prefix_def)
    with wf_entry(1) [OF assms(1), of s] that q(2) show False by (auto simp: real_path_def)
  qed
  with q Inr show ?thesis by (auto simp: entry_move_tree)
qed

lemma demo_quarantine:
  "\<exists>w'. quarantineTo renameNoReplace demo_jworld [''d'', ''.incoming'', ''a''] [''d'', ''a''] = (Inr [''d'', ''a.1''], w')"
proof -
  have "fst (quarantineTo renameNoReplace demo_jworld [''d'', ''.incoming'', ''a''] [''d'', ''a'']) = Inr [''d'', ''a.1'']"
    unfolding demo_jworld_def by code_simp
  then show ?thesis by (metis prod.collapse)
qed

theorem quarantine_never_replaces_witness:
  "\<exists>w'. quarantineTo renameNoReplace demo_jworld [''d'', ''.incoming'', ''a''] [''d'', ''a''] = (Inr [''d'', ''a.1''], w')
     \<and> entry w' [''d'', ''a''] = Some (Reg 4 ''x'' 9)"
proof -
  obtain w' where w': "quarantineTo renameNoReplace demo_jworld [''d'', ''.incoming'', ''a''] [''d'', ''a''] = (Inr [''d'', ''a.1''], w')"
    using demo_quarantine by blast
  have "entry demo_jworld [''d'', ''.incoming'', ''a''] = Some (Reg 3 ''abc'' 7)" by (simp add: demo_jentry)
  from quarantine_never_replaces [OF demo_jwf this w'] w' show ?thesis by (simp add: demo_jentry)
qed

end
