(* ===== verification/DirJob.thy ===== *)
theory DirJob
  imports Job "HOL-Library.Multiset"
begin

text \<open>
  \<open>internal/node/dirjob.go\<close>: the operations of a folder model's job, whose one torrent covers a
  directory. The torrent's info dict is as the torrent library decodes it.
\<close>

section \<open>The torrent's files against the catalog\<close>

record tinfo =
  BestName :: string
  InfoIsDir :: bool
  UpvertedFiles :: "(string list \<times> int) list"

datatype dir_info_error = BadInfo | WrongName string | WrongCount nat nat | WrongFile string int

definition want_sizes :: "Model \<Rightarrow> string \<Rightarrow> int option" where
  "want_sizes m = foldl (\<lambda>wnt f. wnt(fName f \<mapsto> fSize f)) (\<lambda>_. None) (Files m)"

fun check_info_files :: "(string \<Rightarrow> int option) \<Rightarrow> (string list \<times> int) list \<Rightarrow> dir_info_error option" where
  "check_info_files wnt [] = None"
| "check_info_files wnt ((comps, len) # fs) =
     (let p = Join ''/'' comps
      in case wnt p of
           None \<Rightarrow> Some (WrongFile p len)
         | Some sz \<Rightarrow> if sz \<noteq> len then Some (WrongFile p len) else check_info_files (wnt(p := None)) fs)"

definition checkDirInfo :: "tinfo option \<Rightarrow> Model \<Rightarrow> dir_info_error option" where
  "checkDirInfo info m =
     (case info of
        None \<Rightarrow> Some BadInfo
      | Some i \<Rightarrow>
          if BestName i \<noteq> Revision m then Some (WrongName (BestName i))
          else if \<not> InfoIsDir i \<or> length (UpvertedFiles i) \<noteq> length (remdups (map fName (Files m)))
          then Some (WrongCount (length (UpvertedFiles i)) (length (remdups (map fName (Files m)))))
          else check_info_files (want_sizes m) (UpvertedFiles i))"

section \<open>Looking for a local folder\<close>

fun check_sizes :: "world \<Rightarrow> path \<Rightarrow> File list \<Rightarrow> job_error option" where
  "check_sizes w root [] = None"
| "check_sizes w root (f # fs) =
     (let p = join_rel root (fName f)
      in case Stat w p of
           Inl e \<Rightarrow> Some (FileMissing root (fName f) e)
         | Inr fi \<Rightarrow>
             if \<not> is_reg fi then Some (FileNotRegular root (fName f))
             else if fi_size fi \<noteq> fSize f then Some (SizeMismatch p (fi_size fi) (fSize f))
             else check_sizes w root fs)"

fun check_hashes :: "jenv \<Rightarrow> world \<Rightarrow> path \<Rightarrow> File list \<Rightarrow> verdict" where
  "check_hashes E w root [] = Verified"
| "check_hashes E w root (f # fs) =
     (let p = join_rel root (fName f)
      in if stopped_at E p then Unverified Stopped
         else case hash_sum (hash E w p) of
           None \<Rightarrow> Unverified (HashError p)
         | Some s \<Rightarrow>
             if s \<noteq> SHA256 f then Mismatch (ShaMismatch p s (SHA256 f)) else check_hashes E w root fs)"

definition verifyDir :: "jenv \<Rightarrow> world \<Rightarrow> Model \<Rightarrow> path \<Rightarrow> verdict" where
  "verifyDir E w m root =
     (case check_sizes w root (Files m) of
        Some e \<Rightarrow> Mismatch e
      | None \<Rightarrow> check_hashes E w root (Files m))"

definition statDirPath :: "world \<Rightarrow> path \<Rightarrow> job_error + fnode option" where
  "statDirPath w dp =
     (case Lstat w dp of
        Inl e \<Rightarrow> if is_not_exist e then Inr None else Inl (LstatFailed dp e)
      | Inr lfi \<Rightarrow>
          if is_dir lfi then Inr (Some lfi)
          else if \<not> is_sym lfi then Inl (NotDirectory dp)
          else case Stat w dp of
            Inl e \<Rightarrow> Inl (DanglingLink dp e)
          | Inr fi \<Rightarrow> if \<not> is_dir fi then Inl (LinkToNonDirectory dp) else Inr (Some fi))"

fun adopt_dir_loop :: "jenv \<Rightarrow> world \<Rightarrow> Model \<Rightarrow> path list \<Rightarrow> nat list \<Rightarrow> path option \<Rightarrow> path list
    \<Rightarrow> job_error + (path option \<times> path list)" where
  "adopt_dir_loop E w m [] kept found dps = Inr (found, dps)"
| "adopt_dir_loop E w m (p # ps) kept found dps =
     (if stopped_at E p then Inl Stopped
      else case Stat w p of
        Inl _ \<Rightarrow> adopt_dir_loop E w m ps kept found dps
      | Inr fi \<Rightarrow>
          if \<not> is_dir fi \<or> inode fi \<in> set kept then adopt_dir_loop E w m ps kept found dps
          else (case verifyDir E w m p of
                  Verified \<Rightarrow>
                    (case found of
                       None \<Rightarrow> adopt_dir_loop E w m ps (kept @ [inode fi]) (Some p) dps
                     | Some q \<Rightarrow> adopt_dir_loop E w m ps (kept @ [inode fi]) (Some q) (dps @ [p]))
                | Mismatch _ \<Rightarrow> adopt_dir_loop E w m ps kept found dps
                | Unverified _ \<Rightarrow> adopt_dir_loop E w m ps kept found dps))"

definition findLocalDir :: "jenv \<Rightarrow> io \<Rightarrow> job \<Rightarrow> Model \<Rightarrow> (job_error + (path option \<times> path list)) \<times> job \<times> io" where
  "findLocalDir E S j m =
     (let dp = dataPath E j; w = wd S; ih = fInfoHash (jf j);
          go = (\<lambda>kept found. adopt_dir_loop E w m (adopt j) kept found [])
      in case statDirPath w dp of
           Inl e \<Rightarrow>
             (case staleOwnDownload E S dp ih of
                None \<Rightarrow> (Inl e, j, S)
              | Some old \<Rightarrow> (go [] None, j\<lparr>replaceIH := Some old\<rparr>, S))
         | Inr None \<Rightarrow> (go [] None, j, S)
         | Inr (Some fi) \<Rightarrow>
             (case verifyDir E w m dp of
                Verified \<Rightarrow> (let (j', S') = claimRecord E S j dp in (go [inode fi] (Some dp), j', S'))
              | Unverified e \<Rightarrow> (Inl e, j, S)
              | Mismatch e \<Rightarrow>
                  (case staleOwnDownload E S dp ih of
                     None \<Rightarrow> (Inl e, j, S)
                   | Some old \<Rightarrow> (go [] None, j\<lparr>replaceIH := Some old\<rparr>, S))))"

section \<open>The incoming directory\<close>

definition incomingOwner :: "jenv \<Rightarrow> job \<Rightarrow> path" where
  "incomingOwner E j = incomingDir E @ [''.'' @ DiskName (jf j) @ ''.infohash'']"

definition prepareIncomingDir :: "jenv \<Rightarrow> io \<Rightarrow> job \<Rightarrow> job_error option \<times> io" where
  "prepareIncomingDir E S j =
     (let owner = incomingOwner E j; inc = incomingPath E j;
          write = (\<lambda>w. case MkdirAll w (incomingDir E) of
                     (Some e, w') \<Rightarrow> (Some (Errno e), S\<lparr>wd := w'\<rparr>)
                   | (None, w') \<Rightarrow> (case WriteFile w' owner (fInfoHash (jf j) @ [CHR 0x0A]) of
                        (e, w'') \<Rightarrow> (map_option Errno e, S\<lparr>wd := w''\<rparr>)))
      in if (case ReadFile (wd S) owner of Inr b \<Rightarrow> TrimSpace b = fInfoHash (jf j) | Inl _ \<Rightarrow> False) then (None, S)
         else case Lstat (wd S) inc of
           Inl _ \<Rightarrow> write (wd S)
         | Inr _ \<Rightarrow>
             (case RemoveAll (wd S) inc of
                (Some e, w) \<Rightarrow> (Some (RemoveStaleFailed inc e), S\<lparr>wd := w\<rparr>)
              | (None, w) \<Rightarrow> write w))"

text \<open>The callback of \<open>pruneExtras\<close>: the walk has read each directory before it visits its entries, so
  removing files on the way does not change what is visited.\<close>

fun prune_walk :: "world \<Rightarrow> path \<Rightarrow> (string \<Rightarrow> bool) \<Rightarrow> walk_event list \<Rightarrow> path list \<Rightarrow> errno option
    \<Rightarrow> path list \<times> errno option \<times> world" where
  "prune_walk w root wnt [] ds err = (ds, err, w)"
| "prune_walk w root wnt (WalkErr s e # evs) ds err = prune_walk w root wnt evs ds (if err = None then Some e else err)"
| "prune_walk w root wnt (Visit s n # evs) ds err =
     (if is_dir n then prune_walk w root wnt evs (if s = [] then ds else ds @ [root @ s]) err
      else if wnt (ToSlash s) then prune_walk w root wnt evs ds err
      else (case Remove w (root @ s) of
              (None, w') \<Rightarrow> prune_walk w' root wnt evs ds err
            | (Some e, w') \<Rightarrow> prune_walk w' root wnt evs ds (if err = None then Some e else err)))"

definition pruneExtras :: "world \<Rightarrow> path \<Rightarrow> (string \<Rightarrow> bool) \<Rightarrow> errno option \<times> world" where
  "pruneExtras w root wnt =
     (case prune_walk w root wnt (WalkDir w root) [] None of
        (ds, Some e, w') \<Rightarrow> (Some e, w')
      | (ds, None, w') \<Rightarrow> removeEmptyDirs w' ds)"

section \<open>Promoting a folder\<close>

definition replacedMarker :: string where
  "replacedMarker = ''.replaced.''"

definition aside_path :: "jenv \<Rightarrow> job \<Rightarrow> path" where
  "aside_path E j = incomingDir E @ [''.'' @ DiskName (jf j) @ replacedMarker @ itoa (now_ns E)]"

definition move_in :: "jenv \<Rightarrow> io \<Rightarrow> path \<Rightarrow> path \<Rightarrow> (string \<times> path) option \<Rightarrow> job_error option \<times> io" where
  "move_in E S incoming final aside =
     (case renameNoReplace (wd S) incoming final of
        (Some e, w) \<Rightarrow>
          (let err = (if is_exist e then DestinationExists final incoming else Errno e)
           in case aside of
                None \<Rightarrow> (Some err, S\<lparr>wd := w\<rparr>)
              | Some (old, a) \<Rightarrow>
                  (case renameNoReplace w a final of
                     (None, w') \<Rightarrow> (Some err, S\<lparr>wd := w'\<rparr>)
                   | (Some be, w') \<Rightarrow> (Some (NotMovedBack a be), S\<lparr>wd := w'\<rparr>)))
      | (None, w) \<Rightarrow>
          (case aside of
             None \<Rightarrow> (None, S\<lparr>wd := w\<rparr>)
           | Some (old, a) \<Rightarrow>
               (None, S\<lparr>wd := snd (RemoveAll w a), dl := snd (Delete (codec E) (dl S) old)\<rparr>)))"

definition promoteDir :: "jenv \<Rightarrow> io \<Rightarrow> job \<Rightarrow> path \<Rightarrow> path \<Rightarrow> job_error option \<times> io" where
  "promoteDir E S j incoming final =
     (case replaceIH j of
        None \<Rightarrow> move_in E S incoming final None
      | Some old \<Rightarrow>
          if staleOwnDownload E S final (fInfoHash (jf j)) = Some old
          then (case renameNoReplace (wd S) final (aside_path E j) of
                  (Some e, w) \<Rightarrow> (Some (MoveAsideFailed final e), S\<lparr>wd := w\<rparr>)
                | (None, w) \<Rightarrow> move_in E (S\<lparr>wd := w\<rparr>) incoming final (Some (old, aside_path E j)))
          else move_in E S incoming final None)"

fun clean_entries :: "world \<Rightarrow> path \<Rightarrow> (string \<times> fnode) list \<Rightarrow> world" where
  "clean_entries w dir [] = w"
| "clean_entries w dir ((c, n) # es) =
     (if is_dir n \<and> HasPrefix c ''.'' \<and> Contains c replacedMarker
      then clean_entries (snd (RemoveAll w (dir @ [c]))) dir es
      else clean_entries w dir es)"

definition cleanReplaced :: "world \<Rightarrow> path \<Rightarrow> world" where
  "cleanReplaced w dd =
     (let dir = dd @ [''.incoming'']
      in case ReadDir w dir of Inl _ \<Rightarrow> w | Inr es \<Rightarrow> clean_entries w dir es)"

section \<open>Finishing a folder download\<close>

definition quarantineDir :: "jenv \<Rightarrow> io \<Rightarrow> job \<Rightarrow> string \<Rightarrow> nat \<Rightarrow> job_error \<times> io" where
  "quarantineDir E S j got n =
     (case MkdirAll (wd S) (quarantine_dir E) of
        (Some e, w) \<Rightarrow> (QuarantineFailed got e, S\<lparr>wd := w\<rparr>)
      | (None, w) \<Rightarrow>
          (case quarantineTo renameNoReplace w (incomingPath E j) (quarantine_dst E j got) of
             (Inl e, w') \<Rightarrow> (QuarantineFailed got e, S\<lparr>wd := w'\<rparr>)
           | (Inr dst, w') \<Rightarrow>
               (case Remove w' (incomingOwner E j) of
                  (_, w'') \<Rightarrow>
                    (case forgetPieces E j n (pieces S) of
                       (forgotten, pc) \<Rightarrow> (Quarantined got dst forgotten, S\<lparr>wd := w'', pieces := pc\<rparr>)))))"

text \<open>Hashing the files of a completed folder: the sums, or why there are none.\<close>

datatype sums_result = Sums "(string \<times> string) list" | SumError path | SumStopped | SumWrong string

fun hash_all :: "jenv \<Rightarrow> world \<Rightarrow> path \<Rightarrow> File list \<Rightarrow> sums_result" where
  "hash_all E w root [] = Sums []"
| "hash_all E w root (f # fs) =
     (let p = join_rel root (fName f)
      in case hash_file E w p of
           None \<Rightarrow> SumError p
         | Some s \<Rightarrow>
             if stopped_in E p then SumStopped
             else if s \<noteq> SHA256 f then SumWrong s
             else (case hash_all E w root fs of Sums xs \<Rightarrow> Sums ((fName f, s) # xs) | r \<Rightarrow> r))"

definition record_dir :: "jenv \<Rightarrow> io \<Rightarrow> job \<Rightarrow> Model \<Rightarrow> path \<Rightarrow> (string \<times> string) list \<Rightarrow> io" where
  "record_dir E S j m final sums =
     (let S1 = S\<lparr>hput := hput S @ map (\<lambda>(n, s). (join_rel final n, s)) sums\<rparr>
      in case recordDir (wd S) final (map fName (Files m)) of
           Inl _ \<Rightarrow> S1
         | Inr rec \<Rightarrow> S1\<lparr>dl := snd (Put (codec E) (dl S) (fInfoHash (jf j)) rec)\<rparr>)"

definition finishDir :: "jenv \<Rightarrow> io \<Rightarrow> job \<Rightarrow> Model \<Rightarrow> bool \<Rightarrow> nat \<Rightarrow> path option \<times> job \<times> io" where
  "finishDir E S j m stopping n =
     (let inc = incomingPath E j; final = dataPath E j; j = set_state StateVerifying None None j
      in case pruneExtras (wd S) inc (\<lambda>c. c \<in> set (map fName (Files m))) of
           (Some e, w) \<Rightarrow> (None, fail stopping (Errno e) j, S\<lparr>wd := w\<rparr>)
         | (None, w) \<Rightarrow>
             (case hash_all E w inc (Files m) of
                SumError p \<Rightarrow> (None, fail stopping (HashError p) j, S\<lparr>wd := w\<rparr>)
              | SumStopped \<Rightarrow> (None, j, S\<lparr>wd := w\<rparr>)
              | SumWrong got \<Rightarrow> (case quarantineDir E (S\<lparr>wd := w\<rparr>) j got n of (e, S') \<Rightarrow> (None, fail stopping e j, S'))
              | Sums sums \<Rightarrow>
                  (case promoteDir E (S\<lparr>wd := w\<rparr>) j inc final of
                     (Some e, S') \<Rightarrow> (None, fail stopping e j, S')
                   | (None, S') \<Rightarrow>
                       (Some final, j\<lparr>downloaded := True\<rparr>,
                        record_dir E (S'\<lparr>wd := snd (Remove (wd S') (incomingOwner E j))\<rparr>) j m final sums))))"

section \<open>The end of a job\<close>

definition cleanup :: "jenv \<Rightarrow> io \<Rightarrow> job \<Rightarrow> io" where
  "cleanup E S j =
     (if \<not> prune j then S
      else let w = (if jdir j \<noteq> None
                    then snd (Remove (snd (RemoveAll (wd S) (incomingPath E j))) (incomingOwner E j))
                    else snd (Remove (wd S) (incomingPath E j)));
               S1 = S\<lparr>wd := w\<rparr>
           in if downloaded j then pruneDataPathIfUnchanged E S1 j else S1)"

section \<open>Lemmas: the torrent's files\<close>

definition listed :: "tinfo \<Rightarrow> (string \<times> int) list" where
  "listed i = map (\<lambda>(comps, len). (Join ''/'' comps, len)) (UpvertedFiles i)"

definition catalogued :: "Model \<Rightarrow> (string \<times> int) list" where
  "catalogued m = map (\<lambda>f. (fName f, fSize f)) (Files m)"

lemma want_sizes_eq: "want_sizes m = map_of (rev (catalogued m))"
proof -
  have "foldl (\<lambda>wnt f. wnt(fName f \<mapsto> fSize f)) m0 fs = m0 ++ map_of (rev (map (\<lambda>f. (fName f, fSize f)) fs))" for fs m0
    by (induction fs arbitrary: m0) (auto simp: map_add_def fun_eq_iff split: option.splits)
  from this [of "\<lambda>_. None" "Files m"] show ?thesis
    by (simp add: want_sizes_def catalogued_def empty_map_add [unfolded fun_eq_iff] map_add_def split: option.splits)
qed

lemma all_upd_None:
  "(\<forall>(q, l)\<in>set ps. (wnt(p := None)) q = Some l) \<longleftrightarrow> p \<notin> fst ` set ps \<and> (\<forall>(q, l)\<in>set ps. wnt q = Some l)"
  by (induction ps) (auto split: if_splits)

lemma check_info_files_None:
  "check_info_files wnt fs = None \<longleftrightarrow>
     distinct (map fst (map (\<lambda>(c, l). (Join ''/'' c, l)) fs)) \<and> (\<forall>(p, l)\<in>set (map (\<lambda>(c, l). (Join ''/'' c, l)) fs). wnt p = Some l)"
proof (induction wnt fs rule: check_info_files.induct)
  case (2 wnt comps len fs)
  let ?p = "Join ''/'' comps" and ?ps = "map (\<lambda>(c, l). (Join ''/'' c, l)) fs"
  show ?case
  proof (cases "wnt ?p = Some len")
    case True
    then have "check_info_files wnt ((comps, len) # fs) = None \<longleftrightarrow>
        distinct (map fst ?ps) \<and> (\<forall>(q, l)\<in>set ?ps. (wnt(?p := None)) q = Some l)"
      using 2 [OF refl True] by (simp add: Let_def del: map_map fun_upd_apply)
    also have "(\<forall>(q, l)\<in>set ?ps. (wnt(?p := None)) q = Some l) \<longleftrightarrow>
        ?p \<notin> fst ` set ?ps \<and> (\<forall>(q, l)\<in>set ?ps. wnt q = Some l)"
      by (rule all_upd_None)
    finally show ?thesis using True by (simp add: conj_ac del: map_map)
  next
    case False
    then show ?thesis by (auto simp: Let_def split: option.splits)
  qed
qed simp

lemma checkDirInfo_None:
  assumes "distinct (map fName (Files m))"
  shows "checkDirInfo (Some i) m = None \<longleftrightarrow> BestName i = Revision m \<and> InfoIsDir i \<and> mset (listed i) = mset (catalogued m)"
proof -
  let ?L = "listed i" and ?C = "catalogued m"
  have d: "distinct (map fst ?C)" using assms by (simp add: catalogued_def comp_def)
  then have w: "want_sizes m p = Some l \<longleftrightarrow> (p, l) \<in> set ?C" for p l
    by (simp add: want_sizes_eq map_of_eq_Some_iff rev_map [symmetric])
  have len: "length (remdups (map fName (Files m))) = length ?C" using assms by (simp add: catalogued_def distinct_remdups_id)
  have "checkDirInfo (Some i) m = None \<longleftrightarrow> BestName i = Revision m \<and> InfoIsDir i \<and> length ?L = length ?C
      \<and> distinct (map fst ?L) \<and> set ?L \<subseteq> set ?C"
    using w by (auto simp: checkDirInfo_def len check_info_files_None listed_def)
  moreover have "length ?L = length ?C \<and> distinct (map fst ?L) \<and> set ?L \<subseteq> set ?C \<longleftrightarrow> mset ?L = mset ?C"
  proof
    assume L: "length ?L = length ?C \<and> distinct (map fst ?L) \<and> set ?L \<subseteq> set ?C"
    then have "distinct ?L" "distinct ?C" using d by (auto simp: distinct_map)
    moreover from this L have "set ?L = set ?C" by (metis card_subset_eq distinct_card List.finite_set)
    ultimately show "mset ?L = mset ?C" by (simp add: set_eq_iff_mset_eq_distinct)
  next
    assume M: "mset ?L = mset ?C"
    then have "mset (map fst ?L) = mset (map fst ?C)" by simp
    with M d show "length ?L = length ?C \<and> distinct (map fst ?L) \<and> set ?L \<subseteq> set ?C"
      by (metis mset_eq_imp_distinct_iff mset_eq_length mset_eq_setD order_refl)
  qed
  ultimately show ?thesis by blast
qed

section \<open>Lemmas: the search for a folder\<close>

definition dir_verified :: "jenv \<Rightarrow> world \<Rightarrow> Model \<Rightarrow> path \<Rightarrow> bool" where
  "dir_verified E w m root \<longleftrightarrow> (\<forall>f\<in>set (Files m).
     (\<exists>n. Stat w (join_rel root (fName f)) = Inr n \<and> is_reg n \<and> fi_size n = fSize f)
     \<and> hash_sum (hash E w (join_rel root (fName f))) = Some (SHA256 f))"

lemma check_sizes_None:
  "check_sizes w root fs = None \<longleftrightarrow>
     (\<forall>f\<in>set fs. \<exists>n. Stat w (join_rel root (fName f)) = Inr n \<and> is_reg n \<and> fi_size n = fSize f)"
  by (induction fs) (auto simp: Let_def split: sum.splits)

lemma check_hashes_Verified:
  "check_hashes E w root fs = Verified \<Longrightarrow> \<forall>f\<in>set fs. hash_sum (hash E w (join_rel root (fName f))) = Some (SHA256 f)"
  by (induction fs) (auto simp: Let_def split: if_splits option.splits)

lemma verifyDir_Verified: "verifyDir E w m root = Verified \<Longrightarrow> dir_verified E w m root"
  by (auto simp: verifyDir_def dir_verified_def check_sizes_None dest: check_hashes_Verified split: option.splits)

lemma adopt_dir_step:
  assumes "adopt_dir_loop E w m (p # ps) kept found dps = Inr r"
  shows "adopt_dir_loop E w m ps kept found dps = Inr r \<or>
    (\<exists>fi. Stat w p = Inr fi \<and> inode fi \<notin> set kept \<and> dir_verified E w m p
       \<and> adopt_dir_loop E w m ps (kept @ [inode fi]) (Some (case found of None \<Rightarrow> p | Some q \<Rightarrow> q))
            (case found of None \<Rightarrow> dps | Some _ \<Rightarrow> dps @ [p]) = Inr r)"
  using assms by (auto dest: verifyDir_Verified split: sum.splits option.splits if_splits verdict.splits)


interpretation dir_adoption: adoption w "adopt_dir_loop E w m" "dir_verified E w m"
  for E :: jenv and w :: world and m :: Model
proof
  show "adopt_dir_loop E w m [] kept found dps = Inr r \<Longrightarrow> r = (found, dps)" for kept found dps r
    by simp
qed (erule adopt_dir_step)

lemma statDirPath_ino:
  assumes "statDirPath w dp = Inr (Some fi)"
  shows "ino_of w dp = Some (inode fi)"
proof -
  have "Lstat w dp = Inr fi \<and> is_dir fi \<or> Stat w dp = Inr fi"
    using assms by (auto simp: statDirPath_def split: sum.splits if_splits)
  then show ?thesis using Lstat_ino [of w dp fi] Stat_ino [of w dp fi] is_dir_not_sym by blast
qed

lemma findLocalDir_wd: "findLocalDir E S j m = (r, j', S') \<Longrightarrow> wd S' = wd S"
  by (auto simp: findLocalDir_def Let_def dest: claimRecord_wd_eq
      split: sum.splits option.splits verdict.splits prod.splits)

lemma findLocalDir_sound:
  assumes "findLocalDir E S j m = (Inr (found, dps), j', S')"
  shows "(\<forall>p\<in>set (copies found dps). dir_verified E (wd S) m p)
     \<and> distinct (map (ino_of (wd S)) (copies found dps)) \<and> (found = None \<longrightarrow> dps = [])"
proof -
  note none = dir_adoption.search_none [of E "wd S" m "adopt j" found dps]
  note some = dir_adoption.search_some [of E "wd S" m "adopt j" _ "dataPath E j" found dps]
  show ?thesis
    using assms none some
    by (auto simp: findLocalDir_def Let_def split: sum.splits option.splits verdict.splits prod.splits
        dest!: statDirPath_ino verifyDir_Verified)
qed

section \<open>Lemmas: moving trees\<close>

lemma real_path_move:
  assumes "real_path w s" "\<not> prefix p q" "\<not> prefix q p" "\<not> strict_prefix p s" "\<not> strict_prefix q s"
  shows "real_path (move_tree w p q) s"
proof -
  have "entry (move_tree w p q) x = entry w x" if "strict_prefix x s" for x
  proof -
    have "\<not> prefix q x" "\<not> prefix p x"
      using that assms(4,5) by (meson prefix_order.le_less_trans)+
    then show ?thesis using assms by (simp add: entry_move_tree)
  qed
  then show ?thesis using assms(1) by (simp add: real_path_def)
qed

lemma wf_below_None: "wf_world w \<Longrightarrow> entry w p = None \<Longrightarrow> prefix p s \<Longrightarrow> entry w s = None"
proof (rule ccontr)
  assume "wf_world w" "entry w p = None" "prefix p s" "entry w s \<noteq> None"
  moreover from this have "strict_prefix p s" by (auto simp: strict_prefix_def)
  ultimately show False using wf_entry(1) [of w s] by (auto simp: real_path_def)
qed

lemma rename_real:
  assumes "renameNoReplace w p q = (r, w')" "real_path w p" "real_path w q"
  shows "r \<noteq> None \<and> w' = w \<or> r = None \<and> entry w p \<noteq> None \<and> entry w q = None \<and> \<not> prefix p q \<and> \<not> prefix q p
     \<and> w' = move_tree w p q"
proof (cases r)
  case None
  with linux.mv_moved [of w p q w'] assms show ?thesis by auto
next
  case (Some e)
  with linux.mv_failed assms show ?thesis by blast
qed

text \<open>Three places none of which lies in another.\<close>

definition apart :: "path \<Rightarrow> path \<Rightarrow> bool" where
  "apart p q \<longleftrightarrow> \<not> prefix p q \<and> \<not> prefix q p"

lemma apart_no: "apart p q \<Longrightarrow> \<not> prefix p (q @ s)"
  unfolding apart_def by (meson prefixI prefix_same_cases)

lemma apart_sym: "apart p q \<longleftrightarrow> apart q p"
  by (auto simp: apart_def)

lemma entry_move_apart:
  assumes "apart p q"
  shows "entry (move_tree w p q) (q @ s) = entry w (p @ s)" "entry (move_tree w p q) (p @ s) = None"
    "\<not> prefix p x \<Longrightarrow> \<not> prefix q x \<Longrightarrow> entry (move_tree w p q) x = entry w x"
    "apart p x \<Longrightarrow> apart q x \<Longrightarrow> entry (move_tree w p q) (x @ s) = entry w (x @ s)"
  using assms apart_no [of q p s] apart_no [of p x s] apart_no [of q x s]
  by (simp_all add: apart_def entry_move_tree)

lemma move_back:
  assumes "wf_world w" "apart p q" "entry w q = None"
  shows "entry (move_tree (move_tree w p q) q p) s = entry w s"
proof -
  have qp: "\<not> prefix q p" "\<not> prefix p q" using assms(2) by (auto simp: apart_def)
  consider (p) t where "s = p @ t" | (q) t where "s = q @ t" | (o) "\<not> prefix p s" "\<not> prefix q s"
    by (auto elim: prefixE)
  then show ?thesis
  proof cases
    case p
    then show ?thesis using entry_move_apart [of q p] entry_move_apart [OF assms(2)] assms(2) by (simp add: apart_sym)
  next
    case q
    then show ?thesis using entry_move_apart(2) [of q p "move_tree w p q" t] assms wf_below_None [OF assms(1,3), of s]
      by (simp add: apart_sym)
  next
    case o
    then show ?thesis using entry_move_apart(3) [of q p s "move_tree w p q"] entry_move_apart(3) [OF assms(2)] assms(2)
      by (simp add: apart_sym)
  qed
qed


section \<open>Lemmas: promoting a folder\<close>

text \<open>What may have become of the three places when \<open>promoteDir\<close> is done.\<close>

definition same_tree :: "world \<Rightarrow> path \<Rightarrow> world \<Rightarrow> path \<Rightarrow> bool" where
  "same_tree w p w' q \<longleftrightarrow> (\<forall>s. entry w' (q @ s) = entry w (p @ s))"

definition dir_moved :: "world \<Rightarrow> world \<Rightarrow> path \<Rightarrow> path \<Rightarrow> path \<Rightarrow> job_error option \<Rightarrow> bool" where
  "dir_moved w w' incoming final aside r \<longleftrightarrow>
     (\<forall>s. \<not> prefix incoming s \<and> \<not> prefix final s \<and> \<not> prefix aside s \<longrightarrow> entry w' s = entry w s)
   \<and> (r = None \<longrightarrow> same_tree w incoming w' final \<and> entry w' incoming = None)
   \<and> (r \<noteq> None \<longrightarrow> same_tree w incoming w' incoming)
   \<and> (r \<noteq> None \<longrightarrow> (\<forall>s. entry w' s = entry w s) \<or> (\<exists>e. r = Some (NotMovedBack aside e)) \<and> same_tree w final w' aside)"

definition places :: "world \<Rightarrow> path \<Rightarrow> path \<Rightarrow> path \<Rightarrow> bool" where
  "places w incoming final aside \<longleftrightarrow> wf_world w
     \<and> real_path w incoming \<and> real_path w final \<and> real_path w aside
     \<and> apart incoming final \<and> apart incoming aside \<and> apart final aside"

lemma placesD:
  assumes "places w incoming final aside"
  shows "wf_world w" "real_path w incoming" "real_path w final" "real_path w aside"
    "apart incoming final" "apart incoming aside" "apart final aside"
  using assms by (simp_all add: places_def)

lemma real_after_aside:
  assumes "places w incoming final aside"
  shows "real_path (move_tree w final aside) incoming" "real_path (move_tree w final aside) final"
    "real_path (move_tree w final aside) aside"
  using placesD [OF assms] by (auto intro!: real_path_move simp: apart_def prefix_order.less_imp_le strict_prefix_def)

lemma move_in_plain:
  assumes pl: "places w incoming final aside" and "wd S = w" "move_in E S incoming final None = (r, S')"
  shows "dir_moved w (wd S') incoming final aside r \<and> (entry w final \<noteq> None \<longrightarrow> wd S' = w \<and> r \<noteq> None) \<and> dl S' = dl S"
proof -
  note ap = placesD(5-7) [OF pl]
  obtain r1 w1 where mv: "renameNoReplace w incoming final = (r1, w1)" by force
  from rename_real [OF mv placesD(2,3) [OF pl]] show ?thesis
  proof
    assume "r1 \<noteq> None \<and> w1 = w"
    with assms mv show ?thesis by (auto simp: move_in_def dir_moved_def same_tree_def Let_def)
  next
    assume "r1 = None \<and> entry w incoming \<noteq> None \<and> entry w final = None \<and> \<not> prefix incoming final
      \<and> \<not> prefix final incoming \<and> w1 = move_tree w incoming final"
    moreover from this assms mv have "r = None" "wd S' = move_tree w incoming final" "dl S' = dl S"
      by (auto simp: move_in_def)
    ultimately show ?thesis using entry_move_apart [OF ap(1)] entry_move_apart(2) [OF ap(1), where w = w and s = "[]"]
      by (simp add: dir_moved_def same_tree_def)
  qed
qed

lemma move_in_aside:
  assumes pl: "places w incoming final aside" and S: "wd S = move_tree w final aside" and free: "entry w aside = None"
    and mi: "move_in E S incoming final (Some (old, aside)) = (r, S')"
  shows "dir_moved w (wd S') incoming final aside r"
proof -
  let ?w1 = "move_tree w final aside"
  note ap = placesD(5-7) [OF pl] and real_after_aside = real_after_aside [OF pl]
  note e1 = entry_move_apart [OF ap(3), where w = w]
  have inc1: "entry ?w1 (incoming @ s) = entry w (incoming @ s)" for s
    using entry_move_apart(4) [OF ap(3), where w = w and x = incoming and s = s] ap by (simp add: apart_sym)
  obtain r1 w2 where mv: "renameNoReplace ?w1 incoming final = (r1, w2)" by force
  from rename_real [OF mv real_after_aside(1,2)] show ?thesis
  proof
    assume f: "r1 \<noteq> None \<and> w2 = ?w1"
    obtain r2 w3 where mb: "renameNoReplace ?w1 aside final = (r2, w3)" by force
    have res: "wd S' = w3" "r \<noteq> None" "r2 \<noteq> None \<Longrightarrow> \<exists>e. r = Some (NotMovedBack aside e)"
      using mi S mv f mb by (auto simp: move_in_def Let_def split: option.splits)
    from rename_real [OF mb real_after_aside(3,2)] show ?thesis
    proof
      assume "r2 \<noteq> None \<and> w3 = ?w1"
      with res e1 inc1 show ?thesis by (auto simp: dir_moved_def same_tree_def)
    next
      assume "r2 = None \<and> entry ?w1 aside \<noteq> None \<and> entry ?w1 final = None \<and> \<not> prefix aside final
        \<and> \<not> prefix final aside \<and> w3 = move_tree ?w1 aside final"
      then have "entry w3 s = entry w s" for s using move_back [OF placesD(1) [OF pl] ap(3) free] by simp
      with res show ?thesis by (auto simp: dir_moved_def same_tree_def)
    qed
  next
    assume f: "r1 = None \<and> entry ?w1 incoming \<noteq> None \<and> entry ?w1 final = None \<and> \<not> prefix incoming final
      \<and> \<not> prefix final incoming \<and> w2 = move_tree ?w1 incoming final"
    have res: "r = None" "wd S' = snd (RemoveAll w2 aside)"
      using mi S mv f by (auto simp: move_in_def)
    have "real_path w2 aside"
      using real_after_aside(3) f ap by (auto intro!: real_path_move simp: apart_def dest: prefix_order.less_imp_le)
    then have out: "entry (wd S') s = entry w2 s" if "\<not> prefix aside s" for s
      using RemoveAll_outside [of w2 aside _ "wd S'" s] that res(2) by (metis prod.collapse resolve_real sum.inject(2))
    note e2 = entry_move_apart [OF ap(1), where w = ?w1]
    have "entry (wd S') (final @ s) = entry w (incoming @ s)" for s
      using out [of "final @ s"] apart_no [of aside final s] ap f e2(1) inc1 by (simp add: apart_sym)
    moreover have "entry (wd S') incoming = None"
      using out [of incoming] ap f e2(2) [where s = "[]"] by (simp add: apart_def)
    moreover have "entry (wd S') s = entry w s" if "\<not> prefix incoming s" "\<not> prefix final s" "\<not> prefix aside s" for s
      using out [OF that(3)] e2(3) [OF that(1,2)] e1(3) [OF that(2,3)] f by simp
    ultimately show ?thesis using res(1) by (simp add: dir_moved_def same_tree_def)
  qed
qed

lemma promoteDir_moved:
  assumes pl: "places (wd S) incoming final (aside_path E j)"
    and res: "promoteDir E S j incoming final = (r, S')"
  shows "dir_moved (wd S) (wd S') incoming final (aside_path E j) r"
    and "entry (wd S) final = Some n \<Longrightarrow> replaceIH j = None \<or> staleOwnDownload E S final (fInfoHash (jf j)) \<noteq> replaceIH j \<Longrightarrow>
      wd S' = wd S \<and> dl S' = dl S \<and> r \<noteq> None"
proof -
  note plain = move_in_plain [OF pl refl]
  show "entry (wd S) final = Some n \<Longrightarrow> replaceIH j = None \<or> staleOwnDownload E S final (fInfoHash (jf j)) \<noteq> replaceIH j \<Longrightarrow>
      wd S' = wd S \<and> dl S' = dl S \<and> r \<noteq> None"
    using res plain by (auto simp: promoteDir_def split: option.splits)
  show "dir_moved (wd S) (wd S') incoming final (aside_path E j) r"
  proof (cases "replaceIH j \<noteq> None \<and> staleOwnDownload E S final (fInfoHash (jf j)) = replaceIH j")
    case False
    with res plain show ?thesis by (auto simp: promoteDir_def split: option.splits if_splits)
  next
    case True
    then obtain old where old: "replaceIH j = Some old" by auto
    obtain r1 w1 where mv: "renameNoReplace (wd S) final (aside_path E j) = (r1, w1)" by force
    from rename_real [OF mv placesD(3,4) [OF pl]] show ?thesis
    proof
      assume "r1 \<noteq> None \<and> w1 = wd S"
      with True res mv old show ?thesis by (auto simp: promoteDir_def dir_moved_def same_tree_def)
    next
      assume m: "r1 = None \<and> entry (wd S) final \<noteq> None \<and> entry (wd S) (aside_path E j) = None
        \<and> \<not> prefix final (aside_path E j) \<and> \<not> prefix (aside_path E j) final \<and> w1 = move_tree (wd S) final (aside_path E j)"
      with True res mv old have "move_in E (S\<lparr>wd := w1\<rparr>) incoming final (Some (old, aside_path E j)) = (r, S')"
        by (simp add: promoteDir_def)
      from move_in_aside [OF pl _ _ this] m show ?thesis by simp
    qed
  qed
qed


section \<open>Lemmas: cleaning up\<close>

lemma RemoveAll_shrinks:
  assumes "RemoveAll w p = (r, w')" "plain_path w p" "\<And>s. prefix p s \<Longrightarrow> P s"
  shows "shrinks P w w'"
proof -
  have "faults w' = faults w" using assms(1) by (auto simp: RemoveAll_def split: sum.splits if_splits)
  moreover have "entry w' s = entry w s \<or> entry w' s = None \<and> P s" for s
    using resolve_plain [OF assms(2)]
  proof
    assume "resolve w p False = Inr p"
    from RemoveAll_entry [OF assms(1) this, of s] assms(3) [of s] show ?thesis by auto
  next
    assume "resolve w p False = Inl ENOENT"
    with assms(1) show ?thesis by (auto simp: RemoveAll_def)
  qed
  ultimately show ?thesis by (simp add: shrinks_def)
qed

definition aside_name :: "string \<Rightarrow> bool" where
  "aside_name c \<longleftrightarrow> HasPrefix c ''.'' \<and> Contains c replacedMarker"

lemma clean_entries_shrinks:
  assumes "\<And>c n. (c, n) \<in> set es \<Longrightarrow> plain_path w (dir @ [c])"
  shows "shrinks (\<lambda>s. \<exists>c. aside_name c \<and> prefix (dir @ [c]) s) w (clean_entries w dir es)"
  using assms
proof (induction es arbitrary: w)
  case Nil
  then show ?case by simp
next
  case (Cons e es)
  obtain c n where e: "e = (c, n)" by force
  let ?P = "\<lambda>s. \<exists>c. aside_name c \<and> prefix (dir @ [c]) s"
  show ?case
  proof (cases "is_dir n \<and> aside_name c")
    case True
    obtain r w1 where rm: "RemoveAll w (dir @ [c]) = (r, w1)" by force
    have s1: "shrinks ?P w w1"
      by (rule RemoveAll_shrinks [OF rm]) (use Cons.prems e True in auto)
    have "shrinks ?P w1 (clean_entries w1 dir es)"
      by (rule Cons.IH) (use Cons.prems plain_shrinks [OF _ s1] in auto)
    with s1 True e rm show ?thesis by (auto simp: aside_name_def intro: shrinks_trans)
  next
    case False
    have "shrinks ?P w (clean_entries w dir es)" by (rule Cons.IH) (use Cons.prems in auto)
    with False e show ?thesis by (auto simp: aside_name_def)
  qed
qed

lemma set_ReadDir:
  assumes "wf_world w" "real_path w p" "\<And>i t. entry w p \<noteq> Some (Sym i t)" "ReadDir w p = Inr es" "(c, n) \<in> set es"
  shows "entry w (p @ [c]) = Some n"
proof -
  have "resolve w p True = Inr p" using resolve_real_follow assms by blast
  with assms(4,5) show ?thesis
    by (auto simp: ReadDir_def split: option.splits if_splits list.splits)
qed

lemma cleanReplaced_shrinks:
  assumes wf: "wf_world w" and real: "real_path w (dd @ [''.incoming''])"
    and sym: "\<And>i t. entry w (dd @ [''.incoming'']) \<noteq> Some (Sym i t)"
  shows "shrinks (\<lambda>s. \<exists>c. aside_name c \<and> prefix (dd @ [''.incoming'', c]) s) w (cleanReplaced w dd)"
proof (cases "ReadDir w (dd @ [''.incoming''])")
  case (Inl e)
  then show ?thesis by (simp add: cleanReplaced_def)
next
  case (Inr es)
  have "plain_path w ((dd @ [''.incoming'']) @ [c])" if "(c, n) \<in> set es" for c n
    using set_ReadDir [OF wf real sym Inr that] wf_entry(1) [OF wf, of "(dd @ [''.incoming'']) @ [c]"]
    by (simp add: real_plain)
  from clean_entries_shrinks [OF this] Inr show ?thesis by (simp add: cleanReplaced_def)
qed

lemma prune_walk_shrinks:
  assumes "prune_walk w root wnt evs ds err = (ds', err', w')"
    and "\<And>s n. Visit s n \<in> set evs \<Longrightarrow> plain_path w (root @ s)"
  shows "shrinks (\<lambda>p. \<exists>s n. Visit s n \<in> set evs \<and> \<not> is_dir n \<and> \<not> wnt (ToSlash s) \<and> p = root @ s) w w'"
  using assms
proof (induction w root wnt evs ds err rule: prune_walk.induct)
  case (1 w root wnt ds err)
  then show ?case by simp
next
  case (2 w root wnt s e evs ds err)
  then show ?case by simp
next
  case (3 w root wnt s n evs ds err)
  let ?P = "\<lambda>evs p. \<exists>s n. Visit s n \<in> set evs \<and> \<not> is_dir n \<and> \<not> wnt (ToSlash s) \<and> p = root @ s"
  have mono: "shrinks (?P evs) v v' \<Longrightarrow> shrinks (?P (Visit s n # evs)) v v'" for v v'
    by (erule shrinks_mono) auto
  show ?case
  proof (cases "is_dir n \<or> wnt (ToSlash s)")
    case True
    with 3 mono show ?thesis by (auto split: if_splits)
  next
    case False
    obtain r w1 where rm: "Remove w (root @ s) = (r, w1)" by force
    have s1: "shrinks (?P (Visit s n # evs)) w w1"
      by (rule Remove_shrinks [OF rm]) (use 3(6) False in auto)
    have "plain_path w1 (root @ t)" if "Visit t k \<in> set evs" for t k
      using 3(6) [of t k] that plain_shrinks [OF _ s1] by simp
    then have "shrinks (?P evs) w1 w'"
      using 3(3,4,5) False rm by (cases r) auto
    from mono [OF this] s1 show ?thesis by (blast intro: shrinks_trans)
  qed
qed


lemma prune_walk_dirs:
  "prune_walk w root wnt evs ds err = (ds', err', w') \<Longrightarrow> d \<in> set ds' \<Longrightarrow>
     d \<in> set ds \<or> (\<exists>s n. Visit s n \<in> set evs \<and> is_dir n \<and> d = root @ s)"
proof (induction w root wnt evs ds err rule: prune_walk.induct)
  case (3 w root wnt s n evs ds err)
  then show ?case
    by (cases "Remove w (root @ s)"; cases "fst (Remove w (root @ s))") (auto split: if_splits)
qed auto

lemma wf_prune_walk: "wf_world w \<Longrightarrow> prune_walk w root wnt evs ds err = (ds', err', w') \<Longrightarrow> wf_world w'"
proof (induction w root wnt evs ds err rule: prune_walk.induct)
  case (3 w root wnt s n evs ds err)
  obtain r w1 where rm: "Remove w (root @ s) = (r, w1)" by force
  with 3 wf_Remove [OF 3(5) rm] show ?case by (cases r) (auto split: if_splits)
qed auto

text \<open>When no call fails, every unwanted file the walk visited is gone.\<close>

lemma prune_walk_quiet:
  assumes "prune_walk w root wnt evs ds None = (ds', err', w')" "wf_world w" "\<forall>c. fault w c = None" "root \<noteq> []"
    and "\<And>s e. WalkErr s e \<notin> set evs" "distinct (concat (map file_visit evs))"
    and "\<And>s n. Visit s n \<in> set evs \<Longrightarrow> entry w (root @ s) = Some n"
  shows "err' = None \<and> (\<forall>s n. Visit s n \<in> set evs \<and> \<not> is_dir n \<and> \<not> wnt (ToSlash s) \<longrightarrow> entry w' (root @ s) = None)"
  using assms
proof (induction w root wnt evs ds "None :: errno option" rule: prune_walk.induct)
  case (1 w root wnt ds)
  then show ?case by simp
next
  case (2 w root wnt s e evs ds)
  then show ?case using 2(6) [of s e] by simp
next
  case (3 w root wnt s n evs ds)
  show ?case
  proof (cases "is_dir n \<or> wnt (ToSlash s)")
    case True
    with 3 show ?thesis by (auto split: if_splits)
  next
    case False
    have n: "entry w (root @ s) = Some n" using 3(11) by simp
    have real: "resolve w (root @ s) False = Inr (root @ s)" using wf_entry(1) [OF 3(6), of "root @ s"] n by simp
    have rm: "Remove w (root @ s) = (None, del w (root @ s))"
      using real n False 3(7,8) by (cases n) (auto simp: Remove_def)
    have wf1: "wf_world (del w (root @ s))" using wf_Remove [OF 3(6) rm] .
    have new: "t \<noteq> s" if "Visit t k \<in> set evs" "\<not> is_dir k" for t k
      using 3(10) False that by (force simp: set_file_visits [symmetric])
    have keep: "entry (del w (root @ s)) (root @ t) = Some k" if "Visit t k \<in> set evs" for t k
      using 3(11) [of t k] that new [of t k] n False by (cases "is_dir k") auto
    have walk: "prune_walk (del w (root @ s)) root wnt evs ds None = (ds', err', w')"
      using 3(5) False rm by simp
    have ih: "err' = None \<and> (\<forall>s n. Visit s n \<in> set evs \<and> \<not> is_dir n \<and> \<not> wnt (ToSlash s) \<longrightarrow> entry w' (root @ s) = None)"
      using 3(3) [of None "del w (root @ s)"] False rm walk wf1 3(7-10) keep by simp
    have "shrinks (\<lambda>_. True) (del w (root @ s)) w'"
      by (rule shrinks_mono [OF prune_walk_shrinks [OF walk]])
         (use keep wf_entry(1) [OF wf1] real_plain in \<open>auto\<close>)
    from shrinksD [OF this, of "root @ s"] 3(8) have "entry w' (root @ s) = None" by auto
    with ih show ?thesis by auto
  qed
qed

lemma pruneExtras_exact:
  assumes wf: "wf_world w" and real: "real_path w root" and root: "root \<noteq> []" and i: "entry w root = Some (Dir i)"
    and quiet: "\<forall>c. fault w c = None" and res: "pruneExtras w root wnt = (r, w')"
  shows "r = None \<and> wf_world w' \<and> (\<forall>s. entry w' s = entry w s \<or> entry w' s = None \<and> prefix root s)
     \<and> files_under w' root = {s \<in> files_under w root. wnt (ToSlash s)}"
proof -
  let ?evs = "WalkDir w root"
  have l: "Lstat w root = Inr (Dir i)" "is_dir (Dir i)" using quiet real i by (simp_all add: Lstat_def)
  note rr = resolve_real [OF real]
  have ne: "WalkErr s e \<notin> set ?evs" for s e using quiet by (auto simp: WalkDir_dir [OF l rr] set_visit)
  have visit: "entry w (root @ s) = Some n \<longleftrightarrow> Visit s n \<in> set ?evs" for s n
    using walk_complete [OF wf root l rr ne] by (auto simp: WalkDir_dir [OF l rr] set_visit)
  have plain: "plain_path w (root @ s)" if "Visit s n \<in> set ?evs" for s n
    using wf_entry(1) [OF wf, of "root @ s"] visit [of s n] that real_plain by blast
  obtain ds e w1 where pw: "prune_walk w root wnt ?evs [] None = (ds, e, w1)" by (metis prod_cases3)
  have q: "e = None" and gone: "\<And>s n. Visit s n \<in> set ?evs \<Longrightarrow> \<not> is_dir n \<Longrightarrow> \<not> wnt (ToSlash s) \<Longrightarrow> entry w1 (root @ s) = None"
    using prune_walk_quiet [OF pw wf quiet root ne distinct_file_visits [OF l rr]] visit by blast+
  have s1: "shrinks (\<lambda>p. \<exists>s n. Visit s n \<in> set ?evs \<and> \<not> is_dir n \<and> \<not> wnt (ToSlash s) \<and> p = root @ s) w w1"
    using prune_walk_shrinks [OF pw] plain by blast
  have rm: "remove_dirs w1 (rev (sort_key path_strlen (remdups ds))) None = (r, w')"
    using res pw q by (simp add: pruneExtras_def removeEmptyDirs_def)
  have ds: "plain_path w1 d \<and> prefix root d \<and> (\<exists>k. entry w d = Some (Dir k))" if d: "d \<in> set ds" for d
  proof -
    obtain s n where s: "Visit s n \<in> set ?evs" "is_dir n" "d = root @ s" using prune_walk_dirs [OF pw d] by auto
    with visit [of s n] plain plain_shrinks [OF _ s1] show ?thesis by (cases n) auto
  qed
  have wf1: "wf_world w1" using wf_prune_walk [OF wf pw] .
  have s2: "shrinks (\<lambda>d. prefix root d \<and> (\<exists>k. entry w d = Some (Dir k))) w1 w'"
    by (rule remove_dirs_shrinks [OF rm]) (use ds in auto)
  have q1: "\<forall>c. fault w1 c = None" using quiet fault_shrinks [OF s1] by simp
  have "r = None" using remove_dirs_quiet [OF wf1 q1, of "rev (sort_key path_strlen (remdups ds))" None] ds rm by simp
  moreover have "wf_world w'" using wf_remove_dirs [OF wf1 rm] .
  moreover have "entry w' s = entry w s \<or> entry w' s = None \<and> prefix root s" for s
    using s1 s2 unfolding shrinks_def by (metis prefixI)
  moreover have "files_under w' root = {s \<in> files_under w root. wnt (ToSlash s)}"
  proof (intro set_eqI iffI)
    fix s assume "s \<in> files_under w' root"
    then obtain n where n: "entry w' (root @ s) = Some n" "\<not> is_dir n" by (auto simp: files_under_def)
    then have "entry w1 (root @ s) = Some n" "entry w (root @ s) = Some n"
      using shrinksD [OF s1, of "root @ s"] shrinksD [OF s2, of "root @ s"] by auto
    with n gone [of s n] visit [of s n] show "s \<in> {s \<in> files_under w root. wnt (ToSlash s)}" by (auto simp: files_under_def)
  next
    fix s assume "s \<in> {s \<in> files_under w root. wnt (ToSlash s)}"
    then obtain n where n: "entry w (root @ s) = Some n" "\<not> is_dir n" "wnt (ToSlash s)" by (auto simp: files_under_def)
    then have "entry w1 (root @ s) = Some n" using s1 unfolding shrinks_def by (metis same_append_eq)
    moreover have "entry w' (root @ s) = entry w1 (root @ s)"
      using s2 n unfolding shrinks_def by (metis is_dir.simps(1) option.inject)
    ultimately show "s \<in> files_under w' root" using n by (auto simp: files_under_def)
  qed
  ultimately show ?thesis by blast
qed


section \<open>Properties\<close>

text \<open>A sample folder model with one file, its finished download in \<open>/d/.incoming/m\<close>, and the node's own
  older download of the folder at \<open>/d/m\<close>.\<close>

definition demo_dfile :: File where
  "demo_dfile = \<lparr>fName = ''w'', StoreAs = '''', fSize = 3, SHA256 = ''s3'', fInfoHash = '''', fMagnet = ''''\<rparr>"

definition demo_dmodel :: Model where
  "demo_dmodel = \<lparr>ID = ''m'', HFRepo = ''o/m'', Revision = ''r'', License = ''mit'', LicenseURL = '''',
     Layout = ''dir'', mInfoHash = ''new'', mMagnet = '''', Files = [demo_dfile]\<rparr>"

definition demo_dworld :: world where
  "demo_dworld = \<lparr>files = [([''d''], Dir 1), ([''d'', ''.incoming''], Dir 2), ([''d'', ''.incoming'', ''m''], Dir 3),
     ([''d'', ''.incoming'', ''m'', ''w''], Reg 4 ''abc'' 7), ([''d'', ''.incoming'', ''m'', ''x''], Reg 5 ''q'' 7),
     ([''d'', ''m''], Dir 6), ([''d'', ''m'', ''w''], Reg 7 ''z'' 5)], faults = (\<lambda>_. None), next_ino = 8, clock = 10\<rparr>"

definition demo_dio :: io where
  "demo_dio = \<lparr>wd = demo_dworld,
     dl = \<lparr>mem = [(''old'', \<lparr>Path = [''d'', ''m''], dSize = 1, ModTime = 0,
                   dFiles = Some [(''w'', \<lparr>idSize = 1, idModTime = 5\<rparr>)]\<rparr>)], disk = None, save_fault = None\<rparr>,
     hput = [], pieces = (\<lambda>_. None)\<rparr>"

definition demo_djob :: job where
  "demo_djob = (newJob ''m'' (dirUnit demo_dmodel) [[''d'', ''.incoming'', ''m'']])\<lparr>jdir := Some demo_dmodel, replaceIH := Some ''old''\<rparr>"

lemmas demo_dir_defs = demo_env_def demo_dio_def demo_djob_def demo_dworld_def demo_dmodel_def demo_dfile_def

lemma demo_dwf: "wf_world demo_dworld"
  unfolding demo_dworld_def by code_simp

lemma demo_dentry:
  "entry demo_dworld p = (if p = [] then Some (Dir 0) else if p = [''d''] then Some (Dir 1)
     else if p = [''d'', ''.incoming''] then Some (Dir 2) else if p = [''d'', ''.incoming'', ''m''] then Some (Dir 3)
     else if p = [''d'', ''.incoming'', ''m'', ''w''] then Some (Reg 4 ''abc'' 7)
     else if p = [''d'', ''.incoming'', ''m'', ''x''] then Some (Reg 5 ''q'' 7)
     else if p = [''d'', ''m''] then Some (Dir 6) else if p = [''d'', ''m'', ''w''] then Some (Reg 7 ''z'' 5) else None)"
  by (simp add: entry_def demo_dworld_def)

lemma demo_dquiet: "\<forall>c. fault demo_dworld c = None"
  by (simp add: demo_dworld_def fault_def)

text \<open>A folder torrent is accepted exactly when its name is the catalog's revision and its files are
  the catalog's, path for path with equal sizes, each once, in whatever order.\<close>

theorem check_dir_info_exact:
  assumes "distinct (map fName (Files m))"
  shows "checkDirInfo (Some i) m = None \<longleftrightarrow> BestName i = Revision m \<and> InfoIsDir i
     \<and> mset (map (\<lambda>(comps, len). (Join ''/'' comps, len)) (UpvertedFiles i)) = mset (map (\<lambda>f. (fName f, fSize f)) (Files m))"
  using checkDirInfo_None [OF assms] by (simp add: listed_def catalogued_def)

theorem check_dir_info_exact_witness:
  "checkDirInfo (Some \<lparr>BestName = ''r'', InfoIsDir = True, UpvertedFiles = [([''w''], 3)]\<rparr>) demo_dmodel = None"
  using check_dir_info_exact [of demo_dmodel "\<lparr>BestName = ''r'', InfoIsDir = True, UpvertedFiles = [([''w''], 3)]\<rparr>"]
  by (simp add: demo_dmodel_def demo_dfile_def)

text \<open>The search for a local folder changes nothing on disk. A folder it returns to be seeded, or
  reports as a duplicate, holds every file of the model with its size and SHA-256, and the folders are
  different directories.\<close>

theorem find_local_dir_verified:
  assumes "findLocalDir E S j m = (r, j', S')"
  shows "wd S' = wd S \<and> (\<forall>found dps. r = Inr (found, dps) \<longrightarrow>
     (\<forall>p\<in>set (copies found dps). \<forall>f\<in>set (Files m).
        (\<exists>n. Stat (wd S) (join_rel p (fName f)) = Inr n \<and> is_reg n \<and> fi_size n = fSize f)
        \<and> hash_sum (hash E (wd S) (join_rel p (fName f))) = Some (SHA256 f))
     \<and> distinct (map (ino_of (wd S)) (copies found dps)))"
  using findLocalDir_wd [OF assms] findLocalDir_sound assms unfolding dir_verified_def by blast

lemma demo_find_dir: "fst (findLocalDir demo_env demo_dio demo_djob demo_dmodel) = Inr (Some [''d'', ''.incoming'', ''m''], [])"
  unfolding demo_dir_defs by code_simp

theorem find_local_dir_verified_witness:
  "hash_sum (hash demo_env (wd demo_dio) (join_rel [''d'', ''.incoming'', ''m''] ''w'')) = Some ''s3''"
proof -
  obtain j' S' where "findLocalDir demo_env demo_dio demo_djob demo_dmodel = (Inr (Some [''d'', ''.incoming'', ''m''], []), j', S')"
    using demo_find_dir by (metis prod.collapse)
  from find_local_dir_verified [OF this] show ?thesis
    by (simp add: copies_def demo_dmodel_def demo_dfile_def)
qed

text \<open>C11. Promoting a folder loses nothing. On success the whole download is at its place. On failure the
  download is still in \<open>.incoming\<close> and either every entry is as it was, or the older revision that was
  moved aside could not be moved back and is complete under the aside name. Nothing outside the three
  places changes, and what is at the final path and is not the node's own stale download is untouched.\<close>

theorem promote_dir_loses_nothing:
  assumes "places (wd S) incoming final (aside_path E j)" "promoteDir E S j incoming final = (r, S')"
  shows "(\<forall>s. \<not> prefix incoming s \<and> \<not> prefix final s \<and> \<not> prefix (aside_path E j) s \<longrightarrow> entry (wd S') s = entry (wd S) s)
     \<and> (r = None \<longrightarrow> (\<forall>s. entry (wd S') (final @ s) = entry (wd S) (incoming @ s)))
     \<and> (r \<noteq> None \<longrightarrow> (\<forall>s. entry (wd S') (incoming @ s) = entry (wd S) (incoming @ s)))
     \<and> (r \<noteq> None \<longrightarrow> (\<forall>s. entry (wd S') s = entry (wd S) s)
          \<or> (\<exists>e. r = Some (NotMovedBack (aside_path E j) e)) \<and> (\<forall>s. entry (wd S') (aside_path E j @ s) = entry (wd S) (final @ s)))
     \<and> (entry (wd S) final = None
        \<or> (\<exists>ih rec. replaceIH j = Some ih \<and> (ih, rec) \<in> set (mem (dl S)) \<and> Path rec = final \<and> ih \<noteq> fInfoHash (jf j)
             \<and> \<not> inCatalog (cat E) ih \<and> snd (statRecorded (wd S) rec))
        \<or> wd S' = wd S \<and> dl S' = dl S \<and> r \<noteq> None)"
proof -
  have "entry (wd S) final = None
        \<or> (\<exists>ih rec. replaceIH j = Some ih \<and> (ih, rec) \<in> set (mem (dl S)) \<and> Path rec = final \<and> ih \<noteq> fInfoHash (jf j)
             \<and> \<not> inCatalog (cat E) ih \<and> snd (statRecorded (wd S) rec))
        \<or> wd S' = wd S \<and> dl S' = dl S \<and> r \<noteq> None"
    using promoteDir_moved(2) [OF assms] staleOwnDownload_Some [of E S final "fInfoHash (jf j)"]
    by (metis not_None_eq)
  with promoteDir_moved(1) [OF assms] show ?thesis unfolding dir_moved_def same_tree_def by blast
qed

lemma demo_places: "places (wd demo_dio) [''d'', ''.incoming'', ''m''] [''d'', ''m''] (aside_path demo_env demo_djob)"
proof -
  have a: "aside_path demo_env demo_djob = [''d'', ''.incoming'', ''.m.replaced.0'']"
    unfolding demo_dir_defs by code_simp
  have "real_path demo_dworld [''d'', ''.incoming'']" using wf_entry(1) [OF demo_dwf, of "[''d'', ''.incoming'']"] by (simp add: demo_dentry)
  from real_path_child [OF this, of 2 "''.m.replaced.0''"]
  have "real_path demo_dworld [''d'', ''.incoming'', ''.m.replaced.0'']" by (simp add: demo_dentry clean_path_def)
  with demo_dwf wf_entry(1) [OF demo_dwf, of "[''d'', ''m'']"] wf_entry(1) [OF demo_dwf, of "[''d'', ''.incoming'', ''m'']"]
  show ?thesis by (simp add: places_def a demo_dio_def demo_dentry apart_def)
qed

theorem promote_dir_loses_nothing_witness:
  "\<exists>S'. promoteDir demo_env demo_dio demo_djob [''d'', ''.incoming'', ''m''] [''d'', ''m''] = (None, S')
     \<and> entry (wd S') ([''d'', ''m''] @ [''w'']) = Some (Reg 4 ''abc'' 7)"
proof -
  have "fst (promoteDir demo_env demo_dio demo_djob [''d'', ''.incoming'', ''m''] [''d'', ''m'']) = None"
    unfolding demo_dir_defs by code_simp
  then obtain S' where S': "promoteDir demo_env demo_dio demo_djob [''d'', ''.incoming'', ''m''] [''d'', ''m''] = (None, S')"
    by (metis prod.collapse)
  from promote_dir_loses_nothing [OF demo_places S'] have
    "\<forall>s. entry (wd S') ([''d'', ''m''] @ s) = entry (wd demo_dio) ([''d'', ''.incoming'', ''m''] @ s)" by blast
  from spec [OF this, of "[''w'']"] S' show ?thesis by (simp add: demo_dio_def demo_dentry)
qed

text \<open>Before a folder is promoted, its extras are pruned: when no call fails, the files left under it
  are exactly those the model names, unchanged, and nothing outside it changes.\<close>

theorem prune_extras_exact:
  assumes "wf_world w" "real_path w root" "root \<noteq> []" "entry w root = Some (Dir i)" "\<forall>c. fault w c = None"
    "pruneExtras w root wnt = (r, w')"
  shows "r = None \<and> (\<forall>s. entry w' s = entry w s \<or> entry w' s = None \<and> prefix root s)
     \<and> {s. \<exists>n. entry w' (root @ s) = Some n \<and> \<not> is_dir n} = {s. \<exists>n. entry w (root @ s) = Some n \<and> \<not> is_dir n \<and> wnt (ToSlash s)}"
  using pruneExtras_exact [OF assms] unfolding files_under_def by auto

theorem prune_extras_exact_witness:
  "entry (snd (pruneExtras demo_dworld [''d'', ''.incoming'', ''m''] (\<lambda>c. c = ''w''))) [''d'', ''m'', ''w''] = Some (Reg 7 ''z'' 5)"
proof -
  obtain r w' where p: "pruneExtras demo_dworld [''d'', ''.incoming'', ''m''] (\<lambda>c. c = ''w'') = (r, w')" by force
  have "real_path demo_dworld [''d'', ''.incoming'', ''m'']" "entry demo_dworld [''d'', ''.incoming'', ''m''] = Some (Dir 3)"
    using wf_entry(1) [OF demo_dwf, of "[''d'', ''.incoming'', ''m'']"] by (simp_all add: demo_dentry)
  from prune_extras_exact [OF demo_dwf this(1) _ this(2) demo_dquiet p]
  have "\<forall>s. entry w' s = entry demo_dworld s \<or> entry w' s = None \<and> prefix [''d'', ''.incoming'', ''m''] s" by blast
  from spec [OF this, of "[''d'', ''m'', ''w'']"] p show ?thesis by (simp add: demo_dentry)
qed

text \<open>The clean-up at start only removes what \<open>promoteDir\<close> can have moved aside: entries below
  \<open>.incoming\<close> in a directory named with a leading dot and the marker. In particular the partial
  downloads in \<open>.incoming\<close>, whose names are disk names, are kept.\<close>

theorem clean_replaced_only_asides:
  assumes "wf_world w" "real_path w (dd @ [''.incoming''])" "\<And>i t. entry w (dd @ [''.incoming'']) \<noteq> Some (Sym i t)"
  shows "(\<forall>s. entry (cleanReplaced w dd) s = entry w s \<or> entry (cleanReplaced w dd) s = None
       \<and> (\<exists>c. HasPrefix c ''.'' \<and> Contains c replacedMarker \<and> prefix (dd @ [''.incoming'', c]) s))
     \<and> (\<forall>d t. diskRe d \<longrightarrow> entry (cleanReplaced w dd) (dd @ ''.incoming'' # d # t) = entry w (dd @ ''.incoming'' # d # t))"
proof -
  have 1: "entry (cleanReplaced w dd) s = entry w s \<or> entry (cleanReplaced w dd) s = None
       \<and> (\<exists>c. HasPrefix c ''.'' \<and> Contains c replacedMarker \<and> prefix (dd @ [''.incoming'', c]) s)" for s
    using cleanReplaced_shrinks [OF assms] by (simp add: shrinks_def aside_name_def)
  moreover have "entry (cleanReplaced w dd) (dd @ ''.incoming'' # d # t) = entry w (dd @ ''.incoming'' # d # t)" if "diskRe d" for d t
    using 1 [of "dd @ ''.incoming'' # d # t"] diskRe_element [OF that] by (cases d) auto
  ultimately show ?thesis by blast
qed

theorem clean_replaced_only_asides_witness:
  "entry (cleanReplaced demo_dworld [''d'']) [''d'', ''.incoming'', ''m'', ''w''] = Some (Reg 4 ''abc'' 7)"
proof -
  have "real_path demo_dworld ([''d''] @ [''.incoming''])" using wf_entry(1) [OF demo_dwf, of "[''d'', ''.incoming'']"] by (simp add: demo_dentry)
  note clean_replaced_only_asides [OF demo_dwf this]
  moreover have "diskRe ''m''" by (simp add: diskRe_def is_lower_c_def)
  ultimately have "entry (cleanReplaced demo_dworld [''d'']) ([''d''] @ ''.incoming'' # ''m'' # [''w''])
      = entry demo_dworld ([''d''] @ ''.incoming'' # ''m'' # [''w''])"
    by (simp add: demo_dentry)
  then show ?thesis by (simp add: demo_dentry)
qed

end
