(* ===== verification/Node.thy ===== *)
theory Node
  imports DirJob
begin

text \<open>
  \<open>internal/node/node.go\<close>: the node's state, the reconciliation of its jobs with the catalog, the
  pruning of recorded downloads, the reservation of disk space, and the hand-over between jobs.

  Jobs are numbered in the order they are started; a job's number stands for its \<open>done\<close> channel. The
  sections under \<open>n.mu\<close> are functions on the node's state; the goroutines (jobs, and the ones that wait
  for a stopped job to end) are the steps of a relation, so that every interleaving is covered.
\<close>

section \<open>State\<close>

datatype phase = Waiting | Active | Finished

record jobrec =
  kmodel :: string
  kf :: File
  kdir :: "Model option"
  kcands :: "path list"
  kwaits :: "nat list"
  kphase :: phase
  kstop :: bool
  kprune :: bool
  kfailed :: bool

record adoptIndex =
  aFiles :: "(int \<times> path) list"
  aDirs :: "path list"

record reservation =
  rPath :: path
  rSize :: int

text \<open>\<open>reapers\<close> are the goroutines of \<open>retireLocked\<close>: a job, its infohash and its disk name.\<close>

record node =
  nEnv :: jenv
  Want :: "string list"
  nPrune :: bool
  ncat :: "Catalog option"
  extraWant :: "string list"
  closed :: bool
  jobs :: "(string \<times> nat) list"
  stopping :: "string \<Rightarrow> nat option"
  stoppingDisk :: "string \<Rightarrow> nat option"
  table :: "nat \<Rightarrow> jobrec"
  next_job :: nat
  reapers :: "(nat \<times> string \<times> string) list"
  nio :: io
  reserved :: "(string \<times> reservation) list"
  spaceFreed :: nat                        \<comment> \<open>how often the channel was closed and replaced\<close>

definition env_of :: "node \<Rightarrow> jenv" where
  "env_of n = (nEnv n)\<lparr>cat := ncat n\<rparr>"

section \<open>Disk space\<close>

definition spaceMargin :: int where
  "spaceMargin = 2 ^ 30"

definition outstanding :: "(path \<Rightarrow> int) \<Rightarrow> reservation \<Rightarrow> int" where
  "outstanding alloc r = max 0 (i64 (rSize r - alloc (rPath r)))"

text \<open>The sum over the other reservations, in the order of the map.\<close>

definition others_sum :: "(path \<Rightarrow> int) \<Rightarrow> string \<Rightarrow> (string \<times> reservation) list \<Rightarrow> int" where
  "others_sum alloc ih rs = foldl (\<lambda>acc (k, r). if k \<noteq> ih then i64 (acc + outstanding alloc r) else acc) 0 rs"

definition reserveSpace :: "(path \<Rightarrow> int) \<Rightarrow> int option \<Rightarrow> node \<Rightarrow> string \<Rightarrow> path \<Rightarrow> int \<Rightarrow> bool \<times> node" where
  "reserveSpace alloc free n ih p sz =
     (let r = \<lparr>rPath = p, rSize = sz\<rparr>;
          admit = n\<lparr>reserved := (ih, r) # filter (\<lambda>(k, _). k \<noteq> ih) (reserved n)\<rparr>
      in case free of
           None \<Rightarrow> (True, admit)
         | Some fr \<Rightarrow>
             if i64 (i64 fr - others_sum alloc ih (reserved n)) \<ge> i64 (outstanding alloc r + spaceMargin)
             then (True, admit) else (False, n))"

definition releaseSpace :: "node \<Rightarrow> string \<Rightarrow> node" where
  "releaseSpace n ih =
     (if map_of (reserved n) ih = None then n
      else n\<lparr>reserved := filter (\<lambda>(k, _). k \<noteq> ih) (reserved n), spaceFreed := spaceFreed n + 1\<rparr>)"

section \<open>Pruning recorded downloads\<close>

definition job_path :: "node \<Rightarrow> nat \<Rightarrow> path" where
  "job_path n k = dataDir (nEnv n) @ [DiskName (kf (table n k))]"

text \<open>One record of the sweep; \<open>live\<close> are the data paths of the node's jobs.\<close>

definition prune_one :: "(string \<Rightarrow> bool) \<Rightarrow> node \<Rightarrow> string \<times> downloadedFile \<Rightarrow> node" where
  "prune_one inCat n r =
     (case r of (ih, rec) \<Rightarrow>
        let S = nio n; forget = (\<lambda>w. n\<lparr>nio := S\<lparr>wd := w, dl := snd (Delete (codec (nEnv n)) (dl S) ih)\<rparr>\<rparr>)
        in if inCat ih \<or> map_of (jobs n) ih \<noteq> None \<or> stopping n ih \<noteq> None
              \<or> list_ex (\<lambda>(_, k). job_path n k = Path rec) (jobs n) then n
           else if \<not> pathInDir (dataDir (nEnv n)) (Path rec) then n
           else case statRecorded (wd S) rec of
             (missing, same) \<Rightarrow>
               if missing \<or> \<not> same then forget (wd S)
               else (case removeRecorded (wd S) rec of
                       (Some (RemoveFailed e), w) \<Rightarrow> if is_not_exist e then forget w else n\<lparr>nio := S\<lparr>wd := w\<rparr>\<rparr>
                     | (Some (EscapesDir _), w) \<Rightarrow> n\<lparr>nio := S\<lparr>wd := w\<rparr>\<rparr>
                     | (None, w) \<Rightarrow> forget w))"

definition pruneRecordedLocked :: "(string \<Rightarrow> bool) \<Rightarrow> node \<Rightarrow> node" where
  "pruneRecordedLocked inCat n =
     (if \<not> nPrune n then n else foldl (prune_one inCat) n (All (dl (nio n))))"

section \<open>Reconciliation\<close>

definition wantedLocked :: "node \<Rightarrow> string \<Rightarrow> bool" where
  "wantedLocked n i \<longleftrightarrow> i \<in> set (extraWant n) \<or> list_ex (\<lambda>w. w = ''*'' \<or> w = i) (Want n)"

definition retireLocked :: "node \<Rightarrow> string \<Rightarrow> nat \<Rightarrow> bool \<Rightarrow> node" where
  "retireLocked n ih k pr =
     (let dn = DiskName (kf (table n k))
      in n\<lparr>table := (table n)(k := (table n k)\<lparr>kstop := True, kprune := pr\<rparr>),
           stopping := (stopping n)(ih \<mapsto> k), stoppingDisk := (stoppingDisk n)(dn \<mapsto> k),
           reapers := (k, ih, dn) # reapers n, jobs := filter (\<lambda>(i, _). i \<noteq> ih) (jobs n)\<rparr>)"

definition wanted_units :: "node \<Rightarrow> Catalog \<Rightarrow> (Model \<times> File) list" where
  "wanted_units n c = concat (map (\<lambda>m. if wantedLocked n (ID m) then map (\<lambda>f. (m, f)) (units m) else []) (Models c))"

definition keep :: "node \<Rightarrow> Catalog \<Rightarrow> string \<Rightarrow> (string \<times> File) option" where
  "keep n c = map_of (rev (map (\<lambda>(m, f). (fInfoHash f, (ID m, f))) (wanted_units n c)))"

definition retire_one :: "Catalog \<Rightarrow> bool \<Rightarrow> node \<Rightarrow> string \<times> nat \<Rightarrow> node" where
  "retire_one c retryFailed n jk =
     (case jk of (ih, k) \<Rightarrow>
        case keep n c ih of
          None \<Rightarrow> retireLocked n ih k (nPrune n \<and> \<not> inCatalog (Some c) ih)
        | Some (m, f) \<Rightarrow>
            if m \<noteq> kmodel (table n k) \<or> f \<noteq> kf (table n k) then retireLocked n ih k False
            else if retryFailed \<and> kfailed (table n k) then retireLocked n ih k False
            else n)"

text \<open>Starting the job of one unit, unless there is one.\<close>

definition launch_one :: "adoptIndex \<Rightarrow> node \<Rightarrow> Model \<times> File \<Rightarrow> node" where
  "launch_one idx n mf =
     (case mf of (m, f) \<Rightarrow>
        if map_of (jobs n) (fInfoHash f) \<noteq> None then n
        else let cands = (if IsDir m then aDirs idx else map snd (filter (\<lambda>(s, _). s = fSize f) (aFiles idx)));
                 waits = (case stopping n (fInfoHash f) of None \<Rightarrow> [] | Some k \<Rightarrow> [k])
                       @ (case stoppingDisk n (DiskName f) of None \<Rightarrow> [] | Some k \<Rightarrow> [k])
             in n\<lparr>table := (table n)(next_job n := \<lparr>kmodel = ID m, kf = f, kdir = (if IsDir m then Some m else None), kcands = cands, kwaits = waits,
                      kphase = Waiting, kstop = False, kprune = False, kfailed = False\<rparr>),
                  jobs := (fInfoHash f, next_job n) # jobs n, next_job := next_job n + 1\<rparr>)"

definition reconcileLocked :: "bool \<Rightarrow> adoptIndex option \<Rightarrow> node \<Rightarrow> bool \<times> node" where
  "reconcileLocked retryFailed adoptIdx n =
     (case ncat n of
        None \<Rightarrow> (False, n)
      | Some c \<Rightarrow>
          if closed n then (False, n)
          else let n1 = foldl (retire_one c retryFailed) n (jobs n);
                   n2 = pruneRecordedLocked (inCatalog (Some c)) n1
               in case adoptIdx of
                    None \<Rightarrow> (list_ex (\<lambda>(m, f). map_of (jobs n2) (fInfoHash f) = None) (wanted_units n2 c), n2)
                  | Some idx \<Rightarrow> (False, foldl (launch_one idx) n2 (wanted_units n2 c)))"

section \<open>The goroutines\<close>

definition set_phase :: "nat \<Rightarrow> phase \<Rightarrow> node \<Rightarrow> node" where
  "set_phase k p n = n\<lparr>table := (table n)(k := (table n k)\<lparr>kphase := p\<rparr>)\<rparr>"

definition reap :: "nat \<times> string \<times> string \<Rightarrow> node \<Rightarrow> node" where
  "reap r n =
     (case r of (k, ih, dn) \<Rightarrow>
        n\<lparr>stopping := (if stopping n ih = Some k then (stopping n)(ih := None) else stopping n),
          stoppingDisk := (if stoppingDisk n dn = Some k then (stoppingDisk n)(dn := None) else stoppingDisk n),
          reapers := remove1 r (reapers n)\<rparr>)"

section \<open>The node's operations\<close>

text \<open>\<open>New\<close>: the record is read from its file, and what an interrupted promotion left behind is removed.\<close>

definition New :: "jenv \<Rightarrow> string list \<Rightarrow> bool \<Rightarrow> disk_read \<Rightarrow> world \<Rightarrow> node option" where
  "New E wnt pr d w =
     (case openDownloadRecord (codec E) d of
        None \<Rightarrow> None
      | Some r \<Rightarrow> Some \<lparr>nEnv = E, Want = wnt, nPrune = pr, ncat = None, extraWant = [], closed = False, jobs = [],
          stopping = (\<lambda>_. None), stoppingDisk = (\<lambda>_. None),
          table = (\<lambda>_. \<lparr>kmodel = '''', kf = \<lparr>fName = '''', StoreAs = '''', fSize = 0, SHA256 = '''', fInfoHash = '''', fMagnet = ''''\<rparr>,
            kdir = None, kcands = [], kwaits = [], kphase = Waiting, kstop = False, kprune = False, kfailed = False\<rparr>),
          next_job = 0, reapers = [], nio = \<lparr>wd = cleanReplaced w (dataDir E), dl = r, hput = [], pieces = (\<lambda>_. None)\<rparr>,
          reserved = [], spaceFreed = 0\<rparr>)"

text \<open>\<open>SetCatalog\<close> and \<open>Ensure\<close> up to the point where \<open>reconcileScanLocked\<close> gives up the lock to scan the
  adoption roots: whether a scan is needed, and the state. The second pass is \<open>reconcileLocked\<close> with the
  index of the scan.\<close>

definition SetCatalog :: "Catalog \<Rightarrow> node \<Rightarrow> bool \<times> node" where
  "SetCatalog c n = reconcileLocked True None (n\<lparr>ncat := Some c\<rparr>)"

datatype ensure_error = ErrUnknownModel | ErrNoCatalog | ErrNoSpace

definition Ensure_want :: "node \<Rightarrow> string \<Rightarrow> ensure_error + bool \<times> node" where
  "Ensure_want n i =
     (case ncat n of
        None \<Rightarrow> Inl ErrNoCatalog
      | Some c \<Rightarrow>
          if catalogModel c i = None then Inl ErrUnknownModel
          else if wantedLocked n i then Inr (False, n)
          else Inr (reconcileLocked False None (n\<lparr>extraWant := i # extraWant n\<rparr>)))"

definition Close :: "node \<Rightarrow> node" where
  "Close n = n\<lparr>closed := True\<rparr>"

definition valid_units :: "Catalog \<Rightarrow> bool" where
  "valid_units c \<longleftrightarrow> distinct (map fInfoHash (concat (map units (Models c)))) \<and> distinct (map DiskName (concat (map units (Models c))))"

text \<open>The steps: a new, validated catalog (with the first pass of the reconciliation), a wish for a model, a
  reconciliation with an adoption index (the second pass, at any later time), closing the node; a job
  that has seen all its predecessors end, a job that fails, a job that ends; a goroutine that forgets
  an ended job; and whatever the jobs do to the file system and the record. The order of the map of
  jobs is arbitrary. What a job does is an over-approximation here: it may fail or end at any time once it is past its waits, although a
  job that seeds ends only when it is stopped. The steps of the jobs' goroutines themselves, which these abstract, are in \<open>Runs\<close>.\<close>

inductive node_step :: "node \<Rightarrow> node \<Rightarrow> bool" where
  set_catalog: "Validate pm up (Models c) = None \<Longrightarrow> node_step n (snd (SetCatalog c n))"
| ensure: "Ensure_want n i = Inr (scan, n') \<Longrightarrow> node_step n n'"
| scanned: "node_step n (snd (reconcileLocked retry (Some idx) n))"
| close: "node_step n (Close n)"
| shuffle: "distinct js \<Longrightarrow> set js = set (jobs n) \<Longrightarrow> node_step n (n\<lparr>jobs := js\<rparr>)"
| begin_job: "k < next_job n \<Longrightarrow> kphase (table n k) = Waiting \<Longrightarrow>
    \<forall>w\<in>set (kwaits (table n k)). kphase (table n w) = Finished \<Longrightarrow> node_step n (set_phase k Active n)"
| fail_job: "k < next_job n \<Longrightarrow> kphase (table n k) = Active \<Longrightarrow>
    node_step n (n\<lparr>table := (table n)(k := (table n k)\<lparr>kfailed := True\<rparr>)\<rparr>)"
| end_job: "k < next_job n \<Longrightarrow> kphase (table n k) = Active \<Longrightarrow> node_step n (set_phase k Finished n)"
| forget: "(k, ih, dn) \<in> set (reapers n) \<Longrightarrow> kphase (table n k) = Finished \<Longrightarrow> node_step n (reap (k, ih, dn) n)"
| disk_io: "node_step n (n\<lparr>nio := S\<rparr>)"
| space: "node_step n (snd (reserveSpace alloc free n ih p sz))"
| unspace: "node_step n (releaseSpace n ih)"

inductive reachable :: "node \<Rightarrow> bool" where
  start: "New E wnt pr d w = Some n \<Longrightarrow> reachable n"
| step: "reachable n \<Longrightarrow> node_step n n' \<Longrightarrow> reachable n'"

section \<open>The hand-over invariant\<close>

text \<open>Job \<open>a\<close> waits for job \<open>b\<close>, directly; \<open>behind\<close> is the transitive closure.\<close>

definition waits_for :: "node \<Rightarrow> (nat \<times> nat) set" where
  "waits_for n = {(a, b). a < next_job n \<and> b \<in> set (kwaits (table n a))}"

abbreviation behind :: "node \<Rightarrow> nat \<Rightarrow> nat \<Rightarrow> bool" where
  "behind n a b \<equiv> (a, b) \<in> (waits_for n)\<^sup>+"

abbreviation covers :: "node \<Rightarrow> nat \<Rightarrow> nat \<Rightarrow> bool" where
  "covers n a b \<equiv> (a, b) \<in> (waits_for n)\<^sup>*"

abbreviation unfinished :: "node \<Rightarrow> nat \<Rightarrow> bool" where
  "unfinished n k \<equiv> k < next_job n \<and> kphase (table n k) \<noteq> Finished"

definition ih_of :: "node \<Rightarrow> nat \<Rightarrow> string" where
  "ih_of n k = fInfoHash (kf (table n k))"

definition disk_of :: "node \<Rightarrow> nat \<Rightarrow> string" where
  "disk_of n k = DiskName (kf (table n k))"

definition live :: "node \<Rightarrow> nat \<Rightarrow> bool" where
  "live n k \<longleftrightarrow> k \<in> snd ` set (jobs n)"

definition rivals :: "node \<Rightarrow> nat \<Rightarrow> nat \<Rightarrow> bool" where
  "rivals n k l \<longleftrightarrow> ih_of n k = ih_of n l \<or> disk_of n k = disk_of n l"

definition inv_waits :: "node \<Rightarrow> bool" where
  "inv_waits n \<longleftrightarrow> (\<forall>a b. (a, b) \<in> waits_for n \<longrightarrow> b < a \<and> (kphase (table n a) \<noteq> Waiting \<longrightarrow> kphase (table n b) = Finished))"

definition inv_jobs :: "node \<Rightarrow> bool" where
  "inv_jobs n \<longleftrightarrow> distinct (map fst (jobs n)) \<and> (\<forall>(ih, k)\<in>set (jobs n). k < next_job n \<and> ih_of n k = ih)"

definition inv_covered :: "node \<Rightarrow> bool" where
  "inv_covered n \<longleftrightarrow> (\<forall>k. unfinished n k \<and> \<not> live n k \<longrightarrow>
     (\<exists>s. stopping n (ih_of n k) = Some s \<and> covers n s k) \<and> (\<exists>s. stoppingDisk n (disk_of n k) = Some s \<and> covers n s k))"

definition inv_stop :: "node \<Rightarrow> bool" where
  "inv_stop n \<longleftrightarrow> (\<forall>x s. stopping n x = Some s \<or> stoppingDisk n x = Some s \<longrightarrow> s < next_job n)"

definition inv_order :: "node \<Rightarrow> bool" where
  "inv_order n \<longleftrightarrow>
     (\<forall>k l. live n k \<and> unfinished n l \<and> k \<noteq> l \<and> rivals n k l \<longrightarrow> behind n k l)
   \<and> (\<forall>k l. unfinished n k \<and> unfinished n l \<and> k \<noteq> l \<and> rivals n k l \<longrightarrow> behind n k l \<or> behind n l k)"

definition inv_cat :: "node \<Rightarrow> bool" where
  "inv_cat n \<longleftrightarrow> (\<forall>c. ncat n = Some c \<longrightarrow> valid_units c)"

definition node_inv :: "node \<Rightarrow> bool" where
  "node_inv n \<longleftrightarrow> inv_waits n \<and> inv_jobs n \<and> inv_covered n \<and> inv_stop n \<and> inv_order n \<and> inv_cat n"

lemmas inv_defs = inv_waits_def inv_jobs_def inv_covered_def inv_stop_def inv_order_def inv_cat_def

lemma behind_unfinished_waiting:
  assumes "inv_waits n" "behind n a b" "unfinished n b"
  shows "kphase (table n a) = Waiting"
  using assms(2,3)
proof (induction rule: trancl_induct)
  case (base b)
  with assms(1) show ?case by (auto simp: inv_waits_def)
next
  case (step b c)
  then have "kphase (table n b) = Waiting" "b < next_job n"
    using assms(1) by (auto simp: inv_waits_def waits_for_def)
  with step.IH show ?case by simp
qed

text \<open>What the invariant is for: two jobs past their waits never share an infohash or a disk name.\<close>

lemma active_not_rivals:
  assumes "node_inv n" "k < next_job n" "l < next_job n" "k \<noteq> l" "kphase (table n k) = Active" "kphase (table n l) = Active"
  shows "\<not> rivals n k l"
proof
  assume r: "rivals n k l"
  have u: "unfinished n k" "unfinished n l" using assms by auto
  have "behind n k l \<or> behind n l k" using assms(1,4) u r unfolding node_inv_def inv_order_def by metis
  with behind_unfinished_waiting [of n k l] behind_unfinished_waiting [of n l k] assms u show False
    by (auto simp: node_inv_def)
qed

section \<open>Preservation: the goroutines\<close>

text \<open>Steps that leave the jobs' waits, files and places alone.\<close>

definition same_jobs :: "node \<Rightarrow> node \<Rightarrow> bool" where
  "same_jobs n n' \<longleftrightarrow> next_job n' = next_job n \<and> stopping n' = stopping n \<and> stoppingDisk n' = stoppingDisk n
     \<and> distinct (map fst (jobs n')) = distinct (map fst (jobs n)) \<and> set (jobs n') = set (jobs n) \<and> ncat n' = ncat n
     \<and> (\<forall>k. kwaits (table n' k) = kwaits (table n k) \<and> kf (table n' k) = kf (table n k))"

lemma same_jobs_derived:
  assumes "same_jobs n n'"
  shows "waits_for n' = waits_for n" "ih_of n' k = ih_of n k" "disk_of n' k = disk_of n k" "live n' k = live n k"
    "rivals n' k l = rivals n k l"
  using assms by (auto simp: same_jobs_def waits_for_def ih_of_def disk_of_def live_def rivals_def)

lemma phase_step_inv:
  assumes inv: "node_inv n" and same: "same_jobs n n'"
    and fin: "\<And>k. kphase (table n k) = Finished \<Longrightarrow> kphase (table n' k) = Finished"
    and begun: "\<And>k w. kphase (table n' k) \<noteq> Waiting \<Longrightarrow> w \<in> set (kwaits (table n k)) \<Longrightarrow> k < next_job n \<Longrightarrow> kphase (table n' w) = Finished"
  shows "node_inv n'"
proof -
  note d = same_jobs_derived [OF same]
  have nj: "next_job n' = next_job n" and st: "stopping n' = stopping n" "stoppingDisk n' = stoppingDisk n"
    and js: "set (jobs n') = set (jobs n)" "distinct (map fst (jobs n')) = distinct (map fst (jobs n))" "ncat n' = ncat n"
    using same by (auto simp: same_jobs_def)
  have un: "unfinished n' k \<Longrightarrow> unfinished n k" for k using fin [of k] nj by auto
  have "inv_waits n'" using inv begun unfolding node_inv_def inv_waits_def d(1) nj by (auto simp: waits_for_def)
  moreover have "inv_jobs n'" using inv d js nj by (auto simp: node_inv_def inv_jobs_def)
  moreover have "inv_covered n'" using inv un unfolding node_inv_def inv_covered_def d st by blast
  moreover have "inv_stop n'" using inv unfolding node_inv_def inv_stop_def st nj by blast
  moreover have "inv_order n'" using inv un unfolding node_inv_def inv_order_def d by blast
  moreover have "inv_cat n'" using inv js by (simp add: node_inv_def inv_cat_def)
  ultimately show ?thesis by (simp add: node_inv_def)
qed

lemma begin_job_inv:
  assumes "node_inv n" "k < next_job n" "\<forall>w\<in>set (kwaits (table n k)). kphase (table n w) = Finished"
    "kphase (table n k) = Waiting"
  shows "node_inv (set_phase k Active n)"
proof (rule phase_step_inv [OF assms(1)])
  show "same_jobs n (set_phase k Active n)" by (simp add: same_jobs_def set_phase_def)
  fix l w
  assume *: "kphase (table (set_phase k Active n) l) \<noteq> Waiting" "w \<in> set (kwaits (table n l))" "l < next_job n"
  have "kphase (table n w) = Finished"
    using * assms by (cases "l = k") (auto simp: node_inv_def inv_waits_def waits_for_def set_phase_def)
  with assms(4) show "kphase (table (set_phase k Active n) w) = Finished" by (auto simp: set_phase_def)
qed (use assms(4) in \<open>auto simp: set_phase_def split: if_splits\<close>)

lemma end_job_inv:
  assumes "node_inv n" "kphase (table n k) = Active"
  shows "node_inv (set_phase k Finished n)"
proof (rule phase_step_inv [OF assms(1)])
  show "same_jobs n (set_phase k Finished n)" by (simp add: same_jobs_def set_phase_def)
  fix l w
  assume *: "kphase (table (set_phase k Finished n) l) \<noteq> Waiting" "w \<in> set (kwaits (table n l))" "l < next_job n"
  then have "kphase (table n l) \<noteq> Waiting" using assms(2) by (auto simp: set_phase_def split: if_splits)
  with * have "kphase (table n w) = Finished" using assms(1) by (auto simp: node_inv_def inv_waits_def waits_for_def)
  then show "kphase (table (set_phase k Finished n) w) = Finished" by (simp add: set_phase_def)
qed (simp add: set_phase_def)

lemma unrelated_inv:
  assumes "node_inv n" "same_jobs n n'" "\<And>k. kphase (table n' k) = kphase (table n k)"
  shows "node_inv n'"
proof (rule phase_step_inv [OF assms(1,2)])
  show "kphase (table n k) = Finished \<Longrightarrow> kphase (table n' k) = Finished" for k using assms(3) by simp
  show "kphase (table n' w) = Finished"
    if "kphase (table n' k) \<noteq> Waiting" "w \<in> set (kwaits (table n k))" "k < next_job n" for k w
    using that assms(1,3) by (auto simp: node_inv_def inv_waits_def waits_for_def)
qed

lemma forget_inv:
  assumes inv: "node_inv n" and fin: "kphase (table n k) = Finished"
  shows "node_inv (reap (k, ih, dn) n)"
proof -
  let ?n = "reap (k, ih, dn) n"
  have t: "table ?n = table n" "next_job ?n = next_job n" "jobs ?n = jobs n" "ncat ?n = ncat n"
    "waits_for ?n = waits_for n" "ih_of ?n = ih_of n" "disk_of ?n = disk_of n" "live ?n = live n" "rivals ?n = rivals n"
    by (auto simp: reap_def waits_for_def ih_of_def disk_of_def live_def rivals_def fun_eq_iff)
  have w: "inv_waits n" using inv by (simp add: node_inv_def)
  have gone: "\<not> covers n k l" if "unfinished n l" for l
  proof
    assume "covers n k l"
    with fin that have "behind n k l" by (auto simp: rtrancl_eq_or_trancl)
    from behind_unfinished_waiting [OF w this that] fin show False by simp
  qed
  have "inv_covered ?n"
    unfolding inv_covered_def t
  proof (intro allI impI)
    fix l assume l: "unfinished n l \<and> \<not> live n l"
    then obtain s s' where "stopping n (ih_of n l) = Some s" "covers n s l" "stoppingDisk n (disk_of n l) = Some s'" "covers n s' l"
      using inv unfolding node_inv_def inv_covered_def by metis
    with gone l have "stopping ?n (ih_of n l) = Some s" "stoppingDisk ?n (disk_of n l) = Some s'"
      by (auto simp: reap_def)
    with \<open>covers n s l\<close> \<open>covers n s' l\<close> show "(\<exists>s. stopping ?n (ih_of n l) = Some s \<and> covers n s l)
        \<and> (\<exists>s. stoppingDisk ?n (disk_of n l) = Some s \<and> covers n s l)" by blast
  qed
  moreover have "inv_stop ?n" using inv by (auto simp: node_inv_def inv_stop_def reap_def split: if_splits)
  ultimately show ?thesis using inv unfolding node_inv_def inv_waits_def inv_jobs_def inv_order_def inv_cat_def t by blast
qed


section \<open>Preservation: retiring a job\<close>

lemma live_iff: "live n k \<longleftrightarrow> (\<exists>ih. (ih, k) \<in> set (jobs n))"
  by (force simp: live_def)

lemma retire_fields:
  "next_job (retireLocked n ih k pr) = next_job n" "ncat (retireLocked n ih k pr) = ncat n"
  "kwaits (table (retireLocked n ih k pr) l) = kwaits (table n l)" "kf (table (retireLocked n ih k pr) l) = kf (table n l)"
  "kphase (table (retireLocked n ih k pr) l) = kphase (table n l)" "kmodel (table (retireLocked n ih k pr) l) = kmodel (table n l)"
  "waits_for (retireLocked n ih k pr) = waits_for n" "ih_of (retireLocked n ih k pr) = ih_of n"
  "disk_of (retireLocked n ih k pr) = disk_of n" "rivals (retireLocked n ih k pr) = rivals n"
  "Want (retireLocked n ih k pr) = Want n" "extraWant (retireLocked n ih k pr) = extraWant n"
  "jobs (retireLocked n ih k pr) = filter (\<lambda>(i, _). i \<noteq> ih) (jobs n)"
  by (auto simp: retireLocked_def Let_def waits_for_def ih_of_def disk_of_def rivals_def fun_eq_iff split: if_splits)

lemma jobs_unique:
  assumes "inv_jobs n"
  shows "(i, k) \<in> set (jobs n) \<Longrightarrow> ih_of n k = i \<and> k < next_job n"
    and "(i, k) \<in> set (jobs n) \<Longrightarrow> (i, l) \<in> set (jobs n) \<Longrightarrow> k = l"
  using assms by (auto simp: inv_jobs_def dest: eq_key_imp_eq_value)

lemma retire_live:
  assumes "inv_jobs n" "(ih, k) \<in> set (jobs n)"
  shows "live (retireLocked n ih k pr) l \<longleftrightarrow> live n l \<and> l \<noteq> k"
proof
  assume "live (retireLocked n ih k pr) l"
  then obtain i where "(i, l) \<in> set (jobs n)" "i \<noteq> ih" by (auto simp: live_iff retire_fields)
  with jobs_unique(1) [OF assms(1)] assms(2) show "live n l \<and> l \<noteq> k" by (metis live_iff)
next
  assume "live n l \<and> l \<noteq> k"
  then obtain i where "(i, l) \<in> set (jobs n)" "l \<noteq> k" by (auto simp: live_iff)
  with jobs_unique(2) [OF assms] have "(i, l) \<in> set (jobs (retireLocked n ih k pr))" by (auto simp: retire_fields)
  then show "live (retireLocked n ih k pr) l" by (auto simp: live_iff)
qed

lemma retire_inv:
  assumes inv: "node_inv n" and k: "(ih, k) \<in> set (jobs n)"
  shows "node_inv (retireLocked n ih k pr)"
proof -
  let ?n = "retireLocked n ih k pr"
  have ij: "inv_jobs n" using inv by (simp add: node_inv_def)
  note f = retire_fields [of n ih k pr] and lv = retire_live [OF ij k, of pr]
  have kk: "k < next_job n" "ih_of n k = ih" "live n k" using jobs_unique(1) [OF ij k] k by (auto simp: live_iff)
  have st: "stopping ?n = (stopping n)(ih \<mapsto> k)" "stoppingDisk ?n = (stoppingDisk n)(disk_of n k \<mapsto> k)"
    by (simp_all add: retireLocked_def disk_of_def Let_def)
  have cov: "covers n k l" if "unfinished n l" "rivals n k l" for l
    using inv that kk(3) unfolding node_inv_def inv_order_def by (metis rtrancl.rtrancl_refl trancl_into_rtrancl)
  have "inv_covered ?n"
    unfolding inv_covered_def f st lv
  proof (intro allI impI)
    fix l assume l: "unfinished n l \<and> \<not> (live n l \<and> l \<noteq> k)"
    show "(\<exists>s. ((stopping n)(ih \<mapsto> k)) (ih_of n l) = Some s \<and> covers n s l)
        \<and> (\<exists>s. ((stoppingDisk n)(disk_of n k \<mapsto> k)) (disk_of n l) = Some s \<and> covers n s l)"
    proof (cases "l = k")
      case True
      then show ?thesis using kk by simp
    next
      case False
      with l have "\<not> live n l" by blast
      then obtain s s' where "stopping n (ih_of n l) = Some s" "covers n s l"
        "stoppingDisk n (disk_of n l) = Some s'" "covers n s' l"
        using inv l unfolding node_inv_def inv_covered_def by metis
      then show ?thesis using cov [of l] l kk(2) by (auto simp: rivals_def)
    qed
  qed
  moreover have "inv_order ?n" using inv unfolding node_inv_def inv_order_def f lv by blast
  moreover have "inv_stop ?n" using inv kk by (auto simp: node_inv_def inv_stop_def f st split: if_splits)
  moreover have "inv_jobs ?n" using ij by (auto simp: inv_jobs_def f distinct_map_filter)
  moreover have "inv_waits ?n" "inv_cat ?n" using inv unfolding node_inv_def inv_waits_def inv_cat_def f by blast+
  ultimately show ?thesis by (simp add: node_inv_def)
qed

section \<open>Preservation: starting a job\<close>

text \<open>What a new job waits for, and when it may be started: no live job has its info hash or its
  place on disk. The lemmas below say what starting it changes; the invariant follows part by part.\<close>

definition launch_waits :: "node \<Rightarrow> File \<Rightarrow> nat list" where
  "launch_waits n f =
     (case stopping n (fInfoHash f) of None \<Rightarrow> [] | Some k \<Rightarrow> [k])
     @ (case stoppingDisk n (DiskName f) of None \<Rightarrow> [] | Some k \<Rightarrow> [k])"

definition launchable :: "node \<Rightarrow> File \<Rightarrow> bool" where
  "launchable n f \<longleftrightarrow> node_inv n \<and> map_of (jobs n) (fInfoHash f) = None
     \<and> (\<forall>k. live n k \<longrightarrow> disk_of n k \<noteq> DiskName f)"

lemma launch_fields:
  assumes "map_of (jobs n) (fInfoHash f) = None"
  shows "next_job (launch_one idx n (m, f)) = Suc (next_job n)" "ncat (launch_one idx n (m, f)) = ncat n"
    "stopping (launch_one idx n (m, f)) = stopping n" "stoppingDisk (launch_one idx n (m, f)) = stoppingDisk n"
    "jobs (launch_one idx n (m, f)) = (fInfoHash f, next_job n) # jobs n"
  using assms by (simp_all add: launch_one_def Let_def)

lemma launch_old:
  assumes "map_of (jobs n) (fInfoHash f) = None" "k \<noteq> next_job n"
  shows "table (launch_one idx n (m, f)) k = table n k"
    "ih_of (launch_one idx n (m, f)) k = ih_of n k" "disk_of (launch_one idx n (m, f)) k = disk_of n k"
  using assms by (simp_all add: launch_one_def Let_def ih_of_def disk_of_def)

lemma launch_new:
  assumes "map_of (jobs n) (fInfoHash f) = None"
  shows "kwaits (table (launch_one idx n (m, f)) (next_job n)) = launch_waits n f"
    "kphase (table (launch_one idx n (m, f)) (next_job n)) = Waiting"
    "ih_of (launch_one idx n (m, f)) (next_job n) = fInfoHash f"
    "disk_of (launch_one idx n (m, f)) (next_job n) = DiskName f"
  using assms by (simp_all add: launch_one_def Let_def launch_waits_def ih_of_def disk_of_def)

lemma launch_waits_for:
  assumes "map_of (jobs n) (fInfoHash f) = None"
  shows "waits_for (launch_one idx n (m, f)) = waits_for n \<union> {(next_job n, w) | w. w \<in> set (launch_waits n f)}"
  using launch_old(1) [OF assms] launch_new(1) [OF assms]
  by (auto simp: waits_for_def launch_fields [OF assms] less_Suc_eq)

lemma launch_mono:
  assumes "map_of (jobs n) (fInfoHash f) = None"
  shows "behind n a b \<Longrightarrow> behind (launch_one idx n (m, f)) a b"
    and "covers n a b \<Longrightarrow> covers (launch_one idx n (m, f)) a b"
  unfolding launch_waits_for [OF assms] by (meson Un_upper1 trancl_mono rtrancl_mono subsetD)+

lemma launch_live:
  assumes "map_of (jobs n) (fInfoHash f) = None"
  shows "live (launch_one idx n (m, f)) k \<longleftrightarrow> k = next_job n \<or> live n k"
  by (auto simp: live_def launch_fields [OF assms])

lemma launch_unfinished:
  assumes "map_of (jobs n) (fInfoHash f) = None"
  shows "unfinished (launch_one idx n (m, f)) k \<longleftrightarrow> k = next_job n \<or> unfinished n k"
  using launch_old(1) [OF assms, of k] launch_new(2) [OF assms]
  by (cases "k = next_job n") (auto simp: launch_fields [OF assms] less_Suc_eq)

lemma launch_rivals:
  assumes "map_of (jobs n) (fInfoHash f) = None" "k \<noteq> next_job n" "l \<noteq> next_job n"
  shows "rivals (launch_one idx n (m, f)) k l \<longleftrightarrow> rivals n k l"
  by (simp add: rivals_def launch_old [OF assms(1,2)] launch_old [OF assms(1,3)])

lemma launch_rivals_new:
  assumes "map_of (jobs n) (fInfoHash f) = None" "l \<noteq> next_job n"
  shows "rivals (launch_one idx n (m, f)) (next_job n) l \<longleftrightarrow> ih_of n l = fInfoHash f \<or> disk_of n l = DiskName f"
    and "rivals (launch_one idx n (m, f)) l (next_job n) \<longleftrightarrow> ih_of n l = fInfoHash f \<or> disk_of n l = DiskName f"
  by (auto simp: rivals_def launch_old [OF assms] launch_new [OF assms(1)])

lemma launchable_no_rival:
  assumes "launchable n f" "live n k"
  shows "ih_of n k \<noteq> fInfoHash f" "disk_of n k \<noteq> DiskName f"
proof -
  have "inv_jobs n" using assms(1) by (simp add: launchable_def node_inv_def)
  from jobs_unique(1) [OF this] assms show "ih_of n k \<noteq> fInfoHash f" "disk_of n k \<noteq> DiskName f"
    by (auto simp: launchable_def live_iff map_of_eq_None_iff image_iff)
qed

text \<open>Every unfinished job that the new one competes with is one the new job waits behind.\<close>

lemma launch_behind:
  assumes ok: "launchable n f" and l: "unfinished n l" "ih_of n l = fInfoHash f \<or> disk_of n l = DiskName f"
  shows "behind (launch_one idx n (m, f)) (next_job n) l"
proof -
  have free: "map_of (jobs n) (fInfoHash f) = None" using ok by (simp add: launchable_def)
  have "\<not> live n l" using launchable_no_rival [OF ok] l(2) by blast
  then obtain s s' where s: "stopping n (ih_of n l) = Some s" "covers n s l"
      "stoppingDisk n (disk_of n l) = Some s'" "covers n s' l"
    using ok l unfolding launchable_def node_inv_def inv_covered_def by metis
  then have "\<exists>t\<in>set (launch_waits n f). covers n t l" using l(2) by (elim disjE) (auto simp: launch_waits_def)
  then obtain t where t: "t \<in> set (launch_waits n f)" "covers n t l" ..
  from t(1) have "(next_job n, t) \<in> waits_for (launch_one idx n (m, f))" by (auto simp: launch_waits_for [OF free])
  then show ?thesis using launch_mono(2) [OF free t(2)] by (rule rtrancl_into_trancl2)
qed

lemma launch_inv_waits:
  assumes ok: "launchable n f"
  shows "inv_waits (launch_one idx n (m, f))"
  unfolding inv_waits_def
proof (intro allI impI)
  let ?n = "launch_one idx n (m, f)"
  have free: "map_of (jobs n) (fInfoHash f) = None" and inv: "node_inv n" using ok by (simp_all add: launchable_def)
  fix a b assume ab: "(a, b) \<in> waits_for ?n"
  show "b < a \<and> (kphase (table ?n a) \<noteq> Waiting \<longrightarrow> kphase (table ?n b) = Finished)"
  proof (cases "a = next_job n")
    case True
    with ab have "b \<in> set (launch_waits n f)" by (auto simp: waits_for_def launch_new [OF free])
    then have "b < next_job n"
      using inv by (auto simp: launch_waits_def node_inv_def inv_stop_def split: option.splits)
    with True show ?thesis by (simp add: launch_new [OF free])
  next
    case False
    with ab have ab': "(a, b) \<in> waits_for n" by (auto simp: launch_waits_for [OF free])
    then have "a < next_job n" by (simp add: waits_for_def)
    moreover have "b < a \<and> (kphase (table n a) \<noteq> Waiting \<longrightarrow> kphase (table n b) = Finished)"
      using inv ab' unfolding node_inv_def inv_waits_def by blast
    ultimately show ?thesis using launch_old(1) [OF free False] launch_old(1) [OF free, of b] by simp
  qed
qed

lemma launch_inv_covered:
  assumes ok: "launchable n f"
  shows "inv_covered (launch_one idx n (m, f))"
proof -
  let ?n = "launch_one idx n (m, f)"
  have free: "map_of (jobs n) (fInfoHash f) = None" and inv: "node_inv n" using ok by (simp_all add: launchable_def)
  show ?thesis
    unfolding inv_covered_def launch_fields(3,4) [OF free]
  proof (intro allI impI)
    fix k assume "unfinished ?n k \<and> \<not> live ?n k"
    then have k: "k \<noteq> next_job n" "unfinished n k \<and> \<not> live n k"
      using launch_unfinished [OF free] launch_live [OF free] by blast+
    with inv launch_old(2,3) [OF free k(1)] launch_mono(2) [OF free]
    show "(\<exists>s. stopping n (ih_of ?n k) = Some s \<and> covers ?n s k)
        \<and> (\<exists>s. stoppingDisk n (disk_of ?n k) = Some s \<and> covers ?n s k)"
      unfolding node_inv_def inv_covered_def by metis
  qed
qed

lemma launch_inv_order_live:
  assumes ok: "launchable n f"
    and *: "live (launch_one idx n (m, f)) k" "unfinished (launch_one idx n (m, f)) l" "k \<noteq> l"
      "rivals (launch_one idx n (m, f)) k l"
  shows "behind (launch_one idx n (m, f)) k l"
proof (cases "k = next_job n")
  case True
  have free: "map_of (jobs n) (fInfoHash f) = None" using ok by (simp add: launchable_def)
  from True * have l: "l \<noteq> next_job n" "unfinished n l" by (auto simp: launch_unfinished [OF free])
  with * True launch_behind [OF ok] show ?thesis by (simp add: launch_rivals_new [OF free])
next
  case False
  have free: "map_of (jobs n) (fInfoHash f) = None" and inv: "node_inv n" using ok by (simp_all add: launchable_def)
  from * False have k: "live n k" by (simp add: launch_live [OF free])
  have l: "l \<noteq> next_job n"
    using *(4) launchable_no_rival [OF ok k] launch_rivals_new(2) [OF free False] by blast
  then have "unfinished n l" "rivals n k l" using * launch_unfinished [OF free] launch_rivals [OF free False l] by blast+
  with *(3) k inv have "behind n k l" unfolding node_inv_def inv_order_def by blast
  then show ?thesis by (rule launch_mono(1) [OF free])
qed

lemma launch_inv_order:
  assumes ok: "launchable n f"
    and *: "unfinished (launch_one idx n (m, f)) k" "unfinished (launch_one idx n (m, f)) l" "k \<noteq> l"
      "rivals (launch_one idx n (m, f)) k l"
  shows "behind (launch_one idx n (m, f)) k l \<or> behind (launch_one idx n (m, f)) l k"
proof -
  have free: "map_of (jobs n) (fInfoHash f) = None" and inv: "node_inv n" using ok by (simp_all add: launchable_def)
  consider "k = next_job n" | "l = next_job n" | "k \<noteq> next_job n" "l \<noteq> next_job n" by blast
  then show ?thesis
  proof cases
    case 1
    with launch_inv_order_live [OF ok] * show ?thesis by (simp add: launch_live [OF free])
  next
    case 2
    moreover have "rivals (launch_one idx n (m, f)) l k" using *(4) by (auto simp: rivals_def)
    ultimately show ?thesis using launch_inv_order_live [OF ok] * by (simp add: launch_live [OF free])
  next
    case 3
    then have "unfinished n k" "unfinished n l" "rivals n k l"
      using * launch_unfinished [OF free] launch_rivals [OF free 3] by blast+
    with *(3) inv have "behind n k l \<or> behind n l k" unfolding node_inv_def inv_order_def by blast
    then show ?thesis using launch_mono(1) [OF free] by blast
  qed
qed

lemma launch_inv:
  assumes ok: "launchable n f"
  shows "node_inv (launch_one idx n (m, f))"
proof -
  let ?n = "launch_one idx n (m, f)"
  have free: "map_of (jobs n) (fInfoHash f) = None" and inv: "node_inv n" using ok by (simp_all add: launchable_def)
  have "inv_jobs ?n"
    using inv free launch_old(2,3) [OF free] launch_new(3,4) [OF free]
    by (auto simp: node_inv_def inv_jobs_def launch_fields [OF free] map_of_eq_None_iff less_Suc_eq)
  moreover have "inv_stop ?n" using inv by (auto simp: node_inv_def inv_stop_def launch_fields [OF free] less_Suc_eq)
  moreover have "inv_order ?n"
    unfolding inv_order_def using launch_inv_order_live [OF ok] launch_inv_order [OF ok] by blast
  moreover have "inv_cat ?n" using inv by (simp add: node_inv_def inv_cat_def launch_fields [OF free])
  ultimately show ?thesis
    using launch_inv_waits [OF ok] launch_inv_covered [OF ok] by (simp add: node_inv_def)
qed

section \<open>Preservation: reconciliation\<close>

lemma prune_one_nio: "\<exists>S. prune_one inCat n r = n\<lparr>nio := S\<rparr>"
  by (cases r) (auto simp: prune_one_def Let_def split: prod.splits option.splits remove_error.splits intro: exI [of _ "nio n"])

lemma pruneRecorded_nio: "\<exists>S. pruneRecordedLocked inCat n = n\<lparr>nio := S\<rparr>"
proof -
  have "\<exists>S. foldl (prune_one inCat) n rs = n\<lparr>nio := S\<rparr>" for rs
  proof (induction rs arbitrary: n)
    case Nil
    show ?case by (intro exI [of _ "nio n"]) simp
  next
    case (Cons r rs)
    from prune_one_nio [of inCat n r] obtain S where "prune_one inCat n r = n\<lparr>nio := S\<rparr>" ..
    with Cons.IH [of "n\<lparr>nio := S\<rparr>"] show ?case by auto
  qed
  then show ?thesis by (auto simp: pruneRecordedLocked_def intro: exI [of _ "nio n"])
qed

lemma nio_inv: "node_inv n \<Longrightarrow> node_inv (n\<lparr>nio := S\<rparr>)"
  by (rule unrelated_inv) (auto simp: same_jobs_def)

lemma wanted_units_cong:
  "Want n' = Want n \<Longrightarrow> extraWant n' = extraWant n \<Longrightarrow> wanted_units n' c = wanted_units n c"
  by (simp add: wanted_units_def wantedLocked_def)

lemma wanted_units_in: "(m, f) \<in> set (wanted_units n c) \<Longrightarrow> f \<in> set (concat (map units (Models c)))"
  by (auto simp: wanted_units_def split: if_splits)

lemma keep_unit: "keep n c ih = Some (i, f) \<Longrightarrow> fInfoHash f = ih \<and> f \<in> set (concat (map units (Models c)))"
  unfolding keep_def by (auto dest!: map_of_SomeD wanted_units_in)

text \<open>After the retiring loop every job left serves its unit of the catalog as it stands there.\<close>

definition current :: "node \<Rightarrow> Catalog \<Rightarrow> string \<times> nat \<Rightarrow> bool" where
  "current n c jk \<longleftrightarrow> keep n c (fst jk) = Some (kmodel (table n (snd jk)), kf (table n (snd jk)))"

lemma retire_one_cases:
  "retire_one c rf n (ih, k) = n \<and> current n c (ih, k) \<or> (\<exists>pr. retire_one c rf n (ih, k) = retireLocked n ih k pr)"
  by (auto simp: retire_one_def current_def split: option.splits)

lemma current_retire: "current (retireLocked n ih k pr) c jk \<longleftrightarrow> current n c jk"
  by (simp add: current_def retire_fields keep_def wanted_units_cong [of "retireLocked n ih k pr" n])

lemma retire_fold:
  assumes "node_inv n" "set js \<subseteq> set (jobs n)" "distinct (map fst js)"
    and "\<forall>jk\<in>set (jobs n) - set js. current n c jk"
  shows "node_inv (foldl (retire_one c rf) n js) \<and> ncat (foldl (retire_one c rf) n js) = ncat n
     \<and> Want (foldl (retire_one c rf) n js) = Want n \<and> extraWant (foldl (retire_one c rf) n js) = extraWant n
     \<and> (\<forall>jk\<in>set (jobs (foldl (retire_one c rf) n js)). current (foldl (retire_one c rf) n js) c jk)"
  using assms
proof (induction js arbitrary: n)
  case Nil
  then show ?case by simp
next
  case (Cons j js)
  obtain ih k where j: "j = (ih, k)" by force
  from retire_one_cases [of c rf n ih k] show ?case
  proof
    assume "retire_one c rf n (ih, k) = n \<and> current n c (ih, k)"
    then show ?thesis using Cons.IH [of n] Cons.prems j by auto
  next
    assume "\<exists>pr. retire_one c rf n (ih, k) = retireLocked n ih k pr"
    then obtain pr where r: "retire_one c rf n (ih, k) = retireLocked n ih k pr" ..
    let ?n = "retireLocked n ih k pr"
    have inv: "node_inv ?n" using retire_inv [OF Cons.prems(1)] Cons.prems(2) j by simp
    have "set js \<subseteq> set (jobs ?n)" using Cons.prems(2,3) j by (force simp: retire_fields)
    moreover have "\<forall>jk\<in>set (jobs ?n) - set js. current ?n c jk"
      using Cons.prems(4) j by (auto simp: retire_fields current_retire)
    ultimately show ?thesis using Cons.IH [OF inv] Cons.prems(3) r j by (simp add: retire_fields)
  qed
qed

lemma distinct_filter_units:
  "distinct (map g (concat (map units ms))) \<Longrightarrow> distinct (map g (concat (map units (filter P ms))))"
  by (induction ms) auto

lemma wanted_units_snd: "map snd (wanted_units n c) = concat (map units (filter (\<lambda>m. wantedLocked n (ID m)) (Models c)))"
proof -
  have "map snd (concat (map (\<lambda>m. if P m then map (\<lambda>f. (m, f)) (units m) else []) ms)) = concat (map units (filter P ms))"
    for P :: "Model \<Rightarrow> bool" and ms by (induction ms) (auto simp: comp_def)
  then show ?thesis by (simp add: wanted_units_def)
qed

lemma keep_wanted:
  assumes "valid_units c" "(m, f) \<in> set (wanted_units n c)"
  shows "keep n c (fInfoHash f) = Some (ID m, f)"
proof -
  have "distinct (map fInfoHash (map snd (wanted_units n c)))"
    using assms(1) distinct_filter_units unfolding wanted_units_snd valid_units_def by blast
  then have "distinct (map fst (rev (map (\<lambda>(m, f). (fInfoHash f, (ID m, f))) (wanted_units n c))))"
    by (simp add: rev_map [symmetric] comp_def case_prod_unfold)
  then show ?thesis using assms(2) unfolding keep_def by (intro map_of_is_SomeI) force+
qed

lemma current_unit: "current n c (ih, k) \<Longrightarrow> kf (table n k) \<in> set (concat (map units (Models c)))"
  using keep_unit [of n c ih "kmodel (table n k)" "kf (table n k)"] by (simp add: current_def)

lemma launch_one_current:
  fixes idx :: adoptIndex
  assumes inv: "node_inv n" and v: "valid_units c" and mf: "(m, f) \<in> set (wanted_units n c)"
    and cur: "\<forall>jk\<in>set (jobs n). current n c jk"
  defines "n' \<equiv> launch_one idx n (m, f)"
  shows "node_inv n'" "\<forall>jk\<in>set (jobs n'). current n' c jk" "fst ` set (jobs n') = insert (fInfoHash f) (fst ` set (jobs n))"
    "Want n' = Want n" "extraWant n' = extraWant n"
proof -
  let ?U = "concat (map units (Models c))"
  have f: "f \<in> set ?U" using wanted_units_in [OF mf] .
  show w: "Want n' = Want n" "extraWant n' = extraWant n" by (simp_all add: n'_def launch_one_def Let_def)
  note kp = keep_def [of n'] keep_def [of n] wanted_units_cong [OF w]
  have "node_inv n' \<and> (\<forall>jk\<in>set (jobs n'). current n' c jk) \<and> fst ` set (jobs n') = insert (fInfoHash f) (fst ` set (jobs n))"
  proof (cases "map_of (jobs n) (fInfoHash f) = None")
    case False
    then have "fInfoHash f \<in> fst ` set (jobs n)" by (simp add: map_of_eq_None_iff)
    with False inv cur show ?thesis by (auto simp: n'_def launch_one_def)
  next
    case True
    have "disk_of n k \<noteq> DiskName f" if l: "live n k" for k
    proof
      assume d: "disk_of n k = DiskName f"
      from l obtain ih where ih: "(ih, k) \<in> set (jobs n)" by (auto simp: live_iff)
      then have "kf (table n k) \<in> set ?U" using cur current_unit by blast
      with d f v have "kf (table n k) = f" by (auto simp: disk_of_def valid_units_def distinct_map dest: inj_onD)
      then have "ih = fInfoHash f" using ih jobs_unique(1) [of n ih k] inv by (auto simp: node_inv_def ih_of_def)
      with ih True show False by (auto simp: map_of_eq_None_iff image_iff)
    qed
    then have "node_inv n'" using launch_inv inv True unfolding n'_def launchable_def by blast
    moreover have "k \<noteq> next_job n" if "(ih, k) \<in> set (jobs n)" for ih k
      using jobs_unique(1) [of n ih k] that inv by (auto simp: node_inv_def)
    then have "\<forall>jk\<in>set (jobs n'). current n' c jk"
      using cur keep_wanted [OF v mf] True kp by (auto simp: n'_def launch_one_def Let_def current_def)
    ultimately show ?thesis using True by (simp add: n'_def launch_one_def Let_def)
  qed
  then show "node_inv n'" "\<forall>jk\<in>set (jobs n'). current n' c jk" "fst ` set (jobs n') = insert (fInfoHash f) (fst ` set (jobs n))"
    by blast+
qed

lemma launch_fold:
  assumes "node_inv n" "valid_units c" "set ms \<subseteq> set (wanted_units n c)" "\<forall>jk\<in>set (jobs n). current n c jk"
  shows "node_inv (foldl (launch_one idx) n ms) \<and> (\<forall>jk\<in>set (jobs (foldl (launch_one idx) n ms)). current (foldl (launch_one idx) n ms) c jk)
    \<and> fst ` set (jobs (foldl (launch_one idx) n ms)) = (fInfoHash \<circ> snd) ` set ms \<union> fst ` set (jobs n)
    \<and> Want (foldl (launch_one idx) n ms) = Want n \<and> extraWant (foldl (launch_one idx) n ms) = extraWant n"
  using assms
proof (induction ms arbitrary: n)
  case Nil
  then show ?case by simp
next
  case (Cons mf ms)
  obtain m f where mf: "mf = (m, f)" by force
  have "(m, f) \<in> set (wanted_units n c)" using Cons.prems(3) mf by simp
  note one = launch_one_current [OF Cons.prems(1,2) this Cons.prems(4), of idx]
  have "set ms \<subseteq> set (wanted_units (launch_one idx n (m, f)) c)"
    using Cons.prems(3) wanted_units_cong [OF one(4,5)] by simp
  with Cons.IH [OF one(1) Cons.prems(2) _ one(2)] one(3-5) mf show ?case by auto
qed

text \<open>What the node serves under an infohash: the model and the file of its job.\<close>

definition serves :: "node \<Rightarrow> string \<Rightarrow> (string \<times> File) option" where
  "serves n ih = map_option (\<lambda>k. (kmodel (table n k), kf (table n k))) (map_of (jobs n) ih)"

lemma serves_keep:
  assumes "\<forall>jk\<in>set (jobs n). current n c jk" "fst ` set (jobs n) \<supseteq> (fInfoHash \<circ> snd) ` set (wanted_units n c)"
  shows "serves n = keep n c"
proof
  fix ih
  show "serves n ih = keep n c ih"
  proof (cases "map_of (jobs n) ih")
    case None
    then have "ih \<notin> fst ` set (jobs n)" by (simp add: map_of_eq_None_iff)
    with assms(2) have "keep n c ih = None" by (fastforce simp: keep_def map_of_eq_None_iff image_iff)
    with None show ?thesis by (simp add: serves_def)
  next
    case (Some k)
    then have "current n c (ih, k)" using assms(1) map_of_SomeD by metis
    with Some show ?thesis by (simp add: serves_def current_def)
  qed
qed

lemma reconcile_steps:
  assumes inv: "node_inv n" and c: "ncat n = Some c" "\<not> closed n"
  obtains n2 where "node_inv n2" "\<forall>jk\<in>set (jobs n2). current n2 c jk" "Want n2 = Want n" "extraWant n2 = extraWant n"
    "snd (reconcileLocked rf None n) = n2"
    "\<And>idx. snd (reconcileLocked rf (Some idx) n) = foldl (launch_one idx) n2 (wanted_units n2 c)"
proof -
  let ?n1 = "foldl (retire_one c rf) n (jobs n)"
  have n1: "node_inv ?n1" "\<forall>jk\<in>set (jobs ?n1). current ?n1 c jk" "Want ?n1 = Want n" "extraWant ?n1 = extraWant n"
    using retire_fold [OF inv subset_refl, of c rf] inv by (auto simp: node_inv_def inv_jobs_def)
  obtain S where S: "pruneRecordedLocked (inCatalog (Some c)) ?n1 = ?n1\<lparr>nio := S\<rparr>" using pruneRecorded_nio by blast
  show thesis
  proof (rule that [of "?n1\<lparr>nio := S\<rparr>"])
    show "node_inv (?n1\<lparr>nio := S\<rparr>)" by (rule nio_inv [OF n1(1)])
    have "keep (?n1\<lparr>nio := S\<rparr>) c = keep ?n1 c" unfolding keep_def by (simp add: wanted_units_cong [of "?n1\<lparr>nio := S\<rparr>" ?n1])
    with n1(2) show "\<forall>jk\<in>set (jobs (?n1\<lparr>nio := S\<rparr>)). current (?n1\<lparr>nio := S\<rparr>) c jk" by (simp add: current_def)
  qed (use n1 c S in \<open>simp_all add: reconcileLocked_def Let_def\<close>)
qed

lemma reconcile_inv:
  assumes "node_inv n"
  shows "node_inv (snd (reconcileLocked rf idx n))"
proof (cases "ncat n = None \<or> closed n")
  case True
  with assms show ?thesis by (auto simp: reconcileLocked_def split: option.splits)
next
  case False
  then obtain c where c: "ncat n = Some c" "\<not> closed n" by auto
  then have v: "valid_units c" using assms by (simp add: node_inv_def inv_cat_def)
  obtain n2 where "node_inv n2" "\<forall>jk\<in>set (jobs n2). current n2 c jk" "snd (reconcileLocked rf None n) = n2"
    "\<And>i. snd (reconcileLocked rf (Some i) n) = foldl (launch_one i) n2 (wanted_units n2 c)"
    using reconcile_steps [OF assms c, of rf] by metis
  then show ?thesis using launch_fold [OF _ v subset_refl, of n2] by (cases idx) auto
qed

lemma reconcile_serves:
  assumes "node_inv n" "ncat n = Some c" "\<not> closed n"
  shows "serves (snd (reconcileLocked rf (Some idx) n)) = keep n c"
proof -
  have v: "valid_units c" using assms by (simp add: node_inv_def inv_cat_def)
  obtain n2 where n2: "node_inv n2" "\<forall>jk\<in>set (jobs n2). current n2 c jk" "Want n2 = Want n" "extraWant n2 = extraWant n"
    "snd (reconcileLocked rf (Some idx) n) = foldl (launch_one idx) n2 (wanted_units n2 c)"
    using reconcile_steps [OF assms, of rf] by metis
  let ?n = "foldl (launch_one idx) n2 (wanted_units n2 c)"
  note l = launch_fold [OF n2(1) v subset_refl n2(2), of idx]
  have w: "wanted_units ?n c = wanted_units n2 c" "wanted_units n2 c = wanted_units n c"
    using l n2(3,4) by (blast intro: wanted_units_cong)+
  then have k: "keep ?n c = keep n c" by (simp add: keep_def)
  have "serves ?n = keep ?n c" using l w(1) by (intro serves_keep) auto
  with n2(5) k show ?thesis by simp
qed

lemma node_step_inv: "node_step n n' \<Longrightarrow> node_inv n \<Longrightarrow> node_inv n'"
proof (induction rule: node_step.induct)
  case (set_catalog pm up c n)
  have "valid_units c" using validated_units(1,2) [OF set_catalog(1)] by (simp add: valid_units_def)
  then have "node_inv (n\<lparr>ncat := Some c\<rparr>)"
    using set_catalog unfolding node_inv_def inv_defs
    by (simp add: waits_for_def ih_of_def disk_of_def live_def rivals_def)
  then show ?case unfolding SetCatalog_def by (rule reconcile_inv)
next
  case (ensure n i scan n')
  have "node_inv (n\<lparr>extraWant := i # extraWant n\<rparr>)"
    by (rule unrelated_inv [OF ensure(2)]) (auto simp: same_jobs_def)
  then have "node_inv (snd (reconcileLocked False None (n\<lparr>extraWant := i # extraWant n\<rparr>)))" by (rule reconcile_inv)
  with ensure show ?case by (auto simp: Ensure_want_def split: option.splits if_splits dest!: arg_cong [of _ _ snd])
next
  case (scanned n rf idx)
  then show ?case by (rule reconcile_inv)
next
  case (close n)
  then show ?case unfolding Close_def by (rule unrelated_inv) (auto simp: same_jobs_def)
next
  case (shuffle js n)
  have "distinct (map fst js) = distinct (map fst (jobs n))"
    using shuffle distinct_map [of fst js] distinct_map [of fst "jobs n"] by (auto simp: node_inv_def inv_jobs_def distinct_map)
  with shuffle show ?case by (intro unrelated_inv [OF shuffle(3)]) (auto simp: same_jobs_def)
next
  case (begin_job k n)
  then show ?case by (intro begin_job_inv)
next
  case (fail_job k n)
  show ?case by (rule unrelated_inv [OF fail_job(3)]) (auto simp: same_jobs_def)
next
  case (end_job k n)
  then show ?case by (intro end_job_inv)
next
  case (forget k ih dn n)
  then show ?case by (intro forget_inv)
next
  case (disk_io n S)
  then show ?case by (rule nio_inv)
next
  case (space n alloc free ih p sz)
  then show ?case by (rule unrelated_inv) (auto simp: same_jobs_def reserveSpace_def Let_def split: option.splits)
next
  case (unspace n ih)
  then show ?case by (rule unrelated_inv) (auto simp: same_jobs_def releaseSpace_def)
qed

lemma reachable_inv: "reachable n \<Longrightarrow> node_inv n"
proof (induction rule: reachable.induct)
  case (start E wnt pr d w n)
  then show ?case by (auto simp: New_def node_inv_def inv_defs waits_for_def live_def split: option.splits)
next
  case (step n n')
  then show ?case using node_step_inv by blast
qed


section \<open>Lemmas: pruning touches only the node's own downloads\<close>

text \<open>A record that the sweep may act on.\<close>

definition prunable :: "(string \<Rightarrow> bool) \<Rightarrow> node \<Rightarrow> string \<times> downloadedFile \<Rightarrow> bool" where
  "prunable inCat n r \<longleftrightarrow> (case r of (ih, rec) \<Rightarrow> \<not> inCat ih \<and> map_of (jobs n) ih = None \<and> stopping n ih = None
     \<and> \<not> list_ex (\<lambda>(_, k). job_path n k = Path rec) (jobs n) \<and> strict_prefix (Clean (dataDir (nEnv n))) (Clean (Path rec)))"

lemma prune_one_world:
  assumes "wf_world (wd (nio n))" "Path rec \<noteq> []" "plain_path (wd (nio n)) (Path rec)"
  shows "wf_world (wd (nio (prune_one inCat n (ih, rec))))
    \<and> shrinks (\<lambda>s. prunable inCat n (ih, rec) \<and> ours (wd (nio n)) rec s) (wd (nio n)) (wd (nio (prune_one inCat n (ih, rec))))"
proof (cases "prunable inCat n (ih, rec) \<and> snd (statRecorded (wd (nio n)) rec)")
  case False
  then show ?thesis using assms(1)
    by (auto simp: prune_one_def prunable_def pathInDir_iff Let_def split: prod.splits)
next
  case True
  let ?w = "wd (nio n)"
  obtain r w where rm: "removeRecorded ?w rec = (r, w)" by force
  have "resolve ?w (Path rec) False = Inr (Path rec)"
    using True resolve_plain [OF assms(3)]
    by (auto simp: statRecorded_def Lstat_def look_def split: option.splits sum.splits)
  then have "entry ?w (Path rec) \<noteq> None"
    using True by (auto simp: statRecorded_def Lstat_def look_def split: option.splits sum.splits)
  then have "real_path ?w (Path rec)" using wf_entry(1) [OF assms(1)] by blast
  from removeRecorded_ours [OF assms(1) this assms(2) _ rm] True
  have "shrinks (ours ?w rec) ?w w \<and> wf_world w" by blast
  moreover have "wd (nio (prune_one inCat n (ih, rec))) \<in> {?w, w}"
    using rm by (auto simp: prune_one_def Let_def split: prod.splits option.splits remove_error.splits)
  ultimately show ?thesis using True assms(1) by (auto elim: shrinks_mono)
qed


lemma ours_shrinks: "shrinks P w w' \<Longrightarrow> ours w' rec s \<Longrightarrow> ours w rec s"
  unfolding shrinks_def ours_def by (auto split: option.splits) (metis option.distinct(1))+

lemma prunable_nio [simp]: "prunable inCat (n\<lparr>nio := S\<rparr>) r = prunable inCat n r"
  by (simp add: prunable_def job_path_def)

lemma prune_fold_world:
  assumes "wf_world (wd (nio n))" "\<forall>(ih, rec)\<in>set rs. Path rec \<noteq> [] \<and> plain_path (wd (nio n)) (Path rec)"
  shows "shrinks (\<lambda>s. \<exists>(ih, rec)\<in>set rs. prunable inCat n (ih, rec) \<and> ours (wd (nio n)) rec s)
     (wd (nio n)) (wd (nio (foldl (prune_one inCat) n rs)))"
  using assms
proof (induction rs arbitrary: n)
  case Nil
  show ?case by simp
next
  case (Cons r rs)
  obtain ih rec where r: "r = (ih, rec)" by force
  obtain S where S: "prune_one inCat n r = n\<lparr>nio := S\<rparr>" using prune_one_nio by blast
  let ?w = "wd (nio n)" and ?P = "\<lambda>s. \<exists>(ih, rec)\<in>set (r # rs). prunable inCat n (ih, rec) \<and> ours (wd (nio n)) rec s"
  have one: "wf_world (wd S)" "shrinks (\<lambda>s. prunable inCat n (ih, rec) \<and> ours ?w rec s) ?w (wd S)"
    using prune_one_world [OF Cons.prems(1), of rec inCat ih] Cons.prems(2) r S by auto
  from one(2) have first: "shrinks ?P ?w (wd S)" by (rule shrinks_mono) (auto simp: r)
  have "\<forall>(ih, rec)\<in>set rs. Path rec \<noteq> [] \<and> plain_path (wd S) (Path rec)"
    using Cons.prems(2) plain_shrinks [OF _ one(2)] by auto
  with Cons.IH [of "n\<lparr>nio := S\<rparr>"] one(1)
  have "shrinks (\<lambda>s. \<exists>(ih, rec)\<in>set rs. prunable inCat n (ih, rec) \<and> ours (wd S) rec s) (wd S)
      (wd (nio (foldl (prune_one inCat) (n\<lparr>nio := S\<rparr>) rs)))" by simp
  then have "shrinks ?P (wd S) (wd (nio (foldl (prune_one inCat) (n\<lparr>nio := S\<rparr>) rs)))"
    by (rule shrinks_mono) (auto dest: ours_shrinks [OF one(2)])
  with first S show ?case by (auto intro: shrinks_trans)
qed


section \<open>Lemmas: reservations\<close>

text \<open>What the admitted downloads still have to write, and the sizes for which no sum wraps around.\<close>

definition held :: "(path \<Rightarrow> int) \<Rightarrow> (string \<times> reservation) list \<Rightarrow> int" where
  "held alloc rs = (\<Sum>(k, r)\<leftarrow>rs. max 0 (rSize r - alloc (rPath r)))"

definition sane_sizes :: "(path \<Rightarrow> int) \<Rightarrow> (string \<times> reservation) list \<Rightarrow> bool" where
  "sane_sizes alloc rs \<longleftrightarrow> (\<forall>(k, r)\<in>set rs. 0 \<le> rSize r \<and> 0 \<le> alloc (rPath r) \<and> alloc (rPath r) < 2 ^ 63)
     \<and> (\<Sum>(k, r)\<leftarrow>rs. rSize r) + spaceMargin < 2 ^ 63"

lemma held_nonneg: "0 \<le> held alloc rs"
  by (induction rs) (auto simp: held_def)

lemma held_filter: "held alloc (filter P rs) \<le> held alloc rs"
  by (induction rs) (auto simp: held_def)

lemma held_le: "\<forall>(k, r)\<in>set rs. 0 \<le> rSize r \<and> 0 \<le> alloc (rPath r) \<Longrightarrow> held alloc rs \<le> (\<Sum>(k, r)\<leftarrow>rs. rSize r)"
  by (induction rs) (auto simp: held_def)

lemma sizes_nonneg: "\<forall>(k, r)\<in>set rs. 0 \<le> rSize r \<Longrightarrow> 0 \<le> (\<Sum>(k, r)\<leftarrow>rs. rSize r)"
  by (induction rs) auto

lemma outstanding_exact:
  "0 \<le> rSize r \<Longrightarrow> rSize r < 2 ^ 63 \<Longrightarrow> 0 \<le> alloc (rPath r) \<Longrightarrow> alloc (rPath r) < 2 ^ 63 \<Longrightarrow>
   outstanding alloc r = max 0 (rSize r - alloc (rPath r))"
  by (simp add: outstanding_def i64_id in_i64_def)

lemma others_sum_exact:
  assumes "\<forall>(k, r)\<in>set rs. 0 \<le> rSize r \<and> 0 \<le> alloc (rPath r) \<and> alloc (rPath r) < 2 ^ 63"
    and "0 \<le> acc" "acc + (\<Sum>(k, r)\<leftarrow>rs. rSize r) < 2 ^ 63"
  shows "foldl (\<lambda>acc (k, r). if k \<noteq> ih then i64 (acc + outstanding alloc r) else acc) acc rs
     = acc + held alloc (filter (\<lambda>(k, _). k \<noteq> ih) rs)"
  using assms
proof (induction rs arbitrary: acc)
  case Nil
  show ?case by (simp add: held_def)
next
  case (Cons x rs)
  obtain k r where x: "x = (k, r)" by force
  have nn: "0 \<le> (\<Sum>(k, r)\<leftarrow>rs. rSize r)" using Cons.prems(1) by (intro sizes_nonneg) auto
  have o: "outstanding alloc r = max 0 (rSize r - alloc (rPath r))"
    using Cons.prems nn x by (intro outstanding_exact) auto
  let ?acc = "if k \<noteq> ih then i64 (acc + outstanding alloc r) else acc"
  have acc: "?acc = (if k \<noteq> ih then acc + max 0 (rSize r - alloc (rPath r)) else acc)"
    using Cons.prems nn x unfolding o by (auto simp: i64_id in_i64_def max_def)
  have "0 \<le> ?acc" "?acc + (\<Sum>(k, r)\<leftarrow>rs. rSize r) < 2 ^ 63" using Cons.prems x unfolding acc by (auto simp: max_def)
  from Cons.IH [OF _ this] Cons.prems(1) show ?case unfolding x by (simp add: acc) (simp add: held_def)
qed


section \<open>A sample run\<close>

text \<open>Two jobs are started and become active; the first model leaves the catalog and comes back while its
  first job is still winding down, so that its new job has to wait.\<close>

definition demo_idx :: adoptIndex where
  "demo_idx = \<lparr>aFiles = [], aDirs = []\<rparr>"

definition demo_small :: Catalog where
  "demo_small = \<lparr>Version = 2, Generated = 6, Models = [demo_dir_model]\<rparr>"

definition demo_started :: node where
  "demo_started = snd (reconcileLocked True (Some demo_idx)
     (snd (SetCatalog demo_catalog (the (New demo_env [''*''] True DiskAbsent demo_jworld)))))"

definition demo_active :: node where
  "demo_active = set_phase 1 Active (set_phase 0 Active demo_started)"

definition demo_again :: node where
  "demo_again = snd (reconcileLocked True (Some demo_idx) (snd (SetCatalog demo_catalog (snd (SetCatalog demo_small demo_active)))))"

lemma demo_valid: "Validate demo_pm demo_up (Models demo_catalog) = None" "Validate demo_pm demo_up (Models demo_small) = None"
proof -
  show "Validate demo_pm demo_up (Models demo_catalog) = None" by (simp add: Validate_wf demo_wf)
  show "Validate demo_pm demo_up (Models demo_small) = None"
    using demo_wf by (auto simp: Validate_wf wf_models_def demo_catalog_def demo_small_def)
qed

lemma demo_started_values: "next_job demo_started = 2 \<and> kphase (table demo_started 0) = Waiting \<and> kphase (table demo_started 1) = Waiting
   \<and> kwaits (table demo_started 0) = [] \<and> kwaits (table demo_started 1) = []"
  by code_simp

lemma demo_again_values: "next_job demo_again = 3 \<and> kphase (table demo_again 0) = Active \<and> kphase (table demo_again 1) = Active
   \<and> kphase (table demo_again 2) = Waiting \<and> kwaits (table demo_again 2) = [0, 0]"
  by code_simp

lemma demo_reachable: "reachable demo_started" "reachable demo_active" "reachable demo_again"
proof -
  have new: "New demo_env [''*''] True DiskAbsent demo_jworld = Some (the (New demo_env [''*''] True DiskAbsent demo_jworld))"
    by (simp add: New_def openDownloadRecord_def)
  show s: "reachable demo_started"
    unfolding demo_started_def
    by (rule reachable.step [OF reachable.step [OF reachable.start [OF new] node_step.set_catalog [OF demo_valid(1)]] node_step.scanned])
  have "node_step demo_started (set_phase 0 Active demo_started)"
    using demo_started_values by (intro node_step.begin_job) auto
  moreover have "node_step (set_phase 0 Active demo_started) demo_active"
    using demo_started_values unfolding demo_active_def by (intro node_step.begin_job) (auto simp: set_phase_def)
  ultimately show a: "reachable demo_active" using s reachable.step by blast
  show "reachable demo_again"
    unfolding demo_again_def
    by (rule reachable.step [OF reachable.step [OF reachable.step [OF a node_step.set_catalog [OF demo_valid(2)]]
          node_step.set_catalog [OF demo_valid(1)]] node_step.scanned])
qed


definition demo_pruning :: node where
  "demo_pruning = (the (New demo_env [] True DiskAbsent demo_jworld))\<lparr>nio := demo_io\<rparr>"

section \<open>Properties\<close>

text \<open>C7. Hand-over: in every state that any interleaving of catalog updates, wishes, scans, jobs and
  clean-up goroutines can reach, two different jobs that are past their waits have different infohashes,
  different data paths and different incoming paths, so no two ever work on the same torrent or files.\<close>

theorem handover_exclusive:
  assumes "reachable n" "k < next_job n" "l < next_job n" "k \<noteq> l"
    "kphase (table n k) = Active" "kphase (table n l) = Active"
  shows "fInfoHash (kf (table n k)) \<noteq> fInfoHash (kf (table n l)) \<and> job_path n k \<noteq> job_path n l
     \<and> incomingDir (nEnv n) @ [DiskName (kf (table n k))] \<noteq> incomingDir (nEnv n) @ [DiskName (kf (table n l))]"
  using active_not_rivals [OF reachable_inv [OF assms(1)] assms(2-6)]
  by (simp add: rivals_def ih_of_def disk_of_def job_path_def)

theorem handover_exclusive_witness:
  "reachable demo_again \<and> kphase (table demo_again 0) = Active \<and> kphase (table demo_again 1) = Active
   \<and> job_path demo_again 0 \<noteq> job_path demo_again 1"
  using handover_exclusive [OF demo_reachable(3), of 0 1] demo_again_values demo_reachable(3) by simp

text \<open>C8. Reconciliation implements its specification: with a catalog loaded and the adoption scan done,
  the node's jobs are exactly the wanted units of the catalog, each with the model and the catalog entry
  it has there; nothing else runs, whatever ran before. What is compared is the model's id and the unit: the job of a folder model
  keeps the model it was launched with, as the code does, and its unit has the infohash of all of the folder's content.\<close>

theorem reconcile_refines_catalog:
  assumes "reachable n" "ncat n = Some c" "\<not> closed n"
  shows "serves (snd (reconcileLocked retryFailed (Some idx) n)) = keep n c"
  using reconcile_serves [OF reachable_inv [OF assms(1)] assms(2,3)] .

theorem reconcile_refines_catalog_witness:
  "serves (snd (reconcileLocked True (Some demo_idx) demo_again)) (fInfoHash demo_file) = Some (''m1'', demo_file)"
proof -
  have "ncat demo_again = Some demo_catalog" "\<not> closed demo_again" by code_simp+
  moreover have "keep demo_again demo_catalog (fInfoHash demo_file) = Some (''m1'', demo_file)" by code_simp
  ultimately show ?thesis using reconcile_refines_catalog [OF demo_reachable(3)] by simp
qed

text \<open>Admission is exact and never overcommits: as long as the sizes involved fit in 63 bits, a
  download is admitted exactly when what all admitted downloads still have to write, its own share
  included, fits in the free space with a gibibyte left; a refusal changes nothing.\<close>

theorem reserve_space_exact:
  assumes "sane_sizes alloc ((ih, \<lparr>rPath = p, rSize = sz\<rparr>) # reserved n)" "0 \<le> fr" "fr < 2 ^ 63"
    and "reserveSpace alloc (Some fr) n ih p sz = (admitted, n')"
  shows "(admitted \<longleftrightarrow> held alloc ((ih, \<lparr>rPath = p, rSize = sz\<rparr>) # filter (\<lambda>(k, _). k \<noteq> ih) (reserved n)) + 2 ^ 30 \<le> fr)
    \<and> (if admitted then held alloc (reserved n') + 2 ^ 30 \<le> fr \<and> map_of (reserved n') ih = Some \<lparr>rPath = p, rSize = sz\<rparr> else n' = n)"
proof -
  let ?r = "\<lparr>rPath = p, rSize = sz\<rparr>" and ?os = "filter (\<lambda>(k, _). k \<noteq> ih) (reserved n)"
  let ?S = "\<Sum>(k, r)\<leftarrow>reserved n. rSize r"
  have s: "\<forall>(k, r)\<in>set (reserved n). 0 \<le> rSize r \<and> 0 \<le> alloc (rPath r) \<and> alloc (rPath r) < 2 ^ 63"
    "0 \<le> sz" "0 \<le> alloc p" "alloc p < 2 ^ 63" "sz + ?S + 2 ^ 30 < 2 ^ 63"
    using assms(1) by (auto simp: sane_sizes_def spaceMargin_def)
  have nn: "0 \<le> ?S" using s(1) by (intro sizes_nonneg) auto
  have o: "outstanding alloc ?r = max 0 (sz - alloc p)" using s nn by (subst outstanding_exact) auto
  have "held alloc ?os \<le> held alloc (reserved n)" by (rule held_filter)
  also have "\<dots> \<le> ?S" using s(1) by (intro held_le) auto
  finally have h: "held alloc ?os \<le> ?S" "0 \<le> held alloc ?os" using held_nonneg by auto
  have sum: "others_sum alloc ih (reserved n) = held alloc ?os"
    unfolding others_sum_def using others_sum_exact [of "reserved n" alloc 0 ih] s nn by simp
  have "i64 fr = fr" "i64 (fr - held alloc ?os) = fr - held alloc ?os"
    "i64 (max 0 (sz - alloc p) + 2 ^ 30) = max 0 (sz - alloc p) + 2 ^ 30"
    using assms(2,3) h s nn by (auto intro!: i64_id simp: in_i64_def)
  then have "reserveSpace alloc (Some fr) n ih p sz =
     (if max 0 (sz - alloc p) + 2 ^ 30 \<le> fr - held alloc ?os then (True, n\<lparr>reserved := (ih, ?r) # ?os\<rparr>) else (False, n))"
    unfolding reserveSpace_def Let_def o sum spaceMargin_def by simp
  with assms(4) show ?thesis by (auto simp: held_def split: if_splits)
qed

theorem reserve_space_exact_witness:
  "\<not> fst (reserveSpace (\<lambda>_. 0) (Some (2 ^ 31)) (demo_again\<lparr>reserved := [(''x'', \<lparr>rPath = [], rSize = 2 ^ 30\<rparr>)]\<rparr>) ''y'' [''p''] 1)
   \<and> fst (reserveSpace (\<lambda>_. 0) (Some (2 ^ 31)) (demo_again\<lparr>reserved := [(''x'', \<lparr>rPath = [], rSize = 2 ^ 29\<rparr>)]\<rparr>) ''y'' [''p''] 1)"
  using reserve_space_exact [of "\<lambda>_. 0" "''y''" "[''p'']" 1 "demo_again\<lparr>reserved := [(''x'', \<lparr>rPath = [], rSize = 2 ^ 30\<rparr>)]\<rparr>" "2 ^ 31"]
    reserve_space_exact [of "\<lambda>_. 0" "''y''" "[''p'']" 1 "demo_again\<lparr>reserved := [(''x'', \<lparr>rPath = [], rSize = 2 ^ 29\<rparr>)]\<rparr>" "2 ^ 31"]
  by (simp add: sane_sizes_def spaceMargin_def held_def prod_eq_iff)

text \<open>C10. Pruning touches only the node's own, unchanged, unused downloads: after the sweep over the
  recorded downloads every entry of the file system is as before, or it is gone and belonged, unchanged,
  to a recorded download strictly inside \<open>data_dir\<close> whose infohash is in no catalog entry and has neither a current
  job nor one that is winding down, and whose path is the data path of no current job (a job that is winding down protects its
  infohash, but not its path). Without \<open>models.prune\<close> nothing changes. It is assumed that the recorded paths lead through no symbolic
  link and that the file system is a tree.\<close>

theorem prune_only_unused_downloads:
  assumes "wf_world (wd (nio n))" "\<forall>(ih, rec)\<in>set (mem (dl (nio n))). Path rec \<noteq> [] \<and> plain_path (wd (nio n)) (Path rec)"
  shows "\<forall>s. entry (wd (nio (pruneRecordedLocked inCat n))) s = entry (wd (nio n)) s
     \<or> entry (wd (nio (pruneRecordedLocked inCat n))) s = None \<and> nPrune n
        \<and> (\<exists>(ih, rec)\<in>set (mem (dl (nio n))). ours (wd (nio n)) rec s \<and> \<not> inCat ih \<and> map_of (jobs n) ih = None
             \<and> stopping n ih = None \<and> (\<forall>(_, k)\<in>set (jobs n). job_path n k \<noteq> Path rec)
             \<and> strict_prefix (Clean (dataDir (nEnv n))) (Clean (Path rec)))"
proof (cases "nPrune n")
  case True
  from prune_fold_world [OF assms, of inCat] True show ?thesis
    unfolding pruneRecordedLocked_def All_def shrinks_def prunable_def list_ex_iff by fastforce
qed (simp add: pruneRecordedLocked_def)

theorem prune_only_unused_downloads_witness:
  "entry (wd (nio (pruneRecordedLocked (\<lambda>_. False) demo_pruning))) [''d'', ''a''] = None
   \<and> entry (wd (nio (pruneRecordedLocked (\<lambda>_. False) demo_pruning))) [''d'', ''.incoming'', ''a''] = Some (Reg 3 ''abc'' 7)"
proof -
  have nio: "nio demo_pruning = demo_io" by (simp add: demo_pruning_def)
  have "\<forall>(ih, rec)\<in>set (mem (dl demo_io)). Path rec \<noteq> [] \<and> plain_path (wd demo_io) (Path rec)"
    using demo_jreal by (auto simp: demo_io_def intro: real_plain)
  from prune_only_unused_downloads [of demo_pruning "\<lambda>_. False", unfolded nio, OF _ this]
  have "entry (wd (nio (pruneRecordedLocked (\<lambda>_. False) demo_pruning))) [''d'', ''.incoming'', ''a''] = entry demo_jworld [''d'', ''.incoming'', ''a'']"
    using demo_jwf by (auto simp: demo_io_def ours_def)
  moreover have "entry (wd (nio (pruneRecordedLocked (\<lambda>_. False) demo_pruning))) [''d'', ''a''] = None" by code_simp
  moreover have "entry demo_jworld [''d'', ''.incoming'', ''a''] = Some (Reg 3 ''abc'' 7)" by code_simp
  ultimately show ?thesis by simp
qed

end
