(* ===== verification/Hashcache.thy ===== *)
theory Hashcache
  imports Job
begin

text \<open>
  \<open>internal/hashcache/hashcache.go\<close>: the cache of file hashes that all jobs share. The sections under
  \<open>c.mu\<close> are functions on the cache; a call is a thread with a program counter, and the steps of the
  threads, of the files' owners (who may change a file at any moment) and of cancelled contexts
  interleave freely.

  Channels are numbers; a channel is closed when it is listed in \<open>closed_chans\<close>. What the file system
  answers is a parameter: \<open>ident\<close> the size and modification time of the \<open>v\<close>-th version of a file, \<open>sha\<close>
  the hash of its content. A file is hashed while it is read, so a file that changes meanwhile can get a sum
  that no version of it has; such a sum is any string here.
\<close>

section \<open>Hashing a file\<close>

text \<open>\<open>HashFileContext\<close>: \<open>io.Copy\<close> through the reader that looks at the context before each read. The file's answers
  to the reads are a list, whose end is the end of the file; \<open>cancelled i\<close> tells whether the context is done before the
  \<open>i\<close>-th read. \<open>digest\<close> is SHA-256 in hexadecimal.\<close>

datatype hash_error = HOpen errno | HRead errno | HCancelled

fun ctx_copy :: "(nat \<Rightarrow> bool) \<Rightarrow> nat \<Rightarrow> (errno + bytes) list \<Rightarrow> bytes \<Rightarrow> hash_error + bytes" where
  "ctx_copy cancelled i [] acc = (if cancelled i then Inl HCancelled else Inr acc)"
| "ctx_copy cancelled i (r # rs) acc =
     (if cancelled i then Inl HCancelled
      else case r of Inl e \<Rightarrow> Inl (HRead e) | Inr b \<Rightarrow> ctx_copy cancelled (Suc i) rs (acc @ b))"

definition HashFileContext :: "(bytes \<Rightarrow> string) \<Rightarrow> (nat \<Rightarrow> bool) \<Rightarrow> errno option \<Rightarrow> (errno + bytes) list \<Rightarrow> hash_error + string" where
  "HashFileContext digest cancelled open_err reads =
     (case open_err of
        Some e \<Rightarrow> Inl (HOpen e)
      | None \<Rightarrow> (case ctx_copy cancelled 0 reads [] of Inl e \<Rightarrow> Inl e | Inr c \<Rightarrow> Inr (digest c)))"

lemma ctx_copy_whole:
  "ctx_copy cancelled i rs acc = Inr c \<longleftrightarrow>
     (\<forall>k\<le>length rs. \<not> cancelled (i + k)) \<and> (\<exists>bs. rs = map Inr bs \<and> c = acc @ concat bs)"
proof (induction rs arbitrary: i acc)
  case (Cons r rs)
  have "(\<forall>k\<le>Suc m. P k) \<longleftrightarrow> P 0 \<and> (\<forall>k\<le>m. P (Suc k))" for P and m :: nat
    by (metis Suc_le_mono not0_implies_Suc zero_le)
  from this [of "length rs" "\<lambda>k. \<not> cancelled (i + k)"] show ?case
    using Cons by (cases r) (auto simp: Cons_eq_map_conv)
qed auto

text \<open>A sum is only ever the sum of the whole file: of everything that its reads gave up to the end, in whatever pieces, and
  only if the context was not done before any of them.\<close>

lemma hash_file_whole:
  "HashFileContext digest cancelled open_err reads = Inr s \<longleftrightarrow>
     open_err = None \<and> (\<forall>k\<le>length reads. \<not> cancelled k) \<and> (\<exists>bs. reads = map Inr bs \<and> s = digest (concat bs))"
proof (cases "ctx_copy cancelled 0 reads []")
  case (Inl e)
  then have "\<not> ((\<forall>k\<le>length reads. \<not> cancelled k) \<and> (\<exists>bs. reads = map Inr bs))"
    using ctx_copy_whole [of cancelled 0 reads "[]"] by fastforce
  then show ?thesis using Inl by (auto simp: HashFileContext_def split: option.splits)
next
  case (Inr c)
  then show ?thesis using ctx_copy_whole [of cancelled 0 reads "[]" c] by (auto simp: HashFileContext_def split: option.splits)
qed

section \<open>The cache\<close>

type_synonym fid = "int \<times> int"

record hentry =
  hSize :: int
  hMTime :: int
  hSHA :: string

type_synonym hmap = "(path \<times> hentry) list"

text \<open>The JSON codec (marshalling may fail), as for the download record.\<close>

type_synonym hcodec = "(hmap \<Rightarrow> bytes option) \<times> (bytes \<Rightarrow> hmap option)"

definition maxHashes :: nat where
  "maxHashes = 2"

record Cache =
  hm :: hmap
  hbusy :: "path \<Rightarrow> nat option"
  hsem :: nat                        \<comment> \<open>tokens in the channel \<open>sem\<close>\<close>
  hfile :: "bytes option"            \<comment> \<open>the file the cache is kept in\<close>
  next_chan :: nat
  closed_chans :: "nat list"

text \<open>\<open>Open\<close>: an unreadable file is an error, a corrupt one only costs rehashing.\<close>

definition Open :: "hcodec \<Rightarrow> disk_read \<Rightarrow> Cache option" where
  "Open cd d =
     (let c = \<lparr>hm = [], hbusy = (\<lambda>_. None), hsem = 0, hfile = None, next_chan = 0, closed_chans = []\<rparr>
      in case d of
           DiskAbsent \<Rightarrow> Some c
         | DiskUnreadable \<Rightarrow> None
         | DiskData b \<Rightarrow> Some (c\<lparr>hm := (case snd cd b of None \<Rightarrow> [] | Some m \<Rightarrow> m), hfile := Some b\<rparr>))"

text \<open>\<open>store\<close>: the entry is in memory even when saving fails (\<open>save_fails\<close>: a directory or file error).\<close>

definition store :: "hcodec \<Rightarrow> bool \<Rightarrow> Cache \<Rightarrow> path \<Rightarrow> fid \<Rightarrow> string \<Rightarrow> bool \<times> Cache" where
  "store cd save_fails c real fi s =
     (let c' = c\<lparr>hm := (real, \<lparr>hSize = fst fi, hMTime = snd fi, hSHA = s\<rparr>) # filter (\<lambda>(k, _). k \<noteq> real) (hm c)\<rparr>
      in case fst cd (hm c') of
           None \<Rightarrow> (False, c')
         | Some b \<Rightarrow> if save_fails then (False, c') else (True, c'\<lparr>hfile := Some b\<rparr>))"

text \<open>The first locked section of the loop of \<open>SHA256Context\<close>: a hit, a channel to wait for, or the
  caller's own channel.\<close>

datatype decision = Hit string | Wait nat | Own nat

definition hit :: "Cache \<Rightarrow> path \<Rightarrow> fid \<Rightarrow> string option" where
  "hit c real fi =
     (case map_of (hm c) real of
        Some e \<Rightarrow> if hSize e = fst fi \<and> hMTime e = snd fi then Some (hSHA e) else None
      | None \<Rightarrow> None)"

definition claim :: "Cache \<Rightarrow> path \<Rightarrow> fid \<Rightarrow> decision \<times> Cache" where
  "claim c real fi =
     (case hit c real fi of
        Some s \<Rightarrow> (Hit s, c)
      | None \<Rightarrow>
          (case hbusy c real of
             Some ch \<Rightarrow> (Wait ch, c)
           | None \<Rightarrow> (Own (next_chan c), c\<lparr>hbusy := (hbusy c)(real \<mapsto> next_chan c), next_chan := next_chan c + 1\<rparr>)))"

text \<open>The last locked section: the file is free again and the waiters wake.\<close>

definition wake_all :: "Cache \<Rightarrow> path \<Rightarrow> nat \<Rightarrow> Cache" where
  "wake_all c real ch = c\<lparr>hbusy := (hbusy c)(real := None), closed_chans := ch # closed_chans c\<rparr>"

section \<open>Calls\<close>

text \<open>The program counter of a call: after \<open>key\<close>; waiting for another caller; owning the file and waiting
  for the semaphore; hashing; hashed, with the sum unless it failed; stored; and returned, with the
  version of the file at that moment. \<open>PutKeyed\<close> is a \<open>Put\<close> after its \<open>key\<close>.\<close>

datatype pc =
    Idle
  | Keyed path fid
  | Blocked path fid nat
  | WantSem path fid nat
  | Hashing path fid nat
  | Hashed path fid nat "string option"
  | Stored path nat hash_result
  | Returned path hash_result nat
  | PutKeyed path fid string

record hcenv =
  ident :: "path \<Rightarrow> nat \<Rightarrow> fid option"
  sha :: "path \<Rightarrow> nat \<Rightarrow> string option"
  hcodec :: hcodec

text \<open>\<open>since\<close> is the version of the file when the call looked at it.\<close>

record hcsys =
  cache :: Cache
  procs :: "nat \<Rightarrow> pc"
  vers :: "path \<Rightarrow> nat"
  since :: "nat \<Rightarrow> nat"

definition goto :: "nat \<Rightarrow> pc \<Rightarrow> hcsys \<Rightarrow> hcsys" where
  "goto t p s = s\<lparr>procs := (procs s)(t := p)\<rparr>"

definition key :: "hcenv \<Rightarrow> hcsys \<Rightarrow> path \<Rightarrow> fid option" where
  "key E s real = ident E real (vers s real)"

definition begin_call :: "nat \<Rightarrow> path \<Rightarrow> pc \<Rightarrow> hcsys \<Rightarrow> hcsys" where
  "begin_call t real p s = goto t p (s\<lparr>since := (since s)(t := vers s real)\<rparr>)"

definition return :: "nat \<Rightarrow> path \<Rightarrow> hash_result \<Rightarrow> hcsys \<Rightarrow> hcsys" where
  "return t real r s = goto t (Returned real r (vers s real)) s"

text \<open>\<open>hashLimited\<close>: a token is taken and given back.\<close>

definition take_token :: "nat \<Rightarrow> path \<Rightarrow> fid \<Rightarrow> nat \<Rightarrow> hcsys \<Rightarrow> hcsys" where
  "take_token t real fi ch s = goto t (Hashing real fi ch) (s\<lparr>cache := (cache s)\<lparr>hsem := hsem (cache s) + 1\<rparr>\<rparr>)"

definition give_token :: "nat \<Rightarrow> path \<Rightarrow> fid \<Rightarrow> nat \<Rightarrow> string option \<Rightarrow> hcsys \<Rightarrow> hcsys" where
  "give_token t real fi ch r s = goto t (Hashed real fi ch r) (s\<lparr>cache := (cache s)\<lparr>hsem := hsem (cache s) - 1\<rparr>\<rparr>)"

definition look_up :: "nat \<Rightarrow> path \<Rightarrow> fid \<Rightarrow> hcsys \<Rightarrow> hcsys" where
  "look_up t real fi s =
     (case claim (cache s) real fi of
        (Hit x, c) \<Rightarrow> return t real (HashOk x) s
      | (Wait ch, c) \<Rightarrow> goto t (Blocked real fi ch) s
      | (Own ch, c) \<Rightarrow> goto t (WantSem real fi ch) (s\<lparr>cache := c\<rparr>))"

definition store_step :: "hcenv \<Rightarrow> bool \<Rightarrow> nat \<Rightarrow> path \<Rightarrow> fid \<Rightarrow> nat \<Rightarrow> string option \<Rightarrow> hcsys \<Rightarrow> hcsys" where
  "store_step E fails t real fi ch r s =
     (case r of
        None \<Rightarrow> goto t (Stored real ch HashFailed) s
      | Some x \<Rightarrow>
          (case store (hcodec E) fails (cache s) real fi x of
             (ok, c) \<Rightarrow> goto t (Stored real ch (if ok then HashOk x else HashUnsaved x)) (s\<lparr>cache := c\<rparr>)))"

inductive hc_step :: "hcenv \<Rightarrow> hcsys \<Rightarrow> hcsys \<Rightarrow> bool" for E where
  call: "procs s t = Idle \<Longrightarrow> key E s real = Some fi \<Longrightarrow> hc_step E s (begin_call t real (Keyed real fi) s)"
| call_failed: "procs s t = Idle \<Longrightarrow> hc_step E s (return t real HashFailed s)"
| look_up: "procs s t = Keyed real fi \<Longrightarrow> hc_step E s (look_up t real fi s)"
| wake: "procs s t = Blocked real fi ch \<Longrightarrow> ch \<in> set (closed_chans (cache s)) \<Longrightarrow> hc_step E s (goto t (Keyed real fi) s)"
| give_up: "procs s t = Blocked real fi ch \<Longrightarrow> hc_step E s (return t real HashFailed s)"
| acquire: "procs s t = WantSem real fi ch \<Longrightarrow> hsem (cache s) < maxHashes \<Longrightarrow> hc_step E s (take_token t real fi ch s)"
| cancelled: "procs s t = WantSem real fi ch \<Longrightarrow> hc_step E s (goto t (Hashed real fi ch None) s)"
| hashed: "procs s t = Hashing real fi ch \<Longrightarrow> (vers s real = since s t \<longrightarrow> r = None \<or> r = sha E real (since s t)) \<Longrightarrow>
    hc_step E s (give_token t real fi ch r s)"
| store: "procs s t = Hashed real fi ch r \<Longrightarrow> hc_step E s (store_step E fails t real fi ch r s)"
| finish: "procs s t = Stored real ch r \<Longrightarrow> hc_step E s (return t real r (s\<lparr>cache := wake_all (cache s) real ch\<rparr>))"
| put: "procs s t = Idle \<Longrightarrow> key E s real = Some fi \<Longrightarrow> sha E real (vers s real) = Some x \<Longrightarrow>
    hc_step E s (begin_call t real (PutKeyed real fi x) s)"
| put_store: "procs s t = PutKeyed real fi x \<Longrightarrow> store (hcodec E) fails (cache s) real fi x = (ok, c) \<Longrightarrow>
    hc_step E s (return t real (if ok then HashOk x else HashUnsaved x) (s\<lparr>cache := c\<rparr>))"
| modified: "hc_step E s (s\<lparr>vers := (vers s)(real := vers s real + 1)\<rparr>)"

text \<open>The step \<open>hashed\<close> is the end of the reading, with an error (\<open>None\<close>) or a sum. A \<open>Put\<close> is given the sum of the file
  as it is when it looks at it.

  A run starts with an opened cache. The file the cache was read from was written by an earlier run: an entry
  under the identity of a version has the sum of that version, or the file is past it.\<close>

definition truthful :: "hcenv \<Rightarrow> (path \<Rightarrow> nat) \<Rightarrow> hmap \<Rightarrow> bool" where
  "truthful E vs m \<longleftrightarrow> (\<forall>(real, e)\<in>set m. \<forall>v. ident E real v = Some (hSize e, hMTime e) \<longrightarrow>
     sha E real v = Some (hSHA e) \<or> v < vs real)"

inductive hc_reachable :: "hcenv \<Rightarrow> hcsys \<Rightarrow> bool" for E where
  opened: "Open (hcodec E) d = Some c \<Longrightarrow> truthful E vs (hm c) \<Longrightarrow>
    hc_reachable E \<lparr>cache = c, procs = (\<lambda>_. Idle), vers = vs, since = (\<lambda>_. 0)\<rparr>"
| stepped: "hc_reachable E s \<Longrightarrow> hc_step E s s' \<Longrightarrow> hc_reachable E s'"


section \<open>Invariants\<close>

definition fresh_ids :: "hcenv \<Rightarrow> bool" where
  "fresh_ids E \<longleftrightarrow> (\<forall>real v v' fi. ident E real v = Some fi \<longrightarrow> ident E real v' = Some fi \<longrightarrow> v = v')"

fun is_hashing :: "pc \<Rightarrow> bool" where
  "is_hashing (Hashing _ _ _) = True"
| "is_hashing _ = False"

text \<open>The file a call owns, with its channel.\<close>

fun owner :: "pc \<Rightarrow> (path \<times> nat) option" where
  "owner (WantSem real _ ch) = Some (real, ch)"
| "owner (Hashing real _ ch) = Some (real, ch)"
| "owner (Hashed real _ ch _) = Some (real, ch)"
| "owner (Stored real ch _) = Some (real, ch)"
| "owner _ = None"

text \<open>The tokens of the semaphore count the hashing calls; the busy files are those owned by a call, each
  by one; a blocked call waits for a channel that is closed, or that the owner of its file will close.\<close>

definition sem_ok :: "(nat \<Rightarrow> bool) \<Rightarrow> nat \<Rightarrow> bool" where
  "sem_ok h k \<longleftrightarrow> finite {t. h t} \<and> card {t. h t} = k \<and> k \<le> maxHashes"

definition own_ok :: "(nat \<Rightarrow> (path \<times> nat) option) \<Rightarrow> (path \<Rightarrow> nat option) \<Rightarrow> nat \<Rightarrow> bool" where
  "own_ok o' b n \<longleftrightarrow> (\<forall>real ch. b real = Some ch \<longleftrightarrow> (\<exists>t. o' t = Some (real, ch)))
     \<and> (\<forall>t t' x. o' t = Some x \<longrightarrow> o' t' = Some x \<longrightarrow> t = t') \<and> (\<forall>t real ch. o' t = Some (real, ch) \<longrightarrow> ch < n)"

definition inv_sem :: "hcsys \<Rightarrow> bool" where
  "inv_sem s \<longleftrightarrow> sem_ok (is_hashing \<circ> procs s) (hsem (cache s))"

definition inv_own :: "hcsys \<Rightarrow> bool" where
  "inv_own s \<longleftrightarrow> own_ok (owner \<circ> procs s) (hbusy (cache s)) (next_chan (cache s))"

definition inv_blocked :: "hcsys \<Rightarrow> bool" where
  "inv_blocked s \<longleftrightarrow> (\<forall>t real fi ch. procs s t = Blocked real fi ch \<longrightarrow>
     ch \<in> set (closed_chans (cache s)) \<or> hbusy (cache s) real = Some ch)"

definition sum_of :: "hcenv \<Rightarrow> path \<Rightarrow> nat \<Rightarrow> nat \<Rightarrow> string \<Rightarrow> bool" where
  "sum_of E real lo hi x \<longleftrightarrow> lo \<le> hi \<and> (lo = hi \<longrightarrow> sha E real lo = Some x)"

fun pc_true :: "hcenv \<Rightarrow> (path \<Rightarrow> nat) \<Rightarrow> nat \<Rightarrow> pc \<Rightarrow> bool" where
  "pc_true E vs lo Idle = True"
| "pc_true E vs lo (Keyed real fi) = (ident E real lo = Some fi \<and> lo \<le> vs real)"
| "pc_true E vs lo (Blocked real fi _) = (ident E real lo = Some fi \<and> lo \<le> vs real)"
| "pc_true E vs lo (WantSem real fi _) = (ident E real lo = Some fi \<and> lo \<le> vs real)"
| "pc_true E vs lo (Hashing real fi _) = (ident E real lo = Some fi \<and> lo \<le> vs real)"
| "pc_true E vs lo (Hashed real fi _ r) = (ident E real lo = Some fi \<and> (\<forall>x. r = Some x \<longrightarrow> sum_of E real lo (vs real) x))"
| "pc_true E vs lo (Stored real _ r) = (\<forall>x. hash_sum r = Some x \<longrightarrow> sum_of E real lo (vs real) x)"
| "pc_true E vs lo (Returned real r hi) = (hi \<le> vs real \<and> (\<forall>x. hash_sum r = Some x \<longrightarrow> sum_of E real lo hi x))"
| "pc_true E vs lo (PutKeyed real fi x) = (ident E real lo = Some fi \<and> sum_of E real lo (vs real) x)"

definition inv_true :: "hcenv \<Rightarrow> hcsys \<Rightarrow> bool" where
  "inv_true E s \<longleftrightarrow> truthful E (vers s) (hm (cache s)) \<and> (\<forall>t. pc_true E (vers s) (since s t) (procs s t))"

section \<open>Lemmas: the semaphore and the ownership of files\<close>

lemma goto_simps [simp]:
  "procs (goto t p s) = (procs s)(t := p)" "cache (goto t p s) = cache s" "vers (goto t p s) = vers s" "since (goto t p s) = since s"
  by (simp_all add: goto_def)

lemmas section_defs = begin_call_def return_def take_token_def give_token_def look_up_def claim_def store_step_def wake_all_def

lemma store_fields:
  assumes "store cd f c real fi x = (ok, c')"
  shows "hsem c' = hsem c" "hbusy c' = hbusy c" "closed_chans c' = closed_chans c" "next_chan c' = next_chan c"
    "hm c' = (real, \<lparr>hSize = fst fi, hMTime = snd fi, hSHA = x\<rparr>) # filter (\<lambda>(k, _). k \<noteq> real) (hm c)"
  using assms by (auto simp: store_def Let_def split: option.splits if_splits)

lemma sem_ok_upd:
  assumes "sem_ok h k"
  shows "h t = b \<Longrightarrow> sem_ok (h(t := b)) k" "\<not> h t \<Longrightarrow> k < maxHashes \<Longrightarrow> sem_ok (h(t := True)) (Suc k)"
    "h t \<Longrightarrow> sem_ok (h(t := False)) (k - Suc 0)"
proof -
  show "sem_ok (h(t := b)) k" if "h t = b" using assms that by (simp add: fun_upd_idem)
  have "{t'. (h(t := True)) t'} = insert t {t'. h t'}" "{t'. (h(t := False)) t'} = {t'. h t'} - {t}" by auto
  with assms show "\<not> h t \<Longrightarrow> k < maxHashes \<Longrightarrow> sem_ok (h(t := True)) (Suc k)"
    "h t \<Longrightarrow> sem_ok (h(t := False)) (k - Suc 0)" by (auto simp: sem_ok_def card_Diff_singleton)
qed

lemma own_ok_upd:
  assumes "own_ok o' b n"
  shows "o' t = x \<Longrightarrow> own_ok (o'(t := x)) b n"
    and "o' t = None \<Longrightarrow> b real = None \<Longrightarrow> own_ok (o'(t \<mapsto> (real, n))) (b(real \<mapsto> n)) (Suc n)"
    and "o' t = Some (real, ch) \<Longrightarrow> own_ok (o'(t := None)) (b(real := None)) n"
proof -
  show "own_ok (o'(t := x)) b n" if "o' t = x" using assms that by (simp add: fun_upd_idem)
  have busy: "b r = Some c \<longleftrightarrow> (\<exists>t. o' t = Some (r, c))" for r c using assms unfolding own_ok_def by blast
  have one: "o' t = Some x \<Longrightarrow> o' t' = Some x \<Longrightarrow> t = t'" for t t' x using assms unfolding own_ok_def by blast
  have less: "o' t = Some (r, c) \<Longrightarrow> c < n" for t r c using assms unfolding own_ok_def by blast
  {
    assume none: "o' t = None" "b real = None"
    then have free: "o' t' \<noteq> Some (real, c)" for t' c using busy [of real] by auto
    show "own_ok (o'(t \<mapsto> (real, n))) (b(real \<mapsto> n)) (Suc n)"
      unfolding own_ok_def
    proof (intro conjI allI impI)
      show "(b(real \<mapsto> n)) r = Some c \<longleftrightarrow> (\<exists>t'. (o'(t \<mapsto> (real, n))) t' = Some (r, c))" for r c
        using busy [of r c] none free by (cases "r = real") (auto, metis option.distinct(1))
    qed (use one less free none in \<open>auto simp: less_Suc_eq split: if_splits\<close>)
  }
  {
    assume own: "o' t = Some (real, ch)"
    then have b: "b real = Some ch" using busy by blast
    show "own_ok (o'(t := None)) (b(real := None)) n"
      unfolding own_ok_def
    proof (intro conjI allI impI)
      show "(b(real := None)) r = Some c \<longleftrightarrow> (\<exists>t'. (o'(t := None)) t' = Some (r, c))" for r c
      proof (cases "r = real")
        case True
        then have "t' = t" if "o' t' = Some (r, c)" for t' using that b busy [of r c] one own by auto
        with True show ?thesis by auto
      next
        case False
        then have "(\<exists>t'. (o'(t := None)) t' = Some (r, c)) \<longleftrightarrow> (\<exists>t'. o' t' = Some (r, c))" using own by (metis fun_upd_apply option.inject prod.inject option.distinct(1))
        with False show ?thesis using busy [of r c] by simp
      qed
    qed (use one less in \<open>auto split: if_splits\<close>)
  }
qed

lemma step_sem: "hc_step E s s' \<Longrightarrow> inv_sem s \<Longrightarrow> inv_sem s'"
  by (induction rule: hc_step.induct)
    (auto simp: inv_sem_def fun_upd_comp section_defs store_fields
      intro: sem_ok_upd split: option.splits prod.splits)

lemma step_own: "hc_step E s s' \<Longrightarrow> inv_own s \<Longrightarrow> inv_own s'"
  by (induction rule: hc_step.induct)
    (auto simp: inv_own_def fun_upd_comp section_defs store_fields
      intro: own_ok_upd split: option.splits prod.splits)

text \<open>Nobody waits for a channel that will never be closed.\<close>

lemma owner_busy: "inv_own s \<Longrightarrow> owner (procs s t) = Some (real, ch) \<Longrightarrow> hbusy (cache s) real = Some ch"
  unfolding inv_own_def own_ok_def comp_def by blast

lemma step_blocked: "hc_step E s s' \<Longrightarrow> inv_own s \<Longrightarrow> inv_blocked s \<Longrightarrow> inv_blocked s'"
proof (induction rule: hc_step.induct)
  case (look_up s t real fi)
  show ?case
  proof (cases "hit (cache s) real fi = None \<and> hbusy (cache s) real = None")
    case True
    have "ch \<in> set (closed_chans (cache s))" if "procs s t' = Blocked real fi' ch" for t' fi' ch
      using look_up(3) that True unfolding inv_blocked_def by (metis option.distinct(1))
    with True look_up(3) show ?thesis by (auto simp: inv_blocked_def section_defs split: if_splits)
  next
    case False
    with look_up(3) show ?thesis by (auto simp: inv_blocked_def section_defs split: option.splits if_splits)
  qed
next
  case (store s t real fi ch r fails)
  then show ?case
    by (auto simp: inv_blocked_def section_defs store_fields split: option.splits prod.splits if_splits)
next
  case (finish s t real ch r)
  have "hbusy (cache s) real = Some ch" using finish by (intro owner_busy [of s t]) simp_all
  then have w: "c \<in> set (closed_chans (cache s)) \<or> c = ch" if "procs s t' = Blocked real fi c" for t' fi c
    using finish(3) that unfolding inv_blocked_def by (metis option.inject)
  with finish show ?case by (auto simp: inv_blocked_def section_defs split: if_splits dest: w)
next
  case (put_store s t real fi x fails ok c)
  then show ?case by (auto simp: inv_blocked_def section_defs store_fields split: if_splits)
qed (auto simp: inv_blocked_def section_defs split: if_splits)


section \<open>Lemmas: the sums\<close>

lemma sum_of_mono: "sum_of E real lo hi x \<Longrightarrow> hi \<le> hi' \<Longrightarrow> sum_of E real lo hi' x"
  by (auto simp: sum_of_def)

lemma pc_true_mono: "pc_true E vs lo p \<Longrightarrow> (\<And>real. vs real \<le> vs' real) \<Longrightarrow> pc_true E vs' lo p"
  by (cases p) (auto intro: sum_of_mono le_trans)

lemma truthful_mono: "truthful E vs m \<Longrightarrow> (\<And>real. vs real \<le> vs' real) \<Longrightarrow> truthful E vs' m"
  unfolding truthful_def by (fastforce intro: less_le_trans)

lemma truthful_hit:
  assumes "truthful E vs (hm c)" "hit c real fi = Some x" "ident E real lo = Some fi" "lo \<le> vs real"
  shows "sum_of E real lo (vs real) x"
proof -
  obtain e where e: "map_of (hm c) real = Some e" "hSize e = fst fi" "hMTime e = snd fi" "x = hSHA e"
    using assms(2) by (auto simp: hit_def split: option.splits if_splits)
  then have "(real, e) \<in> set (hm c)" by (simp add: map_of_SomeD)
  with assms(1,3,4) e show ?thesis unfolding truthful_def sum_of_def by fastforce
qed

lemma truthful_store:
  assumes "fresh_ids E" "truthful E vs (hm c)" "store cd f c real fi x = (ok, c')"
    "ident E real lo = Some fi" "sum_of E real lo (vs real) x"
  shows "truthful E vs (hm c')"
proof -
  have "v0 = lo" if "ident E real v0 = Some fi" for v0 using assms(1,4) that unfolding fresh_ids_def by blast
  with assms(2,5) show ?thesis unfolding truthful_def store_fields(5) [OF assms(3)] sum_of_def by auto
qed

lemma inv_true_goto:
  assumes "inv_true E s" "truthful E (vers s) (hm c)" "pc_true E (vers s) (since s t) p"
  shows "inv_true E (goto t p (s\<lparr>cache := c\<rparr>))"
  using assms by (simp add: inv_true_def)

lemma step_true:
  assumes "fresh_ids E"
  shows "hc_step E s s' \<Longrightarrow> inv_true E s \<Longrightarrow> inv_true E s'"
proof (induction rule: hc_step.induct)
  case (look_up s t real fi)
  have tr: "truthful E (vers s) (hm (cache s))" and pc: "ident E real (since s t) = Some fi" "since s t \<le> vers s real"
    using look_up by (auto simp: inv_true_def dest: spec [of _ t])
  note go = inv_true_goto [OF look_up(2), where t = t]
  show ?case
    using go [of "cache s"] go [of "(cache s)\<lparr>hbusy := (hbusy (cache s))(real \<mapsto> next_chan (cache s)), next_chan := next_chan (cache s) + 1\<rparr>"]
      tr pc truthful_hit [OF tr _ pc]
    by (auto simp: section_defs split: option.splits)
next
  case (store s t real fi ch r fails)
  have tr: "truthful E (vers s) (hm (cache s))" and pc: "pc_true E (vers s) (since s t) (Hashed real fi ch r)"
    using store by (auto simp: inv_true_def dest: spec [of _ t])
  show ?case
  proof (cases r)
    case None
    then show ?thesis using inv_true_goto [OF store(2) tr, of t "Stored real ch HashFailed"] by (simp add: store_step_def)
  next
    case (Some x)
    obtain ok c where st: "Hashcache.store (hcodec E) fails (cache s) real fi x = (ok, c)" by force
    then have "truthful E (vers s) (hm c)" using truthful_store [OF assms tr st, of "since s t"] pc Some by simp
    then show ?thesis using inv_true_goto [OF store(2)] st pc Some by (simp add: store_step_def)
  qed
next
  case (put_store s t real fi x fails ok c)
  have tr: "truthful E (vers s) (hm (cache s))" and pc: "pc_true E (vers s) (since s t) (PutKeyed real fi x)"
    using put_store by (auto simp: inv_true_def dest: spec [of _ t])
  then show ?case using truthful_store [OF assms tr put_store(2)] unfolding section_defs by (intro inv_true_goto [OF put_store(3)]) auto
next
  case (modified s real)
  then show ?case unfolding inv_true_def by (auto intro: truthful_mono pc_true_mono)
next
  case (hashed s t real fi ch r)
  then have "truthful E (vers s) (hm (cache s))" "pc_true E (vers s) (since s t) (Hashing real fi ch)"
    by (auto simp: inv_true_def dest: spec [of _ t])
  with hashed(2) show ?case unfolding section_defs by (intro inv_true_goto [OF hashed(3)]) (auto simp: sum_of_def)
next
  case (finish s t real ch r)
  then have "truthful E (vers s) (hm (cache s))" "pc_true E (vers s) (since s t) (Stored real ch r)"
    by (auto simp: inv_true_def dest: spec [of _ t])
  then show ?case unfolding section_defs by (simp add: inv_true_goto [OF finish(2)])
next
  case (acquire s t real fi ch)
  then have "truthful E (vers s) (hm (cache s))" "pc_true E (vers s) (since s t) (WantSem real fi ch)"
    by (auto simp: inv_true_def dest: spec [of _ t])
  then show ?case unfolding section_defs by (intro inv_true_goto [OF acquire(3)]) auto
next
  case (cancelled s t real fi ch)
  then show ?case by (auto simp: inv_true_def dest: spec [of _ t])
next
  case (wake s t real fi ch)
  then show ?case by (auto simp: inv_true_def dest: spec [of _ t])
qed (auto simp: inv_true_def key_def sum_of_def section_defs)

lemma hc_reachable_inv:
  assumes "hc_reachable E s"
  shows "inv_sem s \<and> inv_own s \<and> inv_blocked s \<and> (fresh_ids E \<longrightarrow> inv_true E s)"
  using assms
proof (induction rule: hc_reachable.induct)
  case (opened d c vs)
  then have "hsem c = 0" "hbusy c = (\<lambda>_. None)" by (auto simp: Open_def Let_def split: disk_read.splits)
  with opened show ?case
    by (auto simp: inv_sem_def sem_ok_def inv_own_def own_ok_def inv_blocked_def inv_true_def)
next
  case (stepped s s')
  then show ?case using step_sem step_own step_blocked step_true by blast
qed

section \<open>A sample run\<close>

text \<open>One file in two versions, hashed by one call while a second one waits for it.\<close>

definition demo_hcenv :: hcenv where
  "demo_hcenv = \<lparr>ident = (\<lambda>_ v. Some (1, int v)), sha = (\<lambda>_ v. Some (''sum'' @ replicate v (CHR ''x''))),
     hcodec = ((\<lambda>_. Some ''{}''), (\<lambda>_. None))\<rparr>"

definition demo_hc0 :: hcsys where
  "demo_hc0 = \<lparr>cache = the (Open (hcodec demo_hcenv) DiskAbsent), procs = (\<lambda>_. Idle), vers = (\<lambda>_. 0), since = (\<lambda>_. 0)\<rparr>"

definition demo_blocked :: hcsys where
  "demo_blocked = look_up 1 [''f''] (1, 0) (look_up 0 [''f''] (1, 0)
     (begin_call 1 [''f''] (Keyed [''f''] (1, 0)) (begin_call 0 [''f''] (Keyed [''f''] (1, 0)) demo_hc0)))"

definition demo_hashing :: hcsys where
  "demo_hashing = take_token 0 [''f''] (1, 0) 0 demo_blocked"

definition demo_stored :: hcsys where
  "demo_stored = store_step demo_hcenv True 0 [''f''] (1, 0) 0 (Some ''sum'') (give_token 0 [''f''] (1, 0) 0 (Some ''sum'') demo_hashing)"

definition demo_returned :: hcsys where
  "demo_returned = return 0 [''f''] (HashUnsaved ''sum'') (demo_stored\<lparr>cache := wake_all (cache demo_stored) [''f''] 0\<rparr>)"


lemma demo_hc_reachable: "hc_reachable demo_hcenv demo_hashing" "hc_reachable demo_hcenv demo_returned"
proof -
  let ?E = demo_hcenv
  note step = hc_reachable.stepped
  have "hc_reachable ?E demo_hc0"
    unfolding demo_hc0_def by (rule hc_reachable.opened [of _ DiskAbsent]) (simp_all add: Open_def truthful_def)
  from step [OF this hc_step.call [of demo_hc0 0 ?E "[''f'']" "(1, 0)"]]
  have "hc_reachable ?E (begin_call 0 [''f''] (Keyed [''f''] (1, 0)) demo_hc0)" (is "hc_reachable _ ?a")
    by (simp add: demo_hc0_def key_def demo_hcenv_def)
  from step [OF this hc_step.call [of ?a 1 ?E "[''f'']" "(1, 0)"]]
  have "hc_reachable ?E (begin_call 1 [''f''] (Keyed [''f''] (1, 0)) ?a)" (is "hc_reachable _ ?b")
    by (simp add: begin_call_def demo_hc0_def key_def demo_hcenv_def)
  from step [OF this hc_step.look_up [of ?b 0 "[''f'']" "(1, 0)"]]
  have "hc_reachable ?E (look_up 0 [''f''] (1, 0) ?b)" (is "hc_reachable _ ?c")
    by (simp add: begin_call_def demo_hc0_def)
  from step [OF this hc_step.look_up [of ?c 1 "[''f'']" "(1, 0)"]]
  have "hc_reachable ?E demo_blocked"
    unfolding demo_blocked_def by (simp add: section_defs hit_def demo_hc0_def Open_def)
  moreover have "procs demo_blocked 0 = WantSem [''f''] (1, 0) 0" "hsem (cache demo_blocked) < maxHashes" by code_simp+
  ultimately show h: "hc_reachable ?E demo_hashing" unfolding demo_hashing_def by (intro step [OF _ hc_step.acquire])
  have "procs demo_hashing 0 = Hashing [''f''] (1, 0) 0" "since demo_hashing 0 = 0" "vers demo_hashing [''f''] = 0" by code_simp+
  from step [OF h hc_step.hashed [OF this(1), of "Some ''sum''"]] this
  have "hc_reachable ?E (give_token 0 [''f''] (1, 0) 0 (Some ''sum'') demo_hashing)" by (simp add: demo_hcenv_def)
  then have "hc_reachable ?E demo_stored" unfolding demo_stored_def
    by (rule step [OF _ hc_step.store]) (simp add: give_token_def)
  moreover have "procs demo_stored 0 = Stored [''f''] 0 (HashUnsaved ''sum'')" by code_simp
  ultimately show "hc_reachable ?E demo_returned" unfolding demo_returned_def by (rule step [OF _ hc_step.finish])
qed

section \<open>Properties\<close>

text \<open>However many calls run at once, at most two hash at the same time and no file is hashed by two;
  and a call that waits for another one waits for a channel that is already closed or that belongs to a
  call still working on the same file, so a wake-up is never lost.\<close>

theorem hashcache_exclusive:
  assumes "hc_reachable E s"
  shows "card {t. is_hashing (procs s t)} \<le> 2
     \<and> (\<forall>t t' real fi fi' ch ch'. procs s t = Hashing real fi ch \<and> procs s t' = Hashing real fi' ch' \<longrightarrow> t = t')
     \<and> (\<forall>t real fi ch. procs s t = Blocked real fi ch \<longrightarrow>
          ch \<in> set (closed_chans (cache s)) \<or> (\<exists>t'. owner (procs s t') = Some (real, ch)))"
proof -
  from hc_reachable_inv [OF assms] have inv: "inv_sem s" "inv_own s" "inv_blocked s" by blast+
  have "t = t'" if "procs s t = Hashing real fi ch" "procs s t' = Hashing real fi' ch'" for t t' real fi fi' ch ch'
  proof -
    have "owner (procs s t) = Some (real, ch)" "owner (procs s t') = Some (real, ch')" using that by simp_all
    moreover from this owner_busy [OF inv(2)] have "ch' = ch" by (metis option.inject)
    ultimately show ?thesis using inv(2) unfolding inv_own_def own_ok_def comp_def by blast
  qed
  moreover have "ch \<in> set (closed_chans (cache s)) \<or> (\<exists>t'. owner (procs s t') = Some (real, ch))"
    if "procs s t = Blocked real fi ch" for t real fi ch
    using inv(2,3) that unfolding inv_blocked_def inv_own_def own_ok_def comp_def by metis
  ultimately show ?thesis using inv(1) by (auto simp: inv_sem_def sem_ok_def maxHashes_def)
qed

theorem hashcache_exclusive_witness:
  "hc_reachable demo_hcenv demo_hashing \<and> procs demo_hashing 0 = Hashing [''f''] (1, 0) 0
   \<and> procs demo_hashing 1 = Blocked [''f''] (1, 0) 0 \<and> (\<exists>t. owner (procs demo_hashing t) = Some ([''f''], 0))"
proof -
  have "procs demo_hashing 0 = Hashing [''f''] (1, 0) 0" "procs demo_hashing 1 = Blocked [''f''] (1, 0) 0"
    "closed_chans (cache demo_hashing) = []" by code_simp+
  with hashcache_exclusive [OF demo_hc_reachable(1)] demo_hc_reachable(1) show ?thesis by auto
qed



end
