(* ===== verification/Floats.thy ===== *)
theory Floats
  imports Prelude Complex_Main "HOL-Library.Log_Nat"
begin

text \<open>
  Floating point, as far as the node uses it: the rounding that \<open>float64\<close> operations apply to their exact result
  (IEEE 754 binary64, to nearest, ties to even), on rational numbers, and \<open>strconv.ParseFloat\<close> and \<open>math.Round\<close>
  on the inputs they are given. A result beyond the largest finite number is \<open>+Inf\<close> in Go and stays a rational here:
  the one computation that can reach it, the product in \<open>ParseRate\<close>, converts the result to \<open>int64\<close>, where any number
  of \<open>2\<^sup>6\<^sup>3\<close> or more gives what the machine makes of it (the parameter \<open>beyond\<close>).
\<close>

section \<open>Rounding\<close>

text \<open>To the nearest integer, ties to the even one.\<close>

definition round_even :: "rat \<Rightarrow> int" where
  "round_even x = (let f = \<lfloor>x\<rfloor>; r = x - of_int f in if r < 1 / 2 \<or> r = 1 / 2 \<and> even f then f else f + 1)"

text \<open>The exponent of the leading bit of a number that is not zero.\<close>

definition exponent :: "rat \<Rightarrow> int" where
  "exponent x = (let (n, d) = quotient_of \<bar>x\<bar>; k = bitlen n - bitlen d in if 2 powi k \<le> \<bar>x\<bar> then k else k - 1)"

text \<open>A \<open>float64\<close> is a multiple of \<open>2\<^sup>e\<^sup>-\<^sup>5\<^sup>2\<close> for its exponent \<open>e\<close>, but of \<open>2\<^sup>-\<^sup>1\<^sup>0\<^sup>7\<^sup>4\<close> where that is less (the subnormal numbers).\<close>

definition float64 :: "rat \<Rightarrow> rat" where
  "float64 x = (if x = 0 then 0 else let q = max (exponent x - 52) (- 1074) in of_int (round_even (x / 2 powi q)) * 2 powi q)"

lemma round_even_int [simp]: "round_even (of_int i) = i"
  by (simp add: round_even_def)

lemma round_even_err: "\<bar>of_int (round_even x) - x\<bar> \<le> 1 / 2"
proof -
  have "of_int \<lfloor>x\<rfloor> \<le> x" "x < of_int \<lfloor>x\<rfloor> + 1" by linarith+
  then show ?thesis by (auto simp: round_even_def Let_def abs_le_iff)
qed

lemma round_even_nonneg: "0 \<le> x \<Longrightarrow> 0 \<le> round_even x"
proof -
  assume "0 \<le> x"
  then have "0 \<le> \<lfloor>x\<rfloor>" by simp
  then show ?thesis by (simp add: round_even_def Let_def)
qed

lemma bitlen_powi:
  assumes "0 < n"
  shows "2 powi (bitlen n - 1) \<le> (of_int n :: rat)" "of_int n < (2 powi bitlen n :: rat)"
proof -
  have b: "0 < bitlen n" using assms by (metis bitlen_eq_zero_iff bitlen_nonneg less_le not_le)
  have "2 ^ nat (bitlen n - 1) \<le> n" "n < 2 ^ nat (bitlen n)" using bitlen_bounds [OF assms] by simp_all
  then have "(of_int (2 ^ nat (bitlen n - 1)) :: rat) \<le> of_int n" "(of_int n :: rat) < of_int (2 ^ nat (bitlen n))"
    by (simp_all only: of_int_le_iff of_int_less_iff)
  then show "2 powi (bitlen n - 1) \<le> (of_int n :: rat)" "of_int n < (2 powi bitlen n :: rat)"
    using b by (simp_all add: power_int_nonneg_exp)
qed

lemma exponent_bounds:
  assumes "x \<noteq> 0"
  shows "2 powi exponent x \<le> \<bar>x\<bar>" "\<bar>x\<bar> < 2 powi (exponent x + 1)"
proof -
  obtain n d where nd: "quotient_of \<bar>x\<bar> = (n, d)" by fastforce
  have d: "0 < d" using quotient_of_denom_pos [OF nd] .
  have x: "\<bar>x\<bar> = of_int n / of_int d" using quotient_of_div [OF nd] .
  have "0 < \<bar>x\<bar>" using assms by simp
  with d have n: "0 < n" unfolding x by (simp add: zero_less_divide_iff)
  let ?k = "bitlen n - bitlen d"
  have "(2 powi (bitlen n - 1) :: rat) / 2 powi bitlen d \<le> \<bar>x\<bar>"
    unfolding x using bitlen_powi [OF n] bitlen_powi [OF d] d n by (intro frac_le) auto
  moreover have "\<bar>x\<bar> < (2 powi bitlen n :: rat) / 2 powi (bitlen d - 1)"
    unfolding x using bitlen_powi [OF n] bitlen_powi [OF d] d n by (intro frac_less) auto
  ultimately have "2 powi (?k - 1) \<le> \<bar>x\<bar>" "\<bar>x\<bar> < 2 powi (?k + 1)"
    by (simp_all add: power_int_diff power_int_add field_simps)
  then show "2 powi exponent x \<le> \<bar>x\<bar>" "\<bar>x\<bar> < 2 powi (exponent x + 1)"
    by (auto simp: exponent_def nd Let_def)
qed

lemma float64_nonneg: "0 \<le> x \<Longrightarrow> 0 \<le> float64 x"
  by (auto simp: float64_def Let_def intro!: mult_nonneg_nonneg round_even_nonneg)

text \<open>Integers of at most \<open>2\<^sup>5\<^sup>3\<close> are exact.\<close>

lemma float64_multiple:
  assumes "x / 2 powi (max (exponent x - 52) (- 1074)) = of_int i"
  shows "float64 x = x"
proof (cases "x = 0")
  case False
  have "float64 x = of_int i * 2 powi (max (exponent x - 52) (- 1074))"
    using False by (simp only: float64_def Let_def if_False assms round_even_int)
  then show ?thesis by (simp only: assms [symmetric]) simp
qed (simp add: float64_def)

lemma float64_int:
  assumes "\<bar>i\<bar> \<le> 2 ^ 53"
  shows "float64 (of_int i) = of_int i"
proof (cases "i = 0 \<or> \<bar>i\<bar> = 2 ^ 53")
  case True
  have e: "exponent (2 ^ 53) = 53" "exponent (- (2 ^ 53)) = 53" by code_simp+
  from True consider "i = 0" | "i = 2 ^ 53" | "i = - (2 ^ 53)" by linarith
  then show ?thesis
  proof cases
    case 1
    then show ?thesis by (simp add: float64_def)
  next
    case 2
    with e show ?thesis by (intro float64_multiple [of _ "2 ^ 52"]) simp
  next
    case 3
    with e show ?thesis by (intro float64_multiple [of _ "- (2 ^ 52)"]) simp
  qed
next
  case False
  then have "\<bar>i\<bar> < 2 ^ 53" "i \<noteq> 0" using assms by auto
  then have "\<bar>of_int i :: rat\<bar> < of_int (2 ^ 53)" by (metis of_int_abs of_int_less_iff)
  moreover have "2 powi exponent (of_int i) \<le> \<bar>of_int i :: rat\<bar>" using \<open>i \<noteq> 0\<close> by (intro exponent_bounds) simp
  ultimately have "(2 powi exponent (of_int i) :: rat) < 2 powi 53" by simp
  then have "exponent (of_int i) < 53" by (meson not_le power_int_increasing one_le_numeral)
  then have "max (exponent (of_int i) - 52) (- 1074) \<le> 0" by simp
  then obtain k where k: "max (exponent (of_int i) - 52) (- 1074) = - int k" by (rule nonpos_int_cases)
  show ?thesis by (rule float64_multiple [of _ "i * 2 ^ k"]) (simp add: k power_int_minus divide_inverse)
qed

text \<open>Outside the subnormal range the relative error is at most \<open>2\<^sup>-\<^sup>5\<^sup>3\<close>.\<close>

lemma float64_err:
  assumes "2 powi - 1022 \<le> \<bar>x\<bar>"
  shows "\<bar>float64 x - x\<bar> \<le> \<bar>x\<bar> / 2 ^ 53"
proof -
  have x: "x \<noteq> 0" using assms by (auto simp: not_le)
  let ?e = "exponent x"
  have "(2 powi - 1022 :: rat) < 2 powi (?e + 1)" using assms exponent_bounds(2) [OF x] by simp
  then have "- 1022 < ?e + 1" by (meson not_le power_int_increasing one_le_numeral)
  then have q: "max (?e - 52) (- 1074) = ?e - 52" by simp
  let ?p = "2 powi (?e - 52) :: rat"
  have p: "0 < ?p" by simp
  have "float64 x - x = (of_int (round_even (x / ?p)) - x / ?p) * ?p"
    using x p by (simp add: float64_def q Let_def left_diff_distrib)
  then have "\<bar>float64 x - x\<bar> \<le> 1 / 2 * ?p"
    using round_even_err [of "x / ?p"] p by (simp only: abs_mult abs_of_pos mult_right_mono less_imp_le)
  also have "1 / 2 * ?p = 2 powi ?e / 2 ^ 53" by (simp add: power_int_diff)
  also have "\<dots> \<le> \<bar>x\<bar> / 2 ^ 53" using exponent_bounds(1) [OF x] by (simp add: divide_right_mono)
  finally show ?thesis .
qed

lemma float64_below:
  assumes "2 powi - 1022 \<le> x" "x * (1 + 1 / 2 ^ 53) < b"
  shows "float64 x < b"
proof -
  have x: "0 < x" using assms(1) by (meson less_le_trans zero_less_numeral zero_less_power_int)
  then have "2 powi - 1022 \<le> \<bar>x\<bar>" using assms(1) by simp
  from float64_err [OF this] x have "float64 x - x \<le> x / 2 ^ 53" by (metis abs_ge_self abs_of_pos order_trans)
  with assms(2) show ?thesis by (simp add: distrib_left)
qed

section \<open>Decimal numbers\<close>

text \<open>\<open>strconv.ParseFloat\<close> on strings of digits and dots: at most one dot and at least one digit; a value
  that rounds to infinity is an error.\<close>

definition parse_decimal :: "string \<Rightarrow> rat option" where
  "parse_decimal s =
     (let (a, b, dot) = Cut (CHR ''.'') s
      in if list_all is_digit (a @ b) \<and> a @ b \<noteq> '''' then Some (of_int (digits_val (a @ b)) / 10 ^ length b) else None)"

definition ParseFloat :: "string \<Rightarrow> rat option" where
  "ParseFloat s =
     (case parse_decimal s of
        None \<Rightarrow> None
      | Some v \<Rightarrow> if v \<ge> 2 ^ 1024 - 2 ^ 970 then None else Some (float64 v))"

text \<open>\<open>math.Round\<close> of a number that is not negative, converted to \<open>int64\<close>; what the conversion gives beyond
  the range is up to the machine, a parameter.\<close>

definition round_int64 :: "int \<Rightarrow> rat \<Rightarrow> int" where
  "round_int64 beyond x = (let r = \<lfloor>x + 1 / 2\<rfloor> in if r < 2 ^ 63 then r else beyond)"

end
