(* ===== verification/Units.thy ===== *)
theory Units
  imports Floats
begin

text \<open>\<open>internal/units/units.go\<close>: transfer rates in configuration files and requests.\<close>

definition rateUnits :: "(string \<times> int) list" where
  "rateUnits = [('''', 1), (''B'', 1), (''Kbit'', 125), (''Mbit'', 125000), (''Gbit'', 125000000),
     (''KB'', 1000), (''MB'', 1000000), (''GB'', 1000000000), (''KiB'', 2 ^ 10), (''MiB'', 2 ^ 20), (''GiB'', 2 ^ 30)]"

datatype rate_error = MissingNumber | BadNumber | UnknownUnit string

definition num_char :: "char \<Rightarrow> bool" where
  "num_char c \<longleftrightarrow> is_digit c \<or> c = CHR ''.''"

text \<open>\<open>beyond\<close> is what converting a floating-point number of at least \<open>2\<^sup>6\<^sup>3\<close> to \<open>int64\<close> gives.\<close>

definition ParseRate :: "int \<Rightarrow> string \<Rightarrow> rate_error + int" where
  "ParseRate beyond s0 =
     (let s = TrimSpace s0
      in if s = '''' then Inr 0
         else let num = takeWhile num_char s; unit = TrimSpace (dropWhile num_char s)
              in if num = '''' then Inl MissingNumber
                 else case ParseFloat num of
                   None \<Rightarrow> Inl BadNumber
                 | Some v \<Rightarrow>
                     if v < 0 then Inl BadNumber
                     else case map_of rateUnits unit of
                       None \<Rightarrow> Inl (UnknownUnit unit)
                     | Some mult \<Rightarrow> Inr (round_int64 beyond (float64 (v * of_int mult))))"

text \<open>\<open>FormatRate\<close>: \<open>pr n x\<close> prints \<open>x\<close> with \<open>n\<close> decimals.\<close>

definition FormatRate :: "(nat \<Rightarrow> rat \<Rightarrow> string) \<Rightarrow> int \<Rightarrow> string" where
  "FormatRate pr bps =
     (if bps = 0 then ''unlimited''
      else let bits = float64 (float64 (of_int bps) * 8)
           in if bits \<ge> 10 ^ 9 then pr 1 (float64 (bits / 10 ^ 9)) @ ''Gbit''
              else if bits \<ge> 10 ^ 6 then pr 1 (float64 (bits / 10 ^ 6)) @ ''Mbit''
              else pr 0 (float64 (bits / 10 ^ 3)) @ ''Kbit'')"


section \<open>Lemmas\<close>

lemma digits_val_nonneg: "list_all is_digit ds \<Longrightarrow> 0 \<le> digits_val ds"
proof -
  have "0 \<le> n \<Longrightarrow> list_all is_digit ds \<Longrightarrow> 0 \<le> foldl (\<lambda>n c. 10 * n + digit_val c) n ds" for n
    by (induction ds arbitrary: n) (auto simp: is_digit_def digit_val_def)
  then show "list_all is_digit ds \<Longrightarrow> 0 \<le> digits_val ds" by (simp add: digits_val_def)
qed

lemma parse_decimal_digits:
  assumes "list_all is_digit ds" "ds \<noteq> ''''"
  shows "parse_decimal ds = Some (of_int (digits_val ds))"
proof -
  have "\<not> is_digit (CHR ''.'')" by (simp add: is_digit_def)
  then have "CHR ''.'' \<notin> set ds" using assms(1) by (auto simp: list_all_iff)
  then show ?thesis using assms by (simp add: parse_decimal_def Cut_def Let_def)
qed

lemma digit_plain_byte: "is_digit c \<Longrightarrow> plain_byte c"
  by (auto simp: is_digit_def is_space_def plain_byte_def)

lemma rateUnits_units: "(u, m) \<in> set rateUnits \<Longrightarrow> (\<forall>c\<in>set u. plain_byte c \<and> \<not> num_char c) \<and> 0 < m \<and> m \<le> 2 ^ 30"
  unfolding rateUnits_def by (auto simp: plain_byte_def is_space_def num_char_def is_digit_def)

lemma ParseFloat_digits:
  assumes d: "list_all is_digit ds" "ds \<noteq> ''''" and b: "digits_val ds \<le> 2 ^ 53"
  shows "ParseFloat ds = Some (of_int (digits_val ds))"
proof -
  have "(of_int (digits_val ds) :: rat) \<le> 2 ^ 53" using b by (metis of_int_le_iff of_int_numeral of_int_power)
  moreover have "(2 ^ 53 :: rat) < 2 ^ 1024 - 2 ^ 970" by simp
  moreover have "float64 (of_int (digits_val ds)) = of_int (digits_val ds)" using float64_int digits_val_nonneg [OF d(1)] b by simp
  ultimately show ?thesis using parse_decimal_digits [OF d] by (simp add: ParseFloat_def)
qed

lemma round_int64_int: "i < 2 ^ 63 \<Longrightarrow> round_int64 beyond (of_int i) = i"
proof -
  have "\<lfloor>of_int i + 1 / 2 :: rat\<rfloor> = i" by (rule floor_unique) auto
  then show "i < 2 ^ 63 \<Longrightarrow> round_int64 beyond (of_int i) = i" by (simp add: round_int64_def)
qed

lemma ParseRate_digits:
  assumes d: "list_all is_digit ds" "ds \<noteq> ''''" and u: "map_of rateUnits u = Some m"
    and b: "digits_val ds * m \<le> 2 ^ 53"
  shows "ParseRate beyond (ds @ u) = Inr (digits_val ds * m)"
proof -
  have um: "(u, m) \<in> set rateUnits" using u by (simp add: map_of_SomeD)
  note ru = rateUnits_units [OF um]
  have nn: "0 \<le> digits_val ds" by (rule digits_val_nonneg [OF d(1)])
  have "digits_val ds * 1 \<le> digits_val ds * m" using nn ru by (intro mult_left_mono) auto
  then have small: "digits_val ds \<le> 2 ^ 53" using b by simp
  have ns: "\<forall>c\<in>set (ds @ u). plain_byte c" using d(1) ru digit_plain_byte by (auto simp: list_all_iff)
  have trim: "TrimSpace (ds @ u) = ds @ u" "TrimSpace u = u" using ns by (auto intro!: TrimSpace_plain simp: list_all_iff)
  have "takeWhile num_char u = []" "dropWhile num_char u = u" using ru by (cases u; simp)+
  moreover have "\<forall>c\<in>set ds. num_char c" using d(1) by (simp add: list_all_iff num_char_def)
  ultimately have num: "takeWhile num_char (ds @ u) = ds" "dropWhile num_char (ds @ u) = u" by simp_all
  have "float64 (of_int (digits_val ds) * of_int m) = of_int (digits_val ds * m)"
    using float64_int [of "digits_val ds * m"] b nn ru by simp
  then show ?thesis
    using trim num d u ru nn ParseFloat_digits [OF d small] round_int64_int [of "digits_val ds * m" beyond] b
    by (simp add: ParseRate_def Let_def)
qed


section \<open>Properties\<close>

text \<open>A rate written as a whole number directly followed by one of the known units (or by none) is
  the number times the unit's bytes per second, exactly, as long as that stays below \<open>2\<^sup>5\<^sup>3\<close>, although it is
  computed in floating point.\<close>

theorem parse_rate_exact:
  assumes "list_all is_digit ds" "ds \<noteq> ''''" "map_of rateUnits u = Some m" "digits_val ds * m \<le> 2 ^ 53"
  shows "ParseRate beyond (ds @ u) = Inr (digits_val ds * m)"
  by (rule ParseRate_digits [OF assms])

theorem parse_rate_exact_witness: "ParseRate 0 ''50Mbit'' = Inr 6250000"
  using parse_rate_exact [of "''50''" "''Mbit''" 125000 0]
  by (simp add: is_digit_def rateUnits_def digits_val_def digit_val_def)

end
