(* ===== verification/Netip.thy ===== *)
theory Netip
  imports Prelude "HOL-Library.Word"
begin

unbundle bit_operations_syntax

text \<open>
  The part of \<open>net/netip\<close> the node uses: addresses, the unmapping of IPv4-mapped IPv6 addresses, zones,
  prefixes and loopback addresses, and \<open>net.SplitHostPort\<close>. Parsing the textual forms of addresses is a parameter of the definitions that do it.
\<close>

section \<open>Addresses\<close>

datatype Addr = V4 "32 word" | V6 "128 word" string

definition is4in6 :: "128 word \<Rightarrow> bool" where
  "is4in6 w \<longleftrightarrow> drop_bit 32 w = 0xFFFF"

definition Unmap :: "Addr \<Rightarrow> Addr" where
  "Unmap a = (case a of V4 w \<Rightarrow> V4 w | V6 w z \<Rightarrow> if is4in6 w then V4 (ucast w) else V6 w z)"

definition WithoutZone :: "Addr \<Rightarrow> Addr" where
  "WithoutZone a = (case a of V4 w \<Rightarrow> V4 w | V6 w z \<Rightarrow> V6 w '''')"

definition IsLoopback :: "Addr \<Rightarrow> bool" where
  "IsLoopback a =
     (case Unmap a of V4 w \<Rightarrow> drop_bit 24 w = 127 | V6 w z \<Rightarrow> w = 1)"

section \<open>Prefixes\<close>

text \<open>A prefix is an address without a zone and a number of bits within its length.\<close>

record Prefix =
  pAddr :: Addr
  pBits :: nat

fun valid_prefix :: "Prefix \<Rightarrow> bool" where
  "valid_prefix p = (case pAddr p of V4 _ \<Rightarrow> pBits p \<le> 32 | V6 _ z \<Rightarrow> pBits p \<le> 128 \<and> z = '''')"

definition Masked :: "Prefix \<Rightarrow> Prefix" where
  "Masked p =
     (case pAddr p of
        V4 w \<Rightarrow> p\<lparr>pAddr := V4 (w AND NOT (mask (32 - pBits p)))\<rparr>
      | V6 w z \<Rightarrow> p\<lparr>pAddr := V6 (w AND NOT (mask (128 - pBits p))) ''''\<rparr>)"

text \<open>\<open>Prefix.Contains\<close>: never for an address with a zone, nor for one of the other family.\<close>

definition Contains_addr :: "Prefix \<Rightarrow> Addr \<Rightarrow> bool" where
  "Contains_addr p a =
     (case (pAddr p, a) of
        (V4 q, V4 w) \<Rightarrow> drop_bit (32 - pBits p) (q XOR w) = 0
      | (V6 q _, V6 w z) \<Rightarrow> z = '''' \<and> drop_bit (128 - pBits p) (q XOR w) = 0
      | _ \<Rightarrow> False)"

section \<open>Host and port\<close>

text \<open>\<open>net.SplitHostPort\<close>, the host.\<close>

definition last_colon :: "string \<Rightarrow> nat option" where
  "last_colon s = (if CHR '':'' \<in> set s then Some (length s - 1 - length (takeWhile (\<lambda>c. c \<noteq> CHR '':'') (rev s))) else None)"

definition SplitHost :: "string \<Rightarrow> string option" where
  "SplitHost hp =
     (case last_colon hp of
        None \<Rightarrow> None
      | Some i \<Rightarrow>
          if HasPrefix hp ''['' then
            if CHR '']'' \<notin> set hp then None
            else let e = length (takeWhile (\<lambda>c. c \<noteq> CHR '']'') hp)
                 in if e + 1 = i \<and> CHR ''['' \<notin> set (drop 1 hp) \<and> CHR '']'' \<notin> set (drop (e + 1) hp) then Some (take (e - 1) (drop 1 hp)) else None
          else if CHR '':'' \<in> set (take i hp) \<or> CHR ''['' \<in> set hp \<or> CHR '']'' \<in> set hp then None
          else Some (take i hp))"

section \<open>Lemmas\<close>

lemma xor_zero_iff: "q XOR w = 0 \<longleftrightarrow> q = (w :: 'a :: len word)"
  by (metis xor.assoc xor.right_neutral xor_self_eq)

lemma drop_xor_zero: "drop_bit n (q XOR w) = 0 \<longleftrightarrow> drop_bit n q = drop_bit n (w :: 'a :: len word)"
  by (simp add: xor_zero_iff)

lemma drop_masked: "drop_bit n (w AND NOT (mask n)) = drop_bit n (w :: 'a :: len word)"
  by (rule bit_word_eqI) (auto simp: bit_simps dest: bit_imp_le_length)

lemma masked_same: "drop_bit n ((q AND NOT (mask n)) XOR w) = 0 \<longleftrightarrow> drop_bit n q = drop_bit n (w :: 'a :: len word)"
  by (simp only: drop_xor_zero drop_masked)

text \<open>Masking a prefix, as \<open>NewLocalMatcher\<close> does, changes nothing about what it contains: the addresses of
  its family without a zone whose first bits are its own.\<close>

lemma Contains_Masked:
  "Contains_addr (Masked p) a \<longleftrightarrow>
     (case (pAddr p, a) of
        (V4 q, V4 w) \<Rightarrow> drop_bit (32 - pBits p) q = drop_bit (32 - pBits p) w
      | (V6 q _, V6 w z) \<Rightarrow> z = '''' \<and> drop_bit (128 - pBits p) q = drop_bit (128 - pBits p) w
      | _ \<Rightarrow> False)"
  by (cases "pAddr p"; cases a) (simp_all add: Contains_addr_def Masked_def masked_same del: drop_bit_xor drop_bit_and)

end
