(* ===== verification/Status.thy ===== *)
theory Status
  imports Node Floats
begin

text \<open>
  \<open>internal/node/status.go\<close>: the status of a model as the summary of its files' jobs, and the second half of
  \<open>Ensure\<close> in \<open>internal/node/node.go\<close>, which reports it.

  What \<open>job.status\<close> reads is a parameter: a view of each job (its fields under \<open>j.mu\<close>, and the statistics of
  its torrent, which come from the torrent library).
\<close>

section \<open>The order of the states\<close>

fun stateRank :: "State \<Rightarrow> nat" where
  "stateRank StateFailed = 0"
| "stateRank StatePaused = 1"
| "stateRank StateAbsent = 2"
| "stateRank StateQueued = 3"
| "stateRank StateAdopting = 4"
| "stateRank StateDownloading = 5"
| "stateRank StateVerifying = 6"
| "stateRank StateSeeding = 7"

lemma stateRank_inj: "stateRank s = stateRank t \<Longrightarrow> s = t"
  by (cases s; cases t) auto

instantiation State :: linorder
begin

definition less_eq_State :: "State \<Rightarrow> State \<Rightarrow> bool" where
  "less_eq_State s t \<longleftrightarrow> stateRank s \<le> stateRank t"

definition less_State :: "State \<Rightarrow> State \<Rightarrow> bool" where
  "less_State s t \<longleftrightarrow> stateRank s < stateRank t"

instance
  by standard (auto simp: less_eq_State_def less_State_def intro: stateRank_inj)

end

lemma state_le_Seeding [simp]: "s \<le> StateSeeding"
  by (cases s) (simp_all add: less_eq_State_def)

section \<open>The status of a job\<close>

text \<open>\<open>torrent_info\<close> is whether the torrent's metadata is there.\<close>

record tstats =
  torrent_info :: bool
  BytesCompleted :: int
  ActivePeers :: int
  ConnectedSeeders :: int
  BytesWrittenData :: int

record jview =
  vstate :: State
  vpath :: string
  verr :: string
  vdups :: "string list"
  vnoSpace :: bool
  vtorrent :: "tstats option"

record FileStatus =
  fsName :: string
  fsPath :: string
  fsState :: State
  fsSize :: int
  fsDone :: int
  fsError :: string
  fsDuplicates :: "string list"

record jobStatus =
  jsFs :: FileStatus
  jsPeers :: int
  jsSeeds :: int
  jsUp :: int
  jsNoSpace :: bool

definition job_status :: "File \<Rightarrow> jview \<Rightarrow> jobStatus" where
  "job_status f v =
     (let dn = (if vstate v = StateSeeding then fSize f
                else case vtorrent v of Some t \<Rightarrow> if torrent_info t then BytesCompleted t else 0 | None \<Rightarrow> 0)
      in \<lparr>jsFs = \<lparr>fsName = DiskName f, fsPath = vpath v, fsState = vstate v, fsSize = fSize f, fsDone = dn,
            fsError = verr v, fsDuplicates = vdups v\<rparr>,
          jsPeers = (case vtorrent v of Some t \<Rightarrow> ActivePeers t | None \<Rightarrow> 0),
          jsSeeds = (case vtorrent v of Some t \<Rightarrow> ConnectedSeeders t | None \<Rightarrow> 0),
          jsUp = (case vtorrent v of Some t \<Rightarrow> BytesWrittenData t | None \<Rightarrow> 0), jsNoSpace = vnoSpace v\<rparr>)"

section \<open>The status of a model\<close>

record ModelStatus =
  msID :: string
  msState :: State
  Percent :: rat
  msPeers :: int
  msSeeds :: int
  Uploaded :: int
  UpRate :: int
  DownRate :: int
  msPath :: string
  msError :: string
  msNoSpace :: bool
  msDuplicates :: "string list"
  msFiles :: "FileStatus list"

definition isGGUF :: "string \<Rightarrow> bool" where
  "isGGUF name \<longleftrightarrow> HasSuffix (ToLower name) ''.gguf''"

definition isDocCompanion :: "string \<Rightarrow> bool" where
  "isDocCompanion name \<longleftrightarrow>
     (let b = ToLower (path_Base name)
      in list_ex (HasPrefix b) [''readme'', ''license'', ''notice''] \<or> HasSuffix b ''.md'' \<or> HasSuffix b ''.txt'')"

text \<open>The wanted units that have a job, in catalog order, each with its job's status.\<close>

definition unit_jobs :: "node \<Rightarrow> (nat \<Rightarrow> jview) \<Rightarrow> Model \<Rightarrow> (File \<times> jobStatus) list" where
  "unit_jobs n view m =
     concat (map (\<lambda>f. case map_of (jobs n) (fInfoHash f) of
         Some k \<Rightarrow> [(kf (table n k), job_status (kf (table n k)) (view k))] | None \<Rightarrow> []) (units m))"

definition main_seeding :: "Model \<Rightarrow> (File \<times> jobStatus) list \<Rightarrow> bool" where
  "main_seeding m js \<longleftrightarrow>
     list_ex (\<lambda>(f, s). Some (fInfoHash f) = mainInfoHash m \<and> fsState (jsFs s) = StateSeeding \<and> \<not> IsDir m \<and> isGGUF (fName f)) js"

text \<open>One turn of the summing loop, on the status and the totals of sizes and of bytes done; \<open>rates\<close> are the
  upload and download rates by infohash.\<close>

definition sum_job :: "Model \<Rightarrow> bool \<Rightarrow> (string \<Rightarrow> int \<times> int) \<Rightarrow> ModelStatus \<times> int \<times> int \<Rightarrow> File \<times> jobStatus \<Rightarrow> ModelStatus \<times> int \<times> int" where
  "sum_job m ms_ok rates acc fjs =
     (case acc of (ms, sz, dn) \<Rightarrow> case fjs of (f, s) \<Rightarrow>
        let fs = jsFs s;
            ms = ms\<lparr>msFiles := msFiles ms @ [fs], msPeers := i64 (msPeers ms + jsPeers s), msSeeds := i64 (msSeeds ms + jsSeeds s),
              Uploaded := i64 (Uploaded ms + jsUp s), UpRate := i64 (UpRate ms + fst (rates (fInfoHash f))),
              DownRate := i64 (DownRate ms + snd (rates (fInfoHash f)))\<rparr>
        in if ms_ok \<and> fsState fs = StateAbsent \<and> isDocCompanion (fName f) then (ms, sz, dn)
           else (ms\<lparr>msState := (if stateRank (fsState fs) < stateRank (msState ms) then fsState fs else msState ms),
                   msError := (if msError ms = '''' then fsError fs else msError ms),
                   msNoSpace := (msNoSpace ms \<or> jsNoSpace s), msDuplicates := msDuplicates ms @ fsDuplicates fs,
                   msPath := (if Some (fInfoHash f) = mainInfoHash m \<and> fsState fs = StateSeeding then fsPath fs else msPath ms)\<rparr>,
                 i64 (sz + fsSize fs), i64 (dn + fsDone fs)))"

definition percent :: "int \<Rightarrow> int \<Rightarrow> rat" where
  "percent dn sz = float64 (of_int \<lfloor>float64 (float64 (float64 (of_int dn) * 1000) / float64 (of_int sz))\<rfloor> / 10)"

definition empty_status :: "string \<Rightarrow> ModelStatus" where
  "empty_status i = \<lparr>msID = i, msState = StateSeeding, Percent = 0, msPeers = 0, msSeeds = 0, Uploaded = 0, UpRate = 0, DownRate = 0,
     msPath = '''', msError = '''', msNoSpace = False, msDuplicates = [], msFiles = []\<rparr>"

definition ModelStatus_of :: "node \<Rightarrow> (nat \<Rightarrow> jview) \<Rightarrow> (string \<Rightarrow> int \<times> int) \<Rightarrow> string \<Rightarrow> ModelStatus option" where
  "ModelStatus_of n view rates i =
     (case ncat n of
        None \<Rightarrow> None
      | Some c \<Rightarrow>
          if \<not> wantedLocked n i then None
          else case catalogModel c i of
            None \<Rightarrow> None
          | Some m \<Rightarrow>
              let js = unit_jobs n view m;
                  (ms, sz, dn) = foldl (sum_job m (main_seeding m js) rates) (empty_status i, 0, 0) js;
                  ms = (if length js < length (units m) then ms\<lparr>msState := StateQueued\<rparr> else ms);
                  ms = (if 0 < sz then ms\<lparr>Percent := percent dn sz\<rparr> else ms)
              in Some (if msState ms \<noteq> StateSeeding then ms\<lparr>msPath := ''''\<rparr> else ms))"

definition Status_of :: "node \<Rightarrow> (nat \<Rightarrow> jview) \<Rightarrow> (string \<Rightarrow> int \<times> int) \<Rightarrow> ModelStatus list" where
  "Status_of n view rates =
     (case ncat n of
        None \<Rightarrow> []
      | Some c \<Rightarrow> concat (map (\<lambda>m. case ModelStatus_of n view rates (ID m) of Some st \<Rightarrow> [st] | None \<Rightarrow> [])
          (filter (\<lambda>m. wantedLocked n (ID m)) (Models c))))"

text \<open>\<open>Ensure\<close> from the point where the reconciliation is done: \<open>n\<close> is the state the status is read in.\<close>

definition Ensure_report :: "node \<Rightarrow> (nat \<Rightarrow> jview) \<Rightarrow> (string \<Rightarrow> int \<times> int) \<Rightarrow> string \<Rightarrow> ensure_error option \<times> ModelStatus option" where
  "Ensure_report n view rates i =
     (case ModelStatus_of n view rates i of
        None \<Rightarrow> (Some ErrUnknownModel, None)
      | Some st \<Rightarrow> (if msNoSpace st then Some ErrNoSpace else None, Some st))"


section \<open>Lemmas: the summary\<close>

text \<open>The files that count: all but an absent documentation file of a GGUF model whose main file is seeding.\<close>

definition counts :: "bool \<Rightarrow> File \<times> jobStatus \<Rightarrow> bool" where
  "counts ms_ok fjs \<longleftrightarrow> \<not> (ms_ok \<and> fsState (jsFs (snd fjs)) = StateAbsent \<and> isDocCompanion (fName (fst fjs)))"

abbreviation state_of :: "File \<times> jobStatus \<Rightarrow> State" where
  "state_of fjs \<equiv> fsState (jsFs (snd fjs))"

lemma sum_job_state:
  "msState (fst (sum_job m ok rates (ms, sz, dn) x)) = (if counts ok x then min (state_of x) (msState ms) else msState ms)"
  by (cases x) (auto simp: sum_job_def counts_def Let_def min_def less_eq_State_def intro: stateRank_inj)

lemma Min_insert_min: "finite A \<Longrightarrow> Min (insert (min a b) A) = Min (insert b (insert a (A :: 'a :: linorder set)))"
  by (cases "A = {}") (simp_all add: min.assoc min.commute min.left_commute)

lemma sum_state:
  "msState (fst (foldl (sum_job m ok rates) (ms, sz, dn) js)) = Min (insert (msState ms) (state_of ` {x \<in> set js. counts ok x}))"
proof (induction js arbitrary: ms sz dn)
  case (Cons x js)
  obtain ms' sz' dn' where x: "sum_job m ok rates (ms, sz, dn) x = (ms', sz', dn')" by (metis prod_cases3)
  have eq: "{y \<in> set (x # js). counts ok y} = (if counts ok x then insert x {y \<in> set js. counts ok y} else {y \<in> set js. counts ok y})"
    by auto
  have "msState ms' = (if counts ok x then min (state_of x) (msState ms) else msState ms)"
    using sum_job_state [of m ok rates ms sz dn x] x by simp
  then have "Min (insert (msState ms') (state_of ` {y \<in> set js. counts ok y}))
     = Min (insert (msState ms) (state_of ` {y \<in> set (x # js). counts ok y}))"
    unfolding eq by (simp add: Min_insert_min)
  with Cons.IH [of ms' sz' dn'] x show ?case by simp
qed simp

lemma sum_files: "msFiles (fst (foldl (sum_job m ok rates) (ms, sz, dn) js)) = msFiles ms @ map (jsFs \<circ> snd) js"
proof (induction js arbitrary: ms sz dn)
  case (Cons x js)
  obtain ms' sz' dn' where x: "sum_job m ok rates (ms, sz, dn) x = (ms', sz', dn')" by (metis prod_cases3)
  then have "msFiles ms' = msFiles ms @ [jsFs (snd x)]" by (cases x) (auto simp: sum_job_def Let_def split: if_splits)
  with Cons.IH [of ms' sz' dn'] x show ?case by simp
qed simp

lemma sum_path:
  assumes "foldl (sum_job m ok rates) (ms, sz, dn) js = (ms', sz', dn')" "msPath ms' \<noteq> msPath ms"
  shows "\<exists>(f, s)\<in>set js. Some (fInfoHash f) = mainInfoHash m \<and> fsState (jsFs s) = StateSeeding \<and> fsPath (jsFs s) = msPath ms'"
  using assms
proof (induction js arbitrary: ms sz dn)
  case (Cons x js)
  obtain ms1 sz1 dn1 where x: "sum_job m ok rates (ms, sz, dn) x = (ms1, sz1, dn1)" by (metis prod_cases3)
  show ?case
  proof (cases "msPath ms' = msPath ms1")
    case True
    with Cons.prems(2) x show ?thesis by (cases x) (auto simp: sum_job_def Let_def split: if_splits)
  next
    case False
    then show ?thesis using Cons.IH [of ms1 sz1 dn1] Cons.prems(1) x by auto
  qed
qed simp

lemma length_concat_opt: "length (concat (map (\<lambda>x. case g x of Some y \<Rightarrow> [h y] | None \<Rightarrow> []) xs)) = length (filter (\<lambda>x. g x \<noteq> None) xs)"
  by (induction xs) (auto split: option.splits)

lemma unit_jobs_complete:
  "length (unit_jobs n view m) < length (units m) \<longleftrightarrow> (\<exists>f\<in>set (units m). map_of (jobs n) (fInfoHash f) = None)"
proof -
  have "length (filter P xs) < length xs \<longleftrightarrow> (\<exists>x\<in>set xs. \<not> P x)" for P and xs :: "File list"
    by (metis filter_id_conv filter_cong length_filter_less linorder_not_less order.order_iff_strict)
  then show ?thesis by (auto simp: unit_jobs_def length_concat_opt)
qed

lemma ModelStatus_cases:
  assumes "ModelStatus_of n view rates i = Some st"
  obtains c m ms sz dn where "ncat n = Some c" "catalogModel c i = Some m" "wantedLocked n i"
    "foldl (sum_job m (main_seeding m (unit_jobs n view m)) rates) (empty_status i, 0, 0) (unit_jobs n view m) = (ms, sz, dn)"
    "msState st = (if \<exists>f\<in>set (units m). map_of (jobs n) (fInfoHash f) = None then StateQueued else msState ms)"
    "msPath st = (if msState st = StateSeeding then msPath ms else '''')" "msFiles st = msFiles ms"
    "0 < sz \<Longrightarrow> Percent st = percent dn sz"
proof -
  obtain c m where cm: "ncat n = Some c" "wantedLocked n i" "catalogModel c i = Some m"
    using assms by (auto simp: ModelStatus_of_def split: option.splits if_splits)
  obtain ms sz dn where f: "foldl (sum_job m (main_seeding m (unit_jobs n view m)) rates) (empty_status i, 0, 0) (unit_jobs n view m) = (ms, sz, dn)"
    by (metis prod_cases3)
  show thesis
    by (rule that [OF cm(1,3,2) f])
      (use assms cm f in \<open>auto simp: ModelStatus_of_def Let_def unit_jobs_complete [of n view m] split: if_splits\<close>)
qed

section \<open>Lemmas: percentages\<close>

text \<open>What is computed on the way is zero or far above the subnormal numbers.\<close>

lemma powi_below: "(2 powi - 1022 :: rat) \<le> 1 / 2 ^ 43"
proof -
  have "(2 powi - 1022 :: rat) \<le> 2 powi - 43" by (rule power_int_increasing) simp_all
  then show ?thesis by (simp add: power_int_minus)
qed

lemma float64_tenth:
  assumes "0 \<le> i" "i \<le> 999"
  shows "float64 (of_int i / 10) < 100"
proof (cases "i = 0")
  case True
  then show ?thesis by (simp add: float64_def)
next
  case False
  have i: "(1 :: rat) \<le> of_int i" "(of_int i :: rat) \<le> 999" using False assms by simp_all
  have "(1 :: rat) / 2 ^ 43 \<le> 1 / 10" by simp
  with i(1) powi_below have "2 powi - 1022 \<le> (of_int i / 10 :: rat)" by linarith
  moreover have "(of_int i / 10 :: rat) * (1 + 1 / 2 ^ 53) < 100" using i(2) by simp
  ultimately show ?thesis by (rule float64_below)
qed

lemma percent_100:
  assumes r: "0 \<le> dn" "dn \<le> sz" "0 < sz" "sz \<le> 2 ^ 43"
  shows "percent dn sz = 100 \<longleftrightarrow> dn = sz"
proof -
  have "float64 (of_int dn) = of_int dn" "float64 (of_int sz) = of_int sz" using r by (auto intro!: float64_int)
  moreover have "float64 (of_int (dn * 1000)) = of_int (dn * 1000)" using r by (intro float64_int) auto
  ultimately have p: "percent dn sz = float64 (of_int \<lfloor>float64 (of_int (dn * 1000) / of_int sz)\<rfloor> / 10)" by (simp add: percent_def)
  show ?thesis
  proof
    assume "dn = sz"
    moreover have "float64 1000 = 1000" "float64 100 = 100" using float64_int [of 1000] float64_int [of 100] by simp_all
    ultimately show "percent dn sz = 100" using r p by simp
  next
    assume 100: "percent dn sz = 100"
    show "dn = sz"
    proof (rule ccontr)
      assume "dn \<noteq> sz"
      then have "of_int dn \<le> (of_int sz :: rat) - 1" using r by (metis linorder_not_less of_int_1 of_int_diff of_int_le_iff order.order_iff_strict zle_diff1_eq)
      moreover have s: "(of_int sz :: rat) \<le> 2 ^ 43" using r(4) by (metis of_int_le_iff of_int_numeral of_int_power)
      ultimately have "of_int dn * (1 + 1 / 2 ^ 53) < (of_int sz :: rat)" by (simp add: field_simps)
      then have b: "of_int (dn * 1000) / of_int sz * (1 + 1 / 2 ^ 53) < (1000 :: rat)" using r(3) by (simp add: field_simps)
      let ?x = "of_int (dn * 1000) / of_int sz :: rat"
      have "float64 ?x < 1000"
      proof (cases "dn = 0")
        case True
        then show ?thesis by (simp add: float64_def)
      next
        case False
        then have "(1 :: rat) \<le> of_int (dn * 1000)" using r(1) by (metis le_less mult_le_0_iff not_le numeral_le_iff of_int_1_le_iff one_le_mult_iff zero_less_numeral int_one_le_iff_zero_less mult_pos_pos)
        then have "1 / 2 ^ 43 \<le> ?x" using s r(3) by (intro frac_le) auto
        then have "2 powi - 1022 \<le> ?x" using powi_below by linarith
        from float64_below [OF this b] show ?thesis .
      qed
      then have "\<lfloor>float64 ?x\<rfloor> \<le> 999" by linarith
      moreover have "0 \<le> \<lfloor>float64 ?x\<rfloor>" using r float64_nonneg [of ?x] by simp
      ultimately have "float64 (of_int \<lfloor>float64 ?x\<rfloor> / 10) < 100" by (intro float64_tenth)
      with 100 p show False by simp
    qed
  qed
qed

section \<open>Properties\<close>

text \<open>The status of a model summarises its files: a model one of whose files has no job is queued;
  otherwise its state is the lowest ranked of its files' states (seeding when all are), where an absent
  documentation file of a GGUF model whose main file is seeding does not count. Every file with a job is
  listed, and a path is reported only for a model that is seeding, the one its main torrent seeds.\<close>

theorem model_status_summary:
  assumes "ModelStatus_of n view rates i = Some st" "ncat n = Some c" "catalogModel c i = Some m"
  shows "msState st = (if \<exists>f\<in>set (units m). map_of (jobs n) (fInfoHash f) = None then StateQueued
       else Min (insert StateSeeding (state_of ` {x \<in> set (unit_jobs n view m). counts (main_seeding m (unit_jobs n view m)) x})))
     \<and> msFiles st = map (jsFs \<circ> snd) (unit_jobs n view m)
     \<and> (msPath st \<noteq> '''' \<longrightarrow> msState st = StateSeeding \<and> (\<exists>(f, s)\<in>set (unit_jobs n view m).
          Some (fInfoHash f) = mainInfoHash m \<and> fsState (jsFs s) = StateSeeding \<and> fsPath (jsFs s) = msPath st))"
proof -
  let ?js = "unit_jobs n view m"
  from ModelStatus_cases [OF assms(1)] assms(2,3)
  obtain ms sz dn where f: "foldl (sum_job m (main_seeding m ?js) rates) (empty_status i, 0, 0) ?js = (ms, sz, dn)"
    and st: "msState st = (if \<exists>f\<in>set (units m). map_of (jobs n) (fInfoHash f) = None then StateQueued else msState ms)"
      "msPath st = (if msState st = StateSeeding then msPath ms else '''')" "msFiles st = msFiles ms"
    by (metis option.inject)
  have "msState ms = Min (insert StateSeeding (state_of ` {x \<in> set ?js. counts (main_seeding m ?js) x}))"
    "msFiles ms = map (jsFs \<circ> snd) ?js"
    using sum_state [of m "main_seeding m ?js" rates "empty_status i" 0 0 ?js] sum_files [of m "main_seeding m ?js" rates "empty_status i" 0 0 ?js] f
    by (simp_all add: empty_status_def)
  moreover have "\<exists>(f, s)\<in>set ?js. Some (fInfoHash f) = mainInfoHash m \<and> fsState (jsFs s) = StateSeeding \<and> fsPath (jsFs s) = msPath st"
    if "msPath st \<noteq> ''''"
    using sum_path [OF f] st(2) that by (auto simp: empty_status_def split: if_splits)
  ultimately show ?thesis using st by (auto split: if_splits)
qed

definition demo_view :: "nat \<Rightarrow> jview" where
  "demo_view k = \<lparr>vstate = StateSeeding, vpath = ''/d/m.gguf'', verr = '''', vdups = [], vnoSpace = False, vtorrent = None\<rparr>"

theorem model_status_summary_witness:
  "\<exists>st. ModelStatus_of demo_again demo_view (\<lambda>_. (0, 0)) ''m1'' = Some st \<and> msState st = StateSeeding
     \<and> map fsName (msFiles st) = [''m.gguf''] \<and> msPath st = ''/d/m.gguf''"
proof -
  obtain st where st: "ModelStatus_of demo_again demo_view (\<lambda>_. (0, 0)) ''m1'' = Some st"
    "msState st = StateSeeding" "msPath st = ''/d/m.gguf''"
  proof -
    have "map_option (\<lambda>st. (msState st, msPath st)) (ModelStatus_of demo_again demo_view (\<lambda>_. (0, 0)) ''m1'') = Some (StateSeeding, ''/d/m.gguf'')"
      by code_simp
    then show ?thesis using that by auto
  qed
  moreover have "ncat demo_again = Some demo_catalog" "catalogModel demo_catalog ''m1'' = Some demo_model" by code_simp+
  from model_status_summary [OF st(1) this] have "msFiles st = map (jsFs \<circ> snd) (unit_jobs demo_again demo_view demo_model)" by blast
  moreover have "map (fsName \<circ> jsFs \<circ> snd) (unit_jobs demo_again demo_view demo_model) = [''m.gguf'']" by code_simp
  ultimately show ?thesis by (simp add: comp_assoc)
qed

text \<open>"100.0%" means every byte: for sizes up to eight tebibytes the percentage of a model, computed in
  floating point and rounded down to a tenth, is 100 exactly when all of its bytes are there.\<close>

theorem hundred_percent_means_done:
  assumes "0 \<le> dn" "dn \<le> sz" "0 < sz" "sz \<le> 2 ^ 43"
  shows "percent dn sz = 100 \<longleftrightarrow> dn = sz"
  using percent_100 [OF assms] .

theorem hundred_percent_means_done_witness: "percent (2 ^ 42 - 1) (2 ^ 42) \<noteq> 100 \<and> percent 7 7 = 100"
  using hundred_percent_means_done [of "2 ^ 42 - 1" "2 ^ 42"] hundred_percent_means_done [of 7 7] by simp

end
