(* ===== verification/NodeLimits.thy ===== *)
theory NodeLimits
  imports Status Connbudget "HOL-Library.Product_Lexorder" "HOL-Library.List_Lexorder" "HOL-Library.Char_ord"
begin

text \<open>
  \<open>internal/node/limits.go\<close>: the limits in force, the operator's override of them, the choice of the torrents
  that may upload, and the application of all this to the jobs' torrents every two seconds.

  A torrent of the torrent library is a number; what was last set on it (the connection limit, whether it
  may upload) is the state \<open>tlib\<close>, its statistics are parameters.
\<close>

section \<open>State\<close>

record rateSample =
  up :: int
  down :: int
  upRate :: int
  downRate :: int

record override =
  oset :: Partial
  orule :: int
  oat :: time

record limitsState =
  eff :: Limits
  lrule :: int
  loverride :: "override option"
  rates :: "(string \<times> rateSample) list"
  lastTick :: time

record uploadCandidate =
  uKey :: string
  Demand :: int
  uSize :: int

section \<open>Uploads\<close>

definition smallUploadFile :: int where
  "smallUploadFile = 64 * 2 ^ 20"

text \<open>The allowed keys. The order is by falling demand, then by key; equal elements are interchangeable.\<close>

definition rankUploads :: "uploadCandidate list \<Rightarrow> int \<Rightarrow> string list" where
  "rankUploads c n =
     (let small = filter (\<lambda>u. uSize u < smallUploadFile) c;
          sorted = sort_key (\<lambda>u. (- Demand u, uKey u)) (filter (\<lambda>u. \<not> uSize u < smallUploadFile) c)
      in map uKey small @ map uKey (if n > 0 then take (nat n) sorted else sorted))"

section \<open>Limits and override\<close>

text \<open>The locked section of \<open>applyLimits\<close>: the override is dropped at a boundary, and the limits in force are
  those of the schedule with what is left of it.\<close>

definition expire :: "zone \<Rightarrow> Sched \<Rightarrow> time \<Rightarrow> limitsState \<Rightarrow> override option" where
  "expire z s now st =
     (case loverride st of
        None \<Rightarrow> None
      | Some ov \<Rightarrow>
          let since = (if lastTick st < oat ov then oat ov else lastTick st)
          in if orule ov \<noteq> snd (Effective z s now) \<or> Boundary z s since now then None else Some ov)"

definition tick :: "zone \<Rightarrow> Sched \<Rightarrow> time \<Rightarrow> limitsState \<Rightarrow> limitsState" where
  "tick z s now st =
     (case Effective z s now of (l, idx) \<Rightarrow>
        let ov = expire z s now st
        in st\<lparr>eff := (case ov of Some v \<Rightarrow> Apply (oset v) l | None \<Rightarrow> l), lrule := idx, loverride := ov, lastTick := now\<rparr>)"

definition SetOverride :: "zone \<Rightarrow> Sched \<Rightarrow> Partial \<Rightarrow> time \<Rightarrow> limitsState \<Rightarrow> limitsState" where
  "SetOverride z s p now st =
     tick z s now (st\<lparr>loverride := Some \<lparr>oset = p, orule = snd (Effective z s now), oat = now\<rparr>\<rparr>)"

definition ClearOverride :: "zone \<Rightarrow> Sched \<Rightarrow> time \<Rightarrow> limitsState \<Rightarrow> limitsState" where
  "ClearOverride z s now st = tick z s now (st\<lparr>loverride := None\<rparr>)"

record LimitsStatus =
  lsEffective :: Limits
  lsRule :: int
  lsOverride :: "Partial option"

definition Limits_of :: "limitsState \<Rightarrow> LimitsStatus" where
  "Limits_of st = \<lparr>lsEffective = eff st, lsRule = lrule st, lsOverride = map_option oset (loverride st)\<rparr>"

section \<open>Applying the limits to the jobs\<close>

text \<open>What a tick sees of a job: its torrent, if it has one, with its statistics (\<open>local\<close> counts the
  connections to local peers), and the cache of what was last applied, and to which torrent.\<close>

record tview =
  tid :: nat
  tlocal :: int
  tActive :: int
  tSeeders :: int
  tWritten :: int
  tRead :: int

record ljob =
  lih :: string
  lsize :: int
  lst :: State
  ltorrent :: "tview option"
  appliedTo :: "nat option"
  maxConns :: int
  uploadOK :: bool

record tlib =
  estConns :: "nat \<Rightarrow> int"
  dataUpload :: "nat \<Rightarrow> bool"

text \<open>\<open>int64(float64(s.up-o.up)/dt)\<close>, clamped at 0; \<open>dt\<close> is the number of seconds since the last tick.\<close>

definition rate_of :: "rat \<Rightarrow> int \<Rightarrow> int \<Rightarrow> int" where
  "rate_of dt new old =
     (let q = float64 (float64 (of_int (i64 (new - old))) / dt) in max 0 (if q < 0 then - \<lfloor>- q\<rfloor> else \<lfloor>q\<rfloor>))"

definition sample :: "rat \<Rightarrow> (string \<times> rateSample) list \<Rightarrow> string \<Rightarrow> tview \<Rightarrow> rateSample" where
  "sample dt old ih t =
     (let s = \<lparr>up = tWritten t, down = tRead t, upRate = 0, downRate = 0\<rparr>
      in case map_of old ih of
           Some o' \<Rightarrow> if 0 < dt then s\<lparr>upRate := rate_of dt (up s) (up o'), downRate := rate_of dt (down s) (down o')\<rparr> else s
         | None \<Rightarrow> s)"

definition apply_one :: "(string \<rightharpoonup> int) \<Rightarrow> string list \<Rightarrow> ljob \<times> tlib \<Rightarrow> ljob \<times> tlib" where
  "apply_one alloc allowed jl =
     (case jl of (j, l) \<Rightarrow>
        case ltorrent j of
          None \<Rightarrow> (j, l)
        | Some t \<Rightarrow>
            let conns = (case alloc (lih j) of Some c \<Rightarrow> c | None \<Rightarrow> 0);
                allow = (lst j \<noteq> StateSeeding \<or> lih j \<in> set allowed);
                same = (appliedTo j = Some (tid t));
                setConns = (\<not> same \<or> conns \<noteq> maxConns j);
                setUpload = (\<not> same \<or> allow \<noteq> uploadOK j);
                l = (if setConns then l\<lparr>estConns := (estConns l)(tid t := conns)\<rparr> else l);
                l = (if setUpload then l\<lparr>dataUpload := (dataUpload l)(tid t := allow)\<rparr> else l)
            in (j\<lparr>maxConns := (if setConns then conns else maxConns j), uploadOK := (if setUpload then allow else uploadOK j),
                  appliedTo := Some (tid t)\<rparr>, l))"

fun apply_all :: "(string \<rightharpoonup> int) \<Rightarrow> string list \<Rightarrow> ljob list \<Rightarrow> tlib \<Rightarrow> ljob list \<times> tlib" where
  "apply_all alloc allowed [] l = ([], l)"
| "apply_all alloc allowed (j # js) l =
     (case apply_one alloc allowed (j, l) of
        (j', l') \<Rightarrow> case apply_all alloc allowed js l' of (js', l'') \<Rightarrow> (j' # js', l''))"

definition conn_cands :: "ljob list \<Rightarrow> Torrent list" where
  "conn_cands js = concat (map (\<lambda>j. case ltorrent j of
     Some t \<Rightarrow> [\<lparr>Key = lih j, Downloading = (lst j = StateDownloading), Local = tlocal t\<rparr>] | None \<Rightarrow> []) js)"

definition seeders :: "ljob list \<Rightarrow> uploadCandidate list" where
  "seeders js = concat (map (\<lambda>j. case ltorrent j of
     Some t \<Rightarrow> if lst j = StateSeeding then [\<lparr>uKey = lih j, Demand = i64 (tActive t - tSeeders t), uSize = lsize j\<rparr>] else []
   | None \<Rightarrow> []) js)"

definition samples :: "rat \<Rightarrow> (string \<times> rateSample) list \<Rightarrow> ljob list \<Rightarrow> (string \<times> rateSample) list" where
  "samples dt old js = concat (map (\<lambda>j. case ltorrent j of Some t \<Rightarrow> [(lih j, sample dt old (lih j) t)] | None \<Rightarrow> []) js)"

text \<open>\<open>applyLimits\<close> as a whole; the third component is what the rate limiters are set to. \<open>secs\<close> converts a
  duration to seconds (\<open>Duration.Seconds\<close>).\<close>

definition applyLimits :: "zone \<Rightarrow> Sched \<Rightarrow> bool \<Rightarrow> (int \<Rightarrow> rat) \<Rightarrow> time \<Rightarrow> limitsState \<Rightarrow> ljob list \<Rightarrow> tlib
    \<Rightarrow> limitsState \<times> (int \<times> int) \<times> ljob list \<times> tlib" where
  "applyLimits z s countLocal secs now st js l =
     (let prev = lastTick st;
          st1 = tick z s now st;
          st2 = st1\<lparr>rates := samples (secs (now - prev)) (rates st) js\<rparr>;
          alloc = Allocate \<lparr>bMaxConns = MaxConns (eff st1), PerTorrent = MaxConnsPerTorrent (eff st1), CountLocal = countLocal\<rparr> (conn_cands js);
          allowed = rankUploads (seeders js) (MaxActiveUploads (eff st1))
      in (st2, (Upload (eff st1), Download (eff st1)), apply_all alloc allowed js l))"


section \<open>Lemmas: uploads\<close>

lemma take_by_rank:
  assumes s: "sorted (map k xs)" and d: "distinct (map k xs)" and u: "u \<in> set xs"
  shows "u \<in> set (take n xs) \<longleftrightarrow> card {v \<in> set xs. (k v :: 'b :: linorder) < k u} < n"
proof -
  obtain i where i: "i < length xs" "u = xs ! i" using u by (metis in_set_conv_nth)
  have dx: "distinct xs" using d by (simp add: distinct_map)
  have lt: "k (xs ! a) < k (xs ! b) \<longleftrightarrow> a < b" if "a < length xs" "b < length xs" for a b
    using sorted_nth_mono [OF s, of a b] sorted_nth_mono [OF s, of b a] nth_eq_iff_index_eq [OF d, of a b] that
    by (cases a b rule: linorder_cases) (auto simp: less_le)
  have "v \<in> set xs \<and> k v < k u \<longleftrightarrow> v \<in> set (take i xs)" for v
  proof
    assume "v \<in> set xs \<and> k v < k u"
    then obtain j where "j < length xs" "v = xs ! j" "k (xs ! j) < k (xs ! i)" using i by (metis in_set_conv_nth)
    with lt i show "v \<in> set (take i xs)" by (auto simp: in_set_conv_nth)
  next
    assume "v \<in> set (take i xs)"
    then obtain j where "j < i" "v = xs ! j" using i by (auto simp: in_set_conv_nth)
    with lt [of j i] i show "v \<in> set xs \<and> k v < k u" by simp
  qed
  then have "{v \<in> set xs. k v < k u} = set (take i xs)" by blast
  moreover have "card (set (take i xs)) = i" using dx i by (simp add: distinct_card)
  moreover have "u \<in> set (take n xs) \<longleftrightarrow> i < n"
    using i dx by (auto simp: in_set_conv_nth nth_eq_iff_index_eq intro: exI [of _ i])
  ultimately show ?thesis by simp
qed

definition big :: "uploadCandidate \<Rightarrow> bool" where
  "big u \<longleftrightarrow> \<not> uSize u < smallUploadFile"

definition ahead :: "uploadCandidate \<Rightarrow> uploadCandidate \<Rightarrow> bool" where
  "ahead v u \<longleftrightarrow> Demand u < Demand v \<or> Demand v = Demand u \<and> uKey v < uKey u"

lemma rankUploads_iff:
  assumes d: "distinct (map uKey c)" and u: "u \<in> set c"
  shows "uKey u \<in> set (rankUploads c n) \<longleftrightarrow> \<not> big u \<or> n \<le> 0 \<or> card {v \<in> set c. big v \<and> ahead v u} < nat n"
proof -
  let ?k = "\<lambda>u. (- Demand u, uKey u)" and ?b = "filter (\<lambda>u. \<not> uSize u < smallUploadFile) c"
  let ?xs = "sort_key ?k ?b" and ?s = "filter (\<lambda>u. uSize u < smallUploadFile) c"
  have inj: "uKey v = uKey u \<Longrightarrow> v \<in> set c \<Longrightarrow> v = u" for v using d u by (auto simp: distinct_map dest: inj_onD)
  have db: "distinct (map uKey ?b)" using d by (simp add: distinct_map_filter)
  then have dk: "distinct (map ?k ?xs)" by (auto simp: distinct_map inj_on_def)
  have mem: "uKey u \<in> uKey ` set ys \<longleftrightarrow> u \<in> set ys" if "set ys \<subseteq> set c" for ys using inj that by (metis image_iff subsetD)
  have "set (take (nat n) ?xs) \<subseteq> set c" using set_take_subset [of "nat n" ?xs] by auto
  then have "uKey u \<in> set (rankUploads c n) \<longleftrightarrow> \<not> big u \<or> u \<in> set (if n > 0 then take (nat n) ?xs else ?xs)"
    using mem [of ?s] mem [of ?xs] mem [of "take (nat n) ?xs"] u by (auto simp: rankUploads_def Let_def big_def)
  moreover have "u \<in> set (take (nat n) ?xs) \<longleftrightarrow> card {v \<in> set c. big v \<and> ahead v u} < nat n" if "big u"
  proof -
    have "{v \<in> set ?xs. ?k v < ?k u} = {v \<in> set c. big v \<and> ahead v u}"
      by (auto simp: big_def ahead_def less_prod_def)
    then show ?thesis using take_by_rank [OF sorted_sort_key dk, of u "nat n"] that u by (simp add: big_def)
  qed
  ultimately show ?thesis using u by (auto simp: big_def)
qed

section \<open>Lemmas: the override\<close>

text \<open>The same rule matches at every instant of \<open>[a, b]\<close>.\<close>

definition steady :: "zone \<Rightarrow> Sched \<Rightarrow> time \<Rightarrow> time \<Rightarrow> bool" where
  "steady z s a b \<longleftrightarrow> (\<forall>t. a \<le> t \<and> t \<le> b \<longrightarrow> snd (Effective z s t) = snd (Effective z s a))"

lemma steady_iff:
  assumes "a \<le> b"
  shows "steady (fixed_zone k) s a b \<longleftrightarrow> \<not> Boundary (fixed_zone k) s a b"
proof -
  have "a \<le> t \<longleftrightarrow> a < t \<or> t = a" for t :: int by auto
  then show ?thesis unfolding steady_def Boundary_iff by auto
qed

lemma steadyD: "steady z s a b \<Longrightarrow> a \<le> t \<Longrightarrow> t \<le> b \<Longrightarrow> snd (Effective z s t) = snd (Effective z s a)"
  unfolding steady_def by blast

lemma steady_extend:
  assumes "a \<le> b" "b \<le> c"
  shows "steady z s a c \<longleftrightarrow> steady z s a b \<and> steady z s b c"
proof
  assume st: "steady z s a c"
  have "snd (Effective z s t) = snd (Effective z s b)" if "b \<le> t" "t \<le> c" for t
    using steadyD [OF st, of t] steadyD [OF st, of b] assms that by simp
  moreover have "snd (Effective z s t) = snd (Effective z s a)" if "a \<le> t" "t \<le> b" for t
    using steadyD [OF st, of t] assms that by simp
  ultimately show "steady z s a b \<and> steady z s b c" unfolding steady_def by blast
next
  assume st: "steady z s a b \<and> steady z s b c"
  have "snd (Effective z s t) = snd (Effective z s a)" if "a \<le> t" "t \<le> c" for t
    using steadyD [of z s a b t] steadyD [of z s b c t] steadyD [of z s a b b] assms that st by (cases "t \<le> b") auto
  then show "steady z s a c" unfolding steady_def by blast
qed

definition ticks :: "zone \<Rightarrow> Sched \<Rightarrow> time list \<Rightarrow> limitsState \<Rightarrow> limitsState" where
  "ticks z s ts st = foldl (\<lambda>st t. tick z s t st) st ts"

lemma tick_kept:
  assumes "loverride st = Some ov" "orule ov = snd (Effective (fixed_zone k) s (oat ov))" "oat ov \<le> lastTick st" "lastTick st \<le> now"
    "steady (fixed_zone k) s (oat ov) (lastTick st)"
  shows "loverride (tick (fixed_zone k) s now st) = (if steady (fixed_zone k) s (oat ov) now then Some ov else None)"
proof -
  have "steady (fixed_zone k) s (oat ov) now \<longleftrightarrow> \<not> Boundary (fixed_zone k) s (lastTick st) now"
    using steady_extend [OF assms(3,4)] steady_iff [OF assms(4)] assms(5) by simp
  moreover have "snd (Effective (fixed_zone k) s now) = orule ov" if "steady (fixed_zone k) s (oat ov) now"
    using steadyD [OF that, of now] assms(2-4) by simp
  ultimately show ?thesis using assms(1,3) by (auto simp: tick_def expire_def Let_def split: prod.splits)
qed

lemma tick_none: "loverride st = None \<Longrightarrow> loverride (tick z s now st) = None"
  by (auto simp: tick_def expire_def Let_def split: prod.splits)

lemma tick_fields [simp]: "lastTick (tick z s now st) = now"
  "eff (tick z s now st) = (case loverride (tick z s now st) of Some v \<Rightarrow> Apply (oset v) (fst (Effective z s now)) | None \<Rightarrow> fst (Effective z s now))"
  by (simp_all add: tick_def Let_def case_prod_unfold)

lemma ticks_none: "loverride st = None \<Longrightarrow> loverride (ticks z s ts st) = None"
  by (induction ts arbitrary: st) (auto simp: ticks_def tick_none)

lemma steady_refl [simp]: "steady z s a a"
  unfolding steady_def by (metis order_antisym)

lemma steady_shorter: "steady z s a c \<Longrightarrow> b \<le> c \<Longrightarrow> steady z s a b"
  unfolding steady_def by (meson order_trans)

lemma ticks_kept:
  assumes "loverride st = Some ov" "orule ov = snd (Effective (fixed_zone k) s (oat ov))" "oat ov \<le> lastTick st"
    "steady (fixed_zone k) s (oat ov) (lastTick st)" "sorted (lastTick st # ts)"
  shows "loverride (ticks (fixed_zone k) s ts st)
     = (if steady (fixed_zone k) s (oat ov) (last (lastTick st # ts)) then Some ov else None)"
  using assms
proof (induction ts arbitrary: st)
  case Nil
  then show ?case by (simp add: ticks_def)
next
  case (Cons t ts)
  let ?st = "tick (fixed_zone k) s t st"
  have t: "lastTick st \<le> t" "sorted (lastTick ?st # ts)" using Cons.prems(5) by auto
  note one = tick_kept [OF Cons.prems(1-3) t(1) Cons.prems(4)]
  have run: "ticks (fixed_zone k) s (t # ts) st = ticks (fixed_zone k) s ts ?st" by (simp add: ticks_def)
  show ?case
  proof (cases "steady (fixed_zone k) s (oat ov) t")
    case True
    then show ?thesis using Cons.IH [of ?st] one Cons.prems(2,3) t unfolding run by simp
  next
    case False
    have "t \<le> last (t # ts)" using t(2) by (cases ts rule: rev_cases) (auto simp: sorted_append)
    with False steady_shorter have "\<not> steady (fixed_zone k) s (oat ov) (last (t # ts))" by blast
    with False one ticks_none show ?thesis unfolding run by simp
  qed
qed


section \<open>Lemmas: applying the limits\<close>

text \<open>The cache of a job tells the truth about the torrent it names; and no two jobs share a torrent.\<close>

definition coherent :: "tlib \<Rightarrow> ljob \<Rightarrow> bool" where
  "coherent l j \<longleftrightarrow> (\<forall>t. appliedTo j = Some t \<longrightarrow> estConns l t = maxConns j \<and> dataUpload l t = uploadOK j)"

definition keeps_off :: "ljob \<Rightarrow> ljob \<Rightarrow> bool" where
  "keeps_off j j' \<longleftrightarrow> (\<forall>t. ltorrent j = Some t \<longrightarrow> appliedTo j' \<noteq> Some (tid t) \<and> (\<forall>t'. ltorrent j' = Some t' \<longrightarrow> tid t' \<noteq> tid t))"

fun separate :: "ljob list \<Rightarrow> bool" where
  "separate [] = True"
| "separate (j # js) = (list_all (\<lambda>j'. keeps_off j j' \<and> keeps_off j' j) js \<and> separate js)"

definition conns_of :: "(string \<rightharpoonup> int) \<Rightarrow> ljob \<Rightarrow> int" where
  "conns_of alloc j = (case alloc (lih j) of Some c \<Rightarrow> c | None \<Rightarrow> 0)"

definition may_upload :: "string list \<Rightarrow> ljob \<Rightarrow> bool" where
  "may_upload allowed j \<longleftrightarrow> lst j \<noteq> StateSeeding \<or> lih j \<in> set allowed"

text \<open>The calls as they would be without a cache.\<close>

definition set_always :: "(string \<rightharpoonup> int) \<Rightarrow> string list \<Rightarrow> tlib \<Rightarrow> ljob \<Rightarrow> tlib" where
  "set_always alloc allowed l j =
     (case ltorrent j of
        None \<Rightarrow> l
      | Some t \<Rightarrow> l\<lparr>estConns := (estConns l)(tid t := conns_of alloc j), dataUpload := (dataUpload l)(tid t := may_upload allowed j)\<rparr>)"

lemma apply_one_cached:
  assumes "coherent l j" "apply_one alloc allowed (j, l) = (j', l')"
  shows "l' = set_always alloc allowed l j \<and> coherent l' j' \<and> ltorrent j' = ltorrent j \<and> appliedTo j' = (case ltorrent j of None \<Rightarrow> appliedTo j | Some t \<Rightarrow> Some (tid t))"
proof (cases "ltorrent j")
  case None
  then show ?thesis using assms by (auto simp: apply_one_def set_always_def)
next
  case (Some t)
  have "appliedTo j = Some (tid t) \<Longrightarrow> estConns l (tid t) = maxConns j \<and> dataUpload l (tid t) = uploadOK j"
    using assms(1) by (simp add: coherent_def)
  then show ?thesis
    using assms(2) Some unfolding apply_one_def Let_def conns_of_def [symmetric] may_upload_def [symmetric]
    by (cases l) (auto simp: set_always_def coherent_def fun_upd_idem split: if_splits)
qed

lemma coherent_set_always: "coherent l j' \<Longrightarrow> keeps_off j j' \<Longrightarrow> coherent (set_always alloc allowed l j) j'"
  by (auto simp: coherent_def keeps_off_def set_always_def split: option.splits)

lemma set_always_torrent: "ltorrent j = Some t \<Longrightarrow> estConns (set_always alloc allowed l j) (tid t) = conns_of alloc j
    \<and> dataUpload (set_always alloc allowed l j) (tid t) = may_upload allowed j"
  by (simp add: set_always_def)

lemma set_always_off:
  assumes "ltorrent j = Some t" "list_all (\<lambda>j'. keeps_off j' j) js"
  shows "estConns (foldl (set_always alloc allowed) l js) (tid t) = estConns l (tid t)
    \<and> dataUpload (foldl (set_always alloc allowed) l js) (tid t) = dataUpload l (tid t)"
  using assms by (induction js arbitrary: l) (auto simp: keeps_off_def set_always_def split: option.splits)

lemma apply_all_cached:
  assumes "list_all (coherent l) js" "separate js" "apply_all alloc allowed js l = (js', l')"
  shows "l' = foldl (set_always alloc allowed) l js \<and> list_all (coherent l') js'"
  using assms
proof (induction js arbitrary: l js' l')
  case (Cons j js)
  obtain j1 l1 where one: "apply_one alloc allowed (j, l) = (j1, l1)" by force
  obtain js1 l2 where rest: "apply_all alloc allowed js l1 = (js1, l2)" by force
  have j: "coherent l j" and off: "list_all (\<lambda>j'. keeps_off j j' \<and> keeps_off j' j) js" and sep: "separate js"
    using Cons.prems by auto
  note c = apply_one_cached [OF j one]
  have "list_all (coherent l1) js" using c Cons.prems(1) off by (auto simp: list_all_iff intro: coherent_set_always)
  with Cons.IH [OF _ sep rest] have r: "l2 = foldl (set_always alloc allowed) l1 js" "list_all (coherent l2) js1" by blast+
  have "coherent l2 j1"
  proof (cases "ltorrent j")
    case None
    have "estConns l2 t = estConns l1 t \<and> dataUpload l2 t = dataUpload l1 t" if "appliedTo j = Some t" for t
    proof -
      have "list_all (\<lambda>j'. \<forall>x. ltorrent j' = Some x \<longrightarrow> tid x \<noteq> t) js" using off that by (auto simp: list_all_iff keeps_off_def)
      then show ?thesis unfolding r(1) by (induction js arbitrary: l1) (auto simp: set_always_def split: option.splits)
    qed
    with c None show ?thesis by (auto simp: coherent_def)
  next
    case (Some t)
    have "list_all (\<lambda>j'. keeps_off j' j) js" using off by (auto simp: list_all_iff)
    from set_always_off [OF Some this] c Some show ?thesis unfolding r(1) by (auto simp: coherent_def)
  qed
  with c r one rest Cons.prems(3) show ?case by auto
qed simp

lemma set_always_each:
  assumes "separate js" "j \<in> set js" "ltorrent j = Some t"
  shows "estConns (foldl (set_always alloc allowed) l js) (tid t) = conns_of alloc j
    \<and> dataUpload (foldl (set_always alloc allowed) l js) (tid t) = may_upload allowed j"
  using assms
proof (induction js arbitrary: l)
  case (Cons i js)
  show ?case
  proof (cases "j = i \<and> j \<notin> set js")
    case True
    then have "list_all (\<lambda>j'. keeps_off j' j) js" using Cons.prems(1) by (auto simp: list_all_iff)
    from set_always_off [OF Cons.prems(3) this, of alloc allowed "set_always alloc allowed l j"] True Cons.prems(3)
    show ?thesis by (simp add: set_always_torrent)
  next
    case False
    then show ?thesis using Cons by auto
  qed
qed simp

section \<open>Properties\<close>

text \<open>C32. An override lasts until the next schedule boundary: with a fixed offset from UTC of whole minutes, after it is set
  and the limits are applied at any later times, it is in force, with the limits the schedule gives and
  its own on top, exactly as long as one and the same rule has matched at every instant since; after that
  the schedule alone decides, even if a boundary fell between two ticks and the old rule matches again.\<close>

theorem override_until_boundary:
  assumes "lastTick st \<le> t0" "sorted (t0 # ts)"
    and st': "st' = ticks (fixed_zone k) s ts (SetOverride (fixed_zone k) s p t0 st)" and now: "now = last (t0 # ts)"
  shows "if \<forall>t. t0 \<le> t \<and> t \<le> now \<longrightarrow> snd (Effective (fixed_zone k) s t) = snd (Effective (fixed_zone k) s t0)
    then map_option oset (loverride st') = Some p \<and> eff st' = Apply p (fst (Effective (fixed_zone k) s now))
    else loverride st' = None \<and> eff st' = fst (Effective (fixed_zone k) s now)"
proof -
  let ?z = "fixed_zone k" and ?ov = "\<lparr>oset = p, orule = snd (Effective (fixed_zone k) s t0), oat = t0\<rparr>"
  let ?st = "SetOverride ?z s p t0 st"
  have st: "loverride ?st = Some ?ov" "lastTick ?st = t0"
    using assms(1) by (auto simp: SetOverride_def tick_def expire_def Let_def Boundary_def split: prod.splits)
  have kept: "loverride st' = (if steady ?z s t0 now then Some ?ov else None)"
    using ticks_kept [OF st(1), of k s ts] st(2) assms(2) by (simp add: st' now)
  have "eff st' = (case loverride st' of Some v \<Rightarrow> Apply (oset v) (fst (Effective ?z s now)) | None \<Rightarrow> fst (Effective ?z s now))"
  proof (cases ts rule: rev_cases)
    case Nil
    then have n: "now = t0" using now by simp
    show ?thesis unfolding n st' using Nil by (simp add: ticks_def SetOverride_def)
  next
    case (snoc us u)
    then have n: "now = u" using now by simp
    show ?thesis unfolding n st' using snoc by (simp add: ticks_def)
  qed
  with kept show ?thesis by (fold steady_def) simp
qed

definition demo_lstate :: limitsState where
  "demo_lstate = \<lparr>eff = demo_base, lrule = -1, loverride = None, rates = [], lastTick = 0\<rparr>"

theorem override_until_boundary_witness:
  "eff (ticks (fixed_zone 0) \<lparr>Base = demo_base, Rules = []\<rparr> [7, 9]
      (SetOverride (fixed_zone 0) \<lparr>Base = demo_base, Rules = []\<rparr> \<lparr>pUpload = Some 5, pDownload = None, pMaxConns = None,
         pMaxConnsPerTorrent = None, pMaxActiveUploads = None\<rparr> 3 demo_lstate)) = demo_base\<lparr>Upload := 5\<rparr>"
  using override_until_boundary [of demo_lstate 3 "[7, 9]" _ 0 "\<lparr>Base = demo_base, Rules = []\<rparr>"
      "\<lparr>pUpload = Some 5, pDownload = None, pMaxConns = None, pMaxConnsPerTorrent = None, pMaxActiveUploads = None\<rparr>", OF _ _ refl refl]
  by (simp add: demo_lstate_def Effective_def Apply_def or_keep_def demo_base_def)

text \<open>\<open>max_active_uploads\<close>: a candidate may upload exactly when its file is small (below 64 MiB, whatever
  the limit), there is no limit, or fewer big candidates than the limit come before it, by demand and
  then by infohash.\<close>

theorem rank_uploads_exact:
  assumes "distinct (map uKey c)" "u \<in> set c"
  shows "uKey u \<in> set (rankUploads c n) \<longleftrightarrow> uSize u < 2 ^ 26 \<or> n \<le> 0
    \<or> card {v \<in> set c. uSize v \<ge> 2 ^ 26 \<and> (Demand u < Demand v \<or> Demand v = Demand u \<and> uKey v < uKey u)} < nat n"
  using rankUploads_iff [OF assms, of n] by (auto simp: big_def ahead_def smallUploadFile_def not_less)

definition demo_cands :: "uploadCandidate list" where
  "demo_cands = [\<lparr>uKey = ''a'', Demand = 1, uSize = 2 ^ 30\<rparr>, \<lparr>uKey = ''b'', Demand = 3, uSize = 2 ^ 30\<rparr>, \<lparr>uKey = ''c'', Demand = 0, uSize = 10\<rparr>]"

theorem rank_uploads_exact_witness:
  "''a'' \<notin> set (rankUploads demo_cands 1) \<and> ''c'' \<in> set (rankUploads demo_cands 1)"
proof -
  have d: "distinct (map uKey demo_cands)" by (simp add: demo_cands_def)
  from rank_uploads_exact [OF d, of "\<lparr>uKey = ''a'', Demand = 1, uSize = 2 ^ 30\<rparr>" 1]
    rank_uploads_exact [OF d, of "\<lparr>uKey = ''c'', Demand = 0, uSize = 10\<rparr>" 1]
  show ?thesis by (auto simp: demo_cands_def dest!: spec [of _ "\<lparr>uKey = ''b'', Demand = 3, uSize = 2 ^ 30\<rparr>"])
qed

text \<open>C33. Skipping redundant calls changes nothing: when every job's cache is true of the torrent it names
  and no two jobs share a torrent, then after the limits are applied every job's torrent has exactly the
  connection limit the budget gives it and may upload exactly when the ranking says so, also when a job
  has swapped its torrent since the last time; and the caches are true again.\<close>

theorem apply_limits_exact:
  assumes "list_all (coherent l) js" "separate js"
    and "applyLimits z s countLocal secs now st js l = (st', bw, js', l')"
  shows "list_all (coherent l') js' \<and> bw = (Upload (eff st'), Download (eff st'))
    \<and> (\<forall>j\<in>set js. \<forall>t. ltorrent j = Some t \<longrightarrow>
        estConns l' (tid t) = (case Allocate \<lparr>bMaxConns = MaxConns (eff st'), PerTorrent = MaxConnsPerTorrent (eff st'),
            CountLocal = countLocal\<rparr> (conn_cands js) (lih j) of Some c \<Rightarrow> c | None \<Rightarrow> 0)
      \<and> (dataUpload l' (tid t) \<longleftrightarrow> lst j \<noteq> StateSeeding \<or> lih j \<in> set (rankUploads (seeders js) (MaxActiveUploads (eff st')))))"
proof -
  let ?st = "tick z s now st"
  let ?alloc = "Allocate \<lparr>bMaxConns = MaxConns (eff ?st), PerTorrent = MaxConnsPerTorrent (eff ?st), CountLocal = countLocal\<rparr> (conn_cands js)"
  let ?allowed = "rankUploads (seeders js) (MaxActiveUploads (eff ?st))"
  have a: "apply_all ?alloc ?allowed js l = (js', l')" and e: "eff st' = eff ?st" and bw: "bw = (Upload (eff ?st), Download (eff ?st))"
    using assms(3) unfolding applyLimits_def Let_def by (auto simp del: tick_fields)
  from apply_all_cached [OF assms(1,2) a] have l: "l' = foldl (set_always ?alloc ?allowed) l js" "list_all (coherent l') js'" by blast+
  with set_always_each [OF assms(2)] show ?thesis unfolding e bw l(1) conns_of_def may_upload_def by blast
qed

definition demo_ljob :: ljob where
  "demo_ljob = \<lparr>lih = ''a'', lsize = 2 ^ 30, lst = StateSeeding, ltorrent = Some \<lparr>tid = 7, tlocal = 0, tActive = 2, tSeeders = 1, tWritten = 0, tRead = 0\<rparr>,
     appliedTo = Some 6, maxConns = 50, uploadOK = True\<rparr>"

definition demo_tlib :: tlib where
  "demo_tlib = \<lparr>estConns = (\<lambda>_. 50), dataUpload = (\<lambda>_. True)\<rparr>"

theorem apply_limits_exact_witness:
  "\<exists>st' bw js' l'. applyLimits (fixed_zone 0) \<lparr>Base = demo_base, Rules = []\<rparr> False of_int 5 demo_lstate [demo_ljob] demo_tlib = (st', bw, js', l')
     \<and> dataUpload l' 7 \<and> list_all (coherent l') js'"
proof -
  obtain st' bw js' l' where r: "applyLimits (fixed_zone 0) \<lparr>Base = demo_base, Rules = []\<rparr> False of_int 5 demo_lstate [demo_ljob] demo_tlib = (st', bw, js', l')"
    by (metis prod_cases4)
  have "list_all (coherent demo_tlib) [demo_ljob]" "separate [demo_ljob]"
    by (simp_all add: coherent_def demo_tlib_def demo_ljob_def)
  note res = apply_limits_exact [OF this r]
  have "''a'' \<in> set (rankUploads (seeders [demo_ljob]) n)" for n
    by (auto simp: rankUploads_def Let_def seeders_def demo_ljob_def smallUploadFile_def i64_def take_Cons')
  with res r show ?thesis by (auto simp: demo_ljob_def)
qed

end
