(* ===== verification/Throttle.thy ===== *)
theory Throttle
  imports Netip
begin

text \<open>
  \<open>internal/throttle/throttle.go\<close>: which peers are rate-limited, and the waiting that limits them.

  The token bucket itself (\<open>golang.org/x/time/rate\<close>) is not part of the repository: what it answers is a
  parameter, one observation for every turn of a loop, since its limit and burst may be changed at any
  moment by \<open>Buckets.Set\<close>. The same holds for the connection or body that is wrapped.
\<close>

section \<open>Setting the limits\<close>

text \<open>A limiter: no limit is \<open>rate.Inf\<close>.\<close>

record Limiter =
  Limit :: "int option"
  Burst :: int

definition NewBuckets :: "Limiter \<times> Limiter" where
  "NewBuckets = (\<lparr>Limit = None, Burst = 0\<rparr>, \<lparr>Limit = None, Burst = 0\<rparr>)"

definition set_limiter :: "Limiter \<Rightarrow> int \<Rightarrow> Limiter" where
  "set_limiter l bps =
     (if bps \<le> 0 then l\<lparr>Limit := None\<rparr>
      else let b = go_div bps 4;
               b = (if b < 2 ^ 16 then 2 ^ 16 else b);
               b = (if b > 2 ^ 22 then 2 ^ 22 else b)
           in l\<lparr>Burst := b, Limit := Some bps\<rparr>)"

definition Set_buckets :: "Limiter \<times> Limiter \<Rightarrow> int \<Rightarrow> int \<Rightarrow> Limiter \<times> Limiter" where
  "Set_buckets b up down = (set_limiter (fst b) up, set_limiter (snd b) down)"

section \<open>Waiting\<close>

text \<open>What one turn of a waiting loop sees: the limit and the burst, and what \<open>WaitN\<close> does: it grants the
  bytes, fails because the context is done, or fails because the burst has shrunk below the request.\<close>

datatype wait_outcome = Granted | CtxDone | BurstShrank

record turn =
  seen :: Limiter
  outcome :: wait_outcome

datatype wait_result = WaitOk | WaitErr | StillWaiting

definition chunk :: "int \<Rightarrow> int \<Rightarrow> int" where
  "chunk n b = (let k = min n b in if k \<le> 0 then n else k)"

text \<open>The second component lists the granted amounts. \<open>StillWaiting\<close>: the turns given are used up.\<close>

fun waitN :: "turn list \<Rightarrow> int \<Rightarrow> wait_result \<times> int list" where
  "waitN [] n = (if n \<le> 0 then WaitOk else StillWaiting, [])"
| "waitN (t # ts) n =
     (if n \<le> 0 then (WaitOk, [])
      else if Limit (seen t) = None then (WaitOk, [])
      else let k = chunk n (Burst (seen t))
           in case outcome t of
                Granted \<Rightarrow> (case waitN ts (n - k) of (r, gs) \<Rightarrow> (r, k # gs))
              | CtxDone \<Rightarrow> (WaitErr, [])
              | BurstShrank \<Rightarrow> waitN ts n)"

section \<open>Wrapped connections and bodies\<close>

text \<open>One turn of the loop of \<open>conn.Write\<close>: the limiter it sees, whether \<open>waitN\<close> succeeds, and what the
  connection's \<open>Write\<close> answers for the chunk: the number of bytes taken and whether there was an error.\<close>

record wturn =
  wseen :: Limiter
  waited :: bool
  taken :: int
  werr :: bool

datatype write_result = Written | WriteClosed | WriteErr | StillWriting

definition write_chunk :: "Limiter \<Rightarrow> bytes \<Rightarrow> nat" where
  "write_chunk l p = (if Limit l \<noteq> None \<and> 0 < Burst l \<and> Burst l < int (length p) then nat (Burst l) else length p)"

text \<open>The result, the number of bytes reported as written, and the chunks offered to the connection, each
  with the number of bytes it took.\<close>

fun conn_Write :: "wturn list \<Rightarrow> bytes \<Rightarrow> int \<Rightarrow> write_result \<times> int \<times> (bytes \<times> int) list" where
  "conn_Write [] p written = (if p = '''' then Written else StillWriting, written, [])"
| "conn_Write (t # ts) p written =
     (if p = '''' then (Written, written, [])
      else let k = write_chunk (wseen t) p
           in if \<not> waited t then (WriteClosed, written, [])
              else if werr t then (WriteErr, written + taken t, [(take k p, taken t)])
              else case conn_Write ts (drop k p) (written + taken t) of
                (r, n, sent) \<Rightarrow> (r, n, (take k p, taken t) # sent))"

text \<open>\<open>conn.Read\<close> and \<open>throttledBody.Read\<close>: what the wrapped reader answered, an error of the wait only
  where it had none itself. A body read is cut to the burst first.\<close>

definition conn_Read :: "int \<times> 'e option \<Rightarrow> (int \<Rightarrow> bool) \<Rightarrow> 'e \<Rightarrow> int \<times> 'e option" where
  "conn_Read r wait_ok closedErr =
     (case r of (n, err) \<Rightarrow> if n > 0 \<and> \<not> wait_ok n \<and> err = None then (n, Some closedErr) else (n, err))"

definition body_Read :: "Limiter \<Rightarrow> (nat \<Rightarrow> int \<times> 'e option) \<Rightarrow> (int \<Rightarrow> 'e option) \<Rightarrow> nat \<Rightarrow> int \<times> 'e option" where
  "body_Read l rd wait len =
     (if Limit l = None then rd len
      else let len = (if 0 < Burst l \<and> Burst l < int len then nat (Burst l) else len)
           in case rd len of
                (n, err) \<Rightarrow> if n > 0 \<and> wait n \<noteq> None \<and> err = None then (n, wait n) else (n, err))"

section \<open>Local peers\<close>

text \<open>The parsers of prefixes, addresses and addresses with ports are parameters.\<close>

fun NewLocalMatcher :: "(string \<Rightarrow> Prefix option) \<Rightarrow> string list \<Rightarrow> string + Prefix list" where
  "NewLocalMatcher pp [] = Inr []"
| "NewLocalMatcher pp (s # ss) =
     (case pp s of
        None \<Rightarrow> Inl s
      | Some p \<Rightarrow> (case NewLocalMatcher pp ss of Inl e \<Rightarrow> Inl e | Inr ps \<Rightarrow> Inr (Masked p # ps)))"

text \<open>A missing matcher matches nothing.\<close>

definition isLocalAddr :: "Prefix list option \<Rightarrow> Addr \<Rightarrow> bool" where
  "isLocalAddr m a =
     (case m of None \<Rightarrow> False | Some ps \<Rightarrow> list_ex (\<lambda>p. Contains_addr p (WithoutZone (Unmap a))) ps)"

datatype NetAddr = TCPAddr Addr | UDPAddr Addr | NilAddr | OtherAddr string

definition IsLocalString :: "(string \<Rightarrow> Addr option) \<Rightarrow> (string \<Rightarrow> Addr option) \<Rightarrow> Prefix list option \<Rightarrow> string \<Rightarrow> bool" where
  "IsLocalString parse_addr_port parse_addr m s =
     (case parse_addr_port s of
        Some a \<Rightarrow> isLocalAddr m a
      | None \<Rightarrow> (case parse_addr s of Some a \<Rightarrow> isLocalAddr m a | None \<Rightarrow> False))"

definition IsLocal :: "(string \<Rightarrow> Addr option) \<Rightarrow> (string \<Rightarrow> Addr option) \<Rightarrow> Prefix list option \<Rightarrow> NetAddr \<Rightarrow> bool" where
  "IsLocal pap pa m addr =
     (case addr of TCPAddr a \<Rightarrow> isLocalAddr m a | UDPAddr a \<Rightarrow> isLocalAddr m a | NilAddr \<Rightarrow> False | OtherAddr s \<Rightarrow> IsLocalString pap pa m s)"

record Policy =
  plocal :: "Prefix list option"
  ThrottleLocal :: bool

definition Throttled :: "(string \<Rightarrow> Addr option) \<Rightarrow> (string \<Rightarrow> Addr option) \<Rightarrow> Policy \<Rightarrow> NetAddr \<Rightarrow> bool" where
  "Throttled pap pa p addr \<longleftrightarrow> ThrottleLocal p \<or> \<not> IsLocal pap pa (plocal p) addr"

text \<open>\<open>WrapConn\<close>: a connection is wrapped (\<open>Right\<close>) exactly when its peer is throttled.\<close>

definition WrapConn :: "(string \<Rightarrow> Addr option) \<Rightarrow> (string \<Rightarrow> Addr option) \<Rightarrow> Policy \<Rightarrow> 'c \<times> NetAddr \<Rightarrow> 'c + 'c" where
  "WrapConn pap pa p c = (if Throttled pap pa p (snd c) then Inr (fst c) else Inl (fst c))"

text \<open>The listener and the dialer wrap what the network gives them; \<open>Transport\<close> wraps the body of a
  response, if there is one, in a reader that waits for the download limit.\<close>

definition Accept :: "(string \<Rightarrow> Addr option) \<Rightarrow> (string \<Rightarrow> Addr option) \<Rightarrow> Policy \<Rightarrow> 'e + 'c \<times> NetAddr \<Rightarrow> 'e + ('c + 'c)" where
  "Accept pap pa p r = (case r of Inl e \<Rightarrow> Inl e | Inr c \<Rightarrow> Inr (WrapConn pap pa p c))"

definition Dial :: "(string \<Rightarrow> Addr option) \<Rightarrow> (string \<Rightarrow> Addr option) \<Rightarrow> Policy \<Rightarrow> (string \<Rightarrow> 'e + 'c \<times> NetAddr) \<Rightarrow> string \<Rightarrow> 'e + ('c + 'c)" where
  "Dial pap pa p dial addr = (case dial addr of Inl e \<Rightarrow> Inl e | Inr c \<Rightarrow> Inr (WrapConn pap pa p c))"

datatype 'b body = PlainBody 'b | ThrottledBody 'b

definition RoundTrip :: "('q \<Rightarrow> 'e + 'r \<times> 'b option) \<Rightarrow> 'q \<Rightarrow> 'e + 'r \<times> 'b body option" where
  "RoundTrip base req =
     (case base req of
        Inl e \<Rightarrow> Inl e
      | Inr (resp, body) \<Rightarrow> Inr (resp, map_option ThrottledBody body))"

section \<open>Lemmas: waiting\<close>

lemma chunk_bounds: "0 < n \<Longrightarrow> 0 < chunk n b \<and> chunk n b \<le> n \<and> (0 < b \<longrightarrow> chunk n b \<le> b)"
  by (auto simp: chunk_def Let_def)

text \<open>A limiter that stays limited: as \<open>set_limiter\<close> leaves it, with at least \<open>b\<close> bytes of burst.\<close>

definition limited :: "int \<Rightarrow> turn \<Rightarrow> bool" where
  "limited b t \<longleftrightarrow> Limit (seen t) \<noteq> None \<and> b \<le> Burst (seen t)"

lemma waitN_grants:
  assumes "list_all (limited 1) ts" "waitN ts n = (r, gs)" "0 \<le> n"
  shows "(\<forall>g\<in>set gs. 0 < g) \<and> sum_list gs \<le> n \<and> (r = WaitOk \<longleftrightarrow> sum_list gs = n)"
  using assms
proof (induction ts arbitrary: n r gs)
  case Nil
  then show ?case by (auto split: if_splits)
next
  case (Cons t ts)
  show ?case
  proof (cases "n \<le> 0")
    case True
    with Cons.prems show ?thesis by auto
  next
    case False
    let ?k = "chunk n (Burst (seen t))"
    have lim: "Limit (seen t) \<noteq> None" "list_all (limited 1) ts" using Cons.prems(1) by (auto simp: limited_def)
    have k: "0 < ?k" "?k \<le> n" using chunk_bounds [of n "Burst (seen t)"] False by auto
    obtain r' gs' where w: "waitN ts (n - ?k) = (r', gs')" by force
    have IH: "(\<forall>g\<in>set gs'. 0 < g) \<and> ?k + sum_list gs' \<le> n \<and> (r' = WaitOk \<longleftrightarrow> ?k + sum_list gs' = n)"
      using Cons.IH [OF lim(2) w] k by auto
    show ?thesis
    proof (cases "outcome t")
      case Granted
      then show ?thesis using IH Cons.prems(2) False lim(1) k w by (auto simp: Let_def)
    next
      case CtxDone
      then show ?thesis using Cons.prems(2) False lim(1) by (auto simp: Let_def)
    next
      case BurstShrank
      then show ?thesis using Cons.IH [OF lim(2), of n r gs] Cons.prems(2,3) False lim(1) by (auto simp: Let_def)
    qed
  qed
qed

lemma waitN_returns:
  assumes "list_all (\<lambda>t. limited b t \<and> outcome t = Granted) ts" "0 < b" "n \<le> b * int (length ts)"
  shows "\<exists>gs. waitN ts n = (WaitOk, gs)"
  using assms
proof (induction ts arbitrary: n)
  case Nil
  then show ?case by simp
next
  case (Cons t ts)
  show ?case
  proof (cases "n \<le> 0")
    case True
    then show ?thesis by simp
  next
    case False
    have "b \<le> Burst (seen t)" "Limit (seen t) \<noteq> None" "outcome t = Granted" using Cons.prems(1) by (auto simp: limited_def)
    moreover from this have "n - chunk n (Burst (seen t)) \<le> b * int (length ts)"
      using Cons.prems(2,3) False by (auto simp: chunk_def Let_def min_def algebra_simps)
    then obtain gs where "waitN ts (n - chunk n (Burst (seen t))) = (WaitOk, gs)" using Cons.IH Cons.prems(1,2) by auto
    ultimately show ?thesis using False by (simp add: Let_def)
  qed
qed

section \<open>Lemmas: writing\<close>

text \<open>The contract of \<open>io.Writer\<close>: what is taken is between 0 and the chunk, and all of it unless there is an
  error.\<close>

fun honest_writer :: "wturn list \<Rightarrow> bytes \<Rightarrow> bool" where
  "honest_writer [] p = True"
| "honest_writer (t # ts) p =
     (let k = write_chunk (wseen t) p
      in 0 \<le> taken t \<and> taken t \<le> int k \<and> (werr t \<or> taken t = int k) \<and> honest_writer ts (drop k p))"

definition delivered :: "(bytes \<times> int) list \<Rightarrow> bytes" where
  "delivered sent = concat (map (\<lambda>(c, n). take (nat n) c) sent)"

lemma write_chunk_le: "write_chunk l p \<le> length p"
  by (auto simp: write_chunk_def)

lemma conn_Write_delivers:
  assumes "honest_writer ts p" "conn_Write ts p w = (r, n, sent)"
  shows "w \<le> n \<and> delivered sent = take (nat (n - w)) p \<and> n - w \<le> int (length p) \<and> (r = Written \<longrightarrow> n - w = int (length p))"
  using assms
proof (induction ts arbitrary: p w r n sent)
  case Nil
  then show ?case by (auto simp: delivered_def split: if_splits)
next
  case (Cons t ts)
  let ?k = "write_chunk (wseen t) p"
  have h: "0 \<le> taken t" "taken t \<le> int ?k" "werr t \<or> taken t = int ?k" "honest_writer ts (drop ?k p)"
    using Cons.prems(1) by (auto simp: Let_def)
  note kl = write_chunk_le [of "wseen t" p]
  show ?case
  proof (cases "p \<noteq> '''' \<and> waited t \<and> \<not> werr t")
    case False
    then show ?thesis using Cons.prems(2) h kl
      by (auto simp: delivered_def Let_def min_def split: if_splits)
  next
    case True
    obtain r' n' s' where rest: "conn_Write ts (drop ?k p) (w + taken t) = (r', n', s')" by (metis prod_cases3)
    have eq: "r = r'" "n = n'" "sent = (take ?k p, taken t) # s'" using Cons.prems(2) True rest by (auto simp: Let_def)
    note IH = Cons.IH [OF h(4) rest]
    have "nat (taken t) = ?k" using h True by simp
    moreover have "nat (n' - w) = ?k + nat (n' - (w + taken t))" using IH h True by (simp add: nat_eq_iff of_nat_diff)
    ultimately have "delivered sent = take (nat (n' - w)) p" using IH by (simp add: delivered_def eq(3) take_add)
    then show ?thesis using IH eq h True kl by auto
  qed
qed

section \<open>Lemmas: local peers\<close>

lemma NewLocalMatcher_Inr:
  "NewLocalMatcher pp ss = Inr ps \<Longrightarrow> (\<forall>s\<in>set ss. pp s \<noteq> None) \<and> ps = map (\<lambda>s. Masked (the (pp s))) ss"
proof (induction ss arbitrary: ps)
  case (Cons s ss)
  obtain p qs where "pp s = Some p" "NewLocalMatcher pp ss = Inr qs" "ps = Masked p # qs"
    using Cons.prems by (auto split: option.splits sum.splits)
  with Cons.IH [of qs] show ?case by auto
qed simp

definition in_cidr :: "Prefix \<Rightarrow> Addr \<Rightarrow> bool" where
  "in_cidr p a =
     (case (pAddr p, a) of
        (V4 q, V4 w) \<Rightarrow> drop_bit (32 - pBits p) q = drop_bit (32 - pBits p) w
      | (V6 q _, V6 w _) \<Rightarrow> drop_bit (128 - pBits p) q = drop_bit (128 - pBits p) w
      | _ \<Rightarrow> False)"

lemma Contains_in_cidr: "Contains_addr (Masked p) (WithoutZone a) \<longleftrightarrow> in_cidr p a"
  by (auto simp: Contains_Masked in_cidr_def WithoutZone_def split: Addr.splits)


lemma isLocalAddr_matcher:
  assumes "NewLocalMatcher pp cidrs = Inr ps"
  shows "isLocalAddr (Some ps) a \<longleftrightarrow> (\<exists>s\<in>set cidrs. \<exists>p. pp s = Some p \<and> in_cidr p (Unmap a))"
proof -
  have ps: "ps = map (\<lambda>s. Masked (the (pp s))) cidrs" and ok: "\<forall>s\<in>set cidrs. pp s \<noteq> None"
    using NewLocalMatcher_Inr [OF assms] by blast+
  have "isLocalAddr (Some ps) a \<longleftrightarrow> (\<exists>s\<in>set cidrs. in_cidr (the (pp s)) (Unmap a))"
    by (simp add: isLocalAddr_def ps list_ex_iff Contains_in_cidr)
  with ok show ?thesis by (metis option.exhaust_sel option.sel)
qed

section \<open>Properties\<close>

text \<open>Waiting accounts for every byte and ends: while a limit is set, \<open>waitN\<close> returns without an error
  exactly when the amounts it was granted, all positive, add up to the bytes asked for; and as long as the
  limiter grants requests within its burst of at least \<open>b\<close> bytes, \<open>n\<close> bytes take at most \<open>n / b\<close> turns,
  rounded up, whatever happens to limit and burst in between.\<close>

theorem wait_n_accounts_and_ends:
  assumes "0 \<le> n" "0 < b"
  shows "(list_all (limited 1) ts \<longrightarrow> (\<forall>r gs. waitN ts n = (r, gs) \<longrightarrow>
        (\<forall>g\<in>set gs. 0 < g) \<and> sum_list gs \<le> n \<and> (r = WaitOk \<longleftrightarrow> sum_list gs = n)))
    \<and> (list_all (\<lambda>t. limited b t \<and> outcome t = Granted) ts \<and> n \<le> b * int (length ts) \<longrightarrow> (\<exists>gs. waitN ts n = (WaitOk, gs)))"
  using waitN_grants [of ts n] waitN_returns [of b ts n] assms by blast

theorem wait_n_accounts_and_ends_witness:
  "\<exists>gs. waitN [\<lparr>seen = \<lparr>Limit = Some 9, Burst = 4\<rparr>, outcome = Granted\<rparr>, \<lparr>seen = \<lparr>Limit = Some 9, Burst = 6\<rparr>, outcome = Granted\<rparr>] 7 = (WaitOk, gs)
     \<and> sum_list gs = 7"
  using wait_n_accounts_and_ends [of 7 4 "[\<lparr>seen = \<lparr>Limit = Some 9, Burst = 4\<rparr>, outcome = Granted\<rparr>, \<lparr>seen = \<lparr>Limit = Some 9, Burst = 6\<rparr>, outcome = Granted\<rparr>]"]
  by (auto simp: limited_def)

text \<open>A throttled connection delivers the data in order and reports it truthfully: over a writer that
  keeps the contract of \<open>io.Writer\<close>, what the chunks put on the wire is exactly the reported number of
  bytes from the start of the data, and all of it when no error is reported.\<close>

theorem throttled_write_delivers:
  assumes "honest_writer ts p" "conn_Write ts p 0 = (r, n, sent)"
  shows "0 \<le> n \<and> delivered sent = take (nat n) p \<and> n \<le> int (length p) \<and> (r = Written \<longrightarrow> delivered sent = p)"
  using conn_Write_delivers [OF assms] by auto

definition demo_wturn :: wturn where
  "demo_wturn = \<lparr>wseen = \<lparr>Limit = Some 9, Burst = 2\<rparr>, waited = True, taken = 2, werr = False\<rparr>"

theorem throttled_write_delivers_witness:
  "\<exists>n sent. conn_Write [demo_wturn, demo_wturn\<lparr>taken := 1, werr := True\<rparr>] ''abcde'' 0 = (WriteErr, n, sent) \<and> delivered sent = ''abc''"
proof -
  have "honest_writer [demo_wturn, demo_wturn\<lparr>taken := 1, werr := True\<rparr>] ''abcde''"
    "conn_Write [demo_wturn, demo_wturn\<lparr>taken := 1, werr := True\<rparr>] ''abcde'' 0 = (WriteErr, 3, [(''ab'', 2), (''cd'', 1)])"
    by code_simp+
  from throttled_write_delivers [OF this] this(2) show ?thesis by simp
qed

text \<open>A peer is local exactly when its address, taken as IPv4 where it is an IPv4-mapped IPv6 address
  and without its zone, lies in one of the configured networks: it has the network's first bits. A peer
  that is not local is always throttled.\<close>

theorem local_peers_exact:
  assumes "NewLocalMatcher pp cidrs = Inr ps"
  shows "(isLocalAddr (Some ps) a \<longleftrightarrow> (\<exists>s\<in>set cidrs. \<exists>p. pp s = Some p \<and> in_cidr p (Unmap a)))
    \<and> (\<not> isLocalAddr (Some ps) a \<longrightarrow> Throttled pap pa \<lparr>plocal = Some ps, ThrottleLocal = thr\<rparr> (TCPAddr a))"
  using isLocalAddr_matcher [OF assms] by (auto simp: Throttled_def IsLocal_def)

definition demo_pp :: "string \<Rightarrow> Prefix option" where
  "demo_pp s = (if s = ''10.0.0.0/8'' then Some \<lparr>pAddr = V4 0x0A000000, pBits = 8\<rparr> else None)"

theorem local_peers_exact_witness:
  "isLocalAddr (Some [\<lparr>pAddr = V4 0x0A000000, pBits = 8\<rparr>]) (V6 0xFFFF0A010203 ''eth0'')"
proof -
  have m: "NewLocalMatcher demo_pp [''10.0.0.0/8''] = Inr [\<lparr>pAddr = V4 0x0A000000, pBits = 8\<rparr>]"
    by code_simp
  have "in_cidr \<lparr>pAddr = V4 0x0A000000, pBits = 8\<rparr> (Unmap (V6 0xFFFF0A010203 ''eth0''))"
    by (simp add: in_cidr_def Unmap_def is4in6_def drop_bit_eq_div)
  with local_peers_exact [OF m] show ?thesis by (auto simp: demo_pp_def)
qed

end
