(* ===== verification/Config.thy ===== *)
theory Config
  imports Schedule Units Netip
begin

text \<open>
  \<open>internal/config/config.go\<close>: the defaults, the validation of a configuration and the compilation of its limits
  into a schedule. The YAML decoder and the parsers of URLs, prefixes and addresses are parameters.
\<close>

section \<open>Data\<close>

record RawLimits =
  rawUpload :: "string option"
  rawDownload :: "string option"
  rawMaxConns :: "int option"
  rawMaxConnsPerTorrent :: "int option"
  rawMaxHalfOpen :: "int option"
  rawMaxActiveUploads :: "int option"

record RawRule =
  ruleDays :: "string list"
  ruleFrom :: string
  ruleTo :: string
  ruleLimits :: RawLimits

record Config =
  cfgName :: string
  DataDir :: string
  StateDir :: string
  CatalogURL :: string
  Refresh :: int
  PubKey :: string
  cfgWant :: "string list"
  SeedOnlyExisting :: bool
  cfgPrune :: bool
  Adopt :: "string list"
  ViiworkConfigs :: "string list"
  ListenPort :: int
  UPnP :: bool
  DHT :: bool
  PEX :: bool
  CIDRs :: "string list"
  LocalThrottle :: bool
  CountInMaxConns :: bool
  LSD :: bool
  Tailscale :: bool
  Peers :: "string list"
  BaseLimits :: RawLimits
  ScheduleRules :: "RawRule list"
  Listen :: string
  CompiledSchedule :: Sched

definition no_limits :: RawLimits where
  "no_limits = \<lparr>rawUpload = None, rawDownload = None, rawMaxConns = None, rawMaxConnsPerTorrent = None,
     rawMaxHalfOpen = None, rawMaxActiveUploads = None\<rparr>"

definition DefaultLocalCIDRs :: "string list" where
  "DefaultLocalCIDRs = [''10.0.0.0/8'', ''172.16.0.0/12'', ''192.168.0.0/16'', ''127.0.0.0/8'', ''100.64.0.0/10'',
     ''fd7a:115c:a1e0::/48'', ''::1/128'', ''fe80::/10'', ''fc00::/7'']"

definition defaultLimits :: Limits where
  "defaultLimits = \<lparr>Upload = 0, Download = 0, MaxConns = 200, MaxConnsPerTorrent = 50, MaxHalfOpen = 25, MaxActiveUploads = 4\<rparr>"

definition Defaults :: Config where
  "Defaults = \<lparr>cfgName = '''', DataDir = ''/models'', StateDir = ''/var/lib/viiwork-parrot'',
     CatalogURL = ''https://parrot.lnx.fi/catalog.json'', Refresh = 60 * minute, PubKey = '''',
     cfgWant = [], SeedOnlyExisting = False, cfgPrune = False, Adopt = [], ViiworkConfigs = [],
     ListenPort = 42069, UPnP = True, DHT = True, PEX = True,
     CIDRs = DefaultLocalCIDRs, LocalThrottle = False, CountInMaxConns = False, LSD = True, Tailscale = True, Peers = [],
     BaseLimits = no_limits, ScheduleRules = [], Listen = ''127.0.0.1:7950'',
     CompiledSchedule = \<lparr>Base = \<lparr>Upload = 0, Download = 0, MaxConns = 0, MaxConnsPerTorrent = 0, MaxHalfOpen = 0, MaxActiveUploads = 0\<rparr>, Rules = []\<rparr>\<rparr>"

section \<open>Limits and schedule\<close>

datatype config_error =
    Required string | BadURL | NotPositive string | PortOutOfRange | BadCIDR nat | BadListen | NotLoopback
  | BadRate string rate_error | NegativeLimit string | HalfOpenInRule nat | BadDays nat | BadClock nat | BadYaml

record cfgenv =
  cbeyond :: int
  curl :: "string \<Rightarrow> (string \<times> string) option"     \<comment> \<open>scheme and host\<close>
  cprefix :: "string \<Rightarrow> Prefix option"
  caddr :: "string \<Rightarrow> Addr option"

definition rate :: "cfgenv \<Rightarrow> string \<Rightarrow> string option \<Rightarrow> config_error + int option" where
  "rate C k s =
     (case s of
        None \<Rightarrow> Inr None
      | Some x \<Rightarrow> (case ParseRate (cbeyond C) x of Inl e \<Rightarrow> Inl (BadRate k e) | Inr v \<Rightarrow> Inr (Some v)))"

definition negative :: "int option \<Rightarrow> bool" where
  "negative v \<longleftrightarrow> (case v of Some x \<Rightarrow> x < 0 | None \<Rightarrow> False)"

text \<open>Which of several negative numbers is reported depends on the order of a map; the error does not say.\<close>

definition toPartial :: "cfgenv \<Rightarrow> string \<Rightarrow> RawLimits \<Rightarrow> config_error + Partial" where
  "toPartial C k r =
     (case rate C k (rawUpload r) of
        Inl e \<Rightarrow> Inl e
      | Inr u \<Rightarrow>
          (case rate C k (rawDownload r) of
             Inl e \<Rightarrow> Inl e
           | Inr d \<Rightarrow>
               if negative (rawMaxConns r) \<or> negative (rawMaxConnsPerTorrent r) \<or> negative (rawMaxActiveUploads r) then Inl (NegativeLimit k)
               else Inr \<lparr>pUpload = u, pDownload = d, pMaxConns = rawMaxConns r,
                 pMaxConnsPerTorrent = rawMaxConnsPerTorrent r, pMaxActiveUploads = rawMaxActiveUploads r\<rparr>))"

definition clock :: "nat \<Rightarrow> string \<Rightarrow> config_error + int" where
  "clock i s = (if s = '''' then Inr 0 else case ParseClock s of Inl e \<Rightarrow> Inl (BadClock i) | Inr m \<Rightarrow> Inr m)"

definition compile_rule :: "cfgenv \<Rightarrow> nat \<Rightarrow> RawRule \<Rightarrow> config_error + Rule" where
  "compile_rule C i r =
     (if rawMaxHalfOpen (ruleLimits r) \<noteq> None then Inl (HalfOpenInRule i)
      else case ParseDays (ruleDays r) of
        Inl e \<Rightarrow> Inl (BadDays i)
      | Inr days \<Rightarrow>
          (case clock i (ruleFrom r) of
             Inl e \<Rightarrow> Inl e
           | Inr from \<Rightarrow>
               (case clock i (ruleTo r) of
                  Inl e \<Rightarrow> Inl e
                | Inr to \<Rightarrow>
                    (case toPartial C ''limits.schedule'' (ruleLimits r) of
                       Inl e \<Rightarrow> Inl e
                     | Inr p \<Rightarrow> Inr \<lparr>Days = days, From = from, To = to, RSet = p\<rparr>))))"

fun compile_rules :: "cfgenv \<Rightarrow> nat \<Rightarrow> RawRule list \<Rightarrow> config_error + Rule list" where
  "compile_rules C i [] = Inr []"
| "compile_rules C i (r # rs) =
     (case compile_rule C i r of
        Inl e \<Rightarrow> Inl e
      | Inr x \<Rightarrow> (case compile_rules C (Suc i) rs of Inl e \<Rightarrow> Inl e | Inr xs \<Rightarrow> Inr (x # xs)))"

definition compileSchedule :: "cfgenv \<Rightarrow> Config \<Rightarrow> config_error + Config" where
  "compileSchedule C c =
     (case toPartial C ''limits'' (BaseLimits c) of
        Inl e \<Rightarrow> Inl e
      | Inr p \<Rightarrow>
          if negative (rawMaxHalfOpen (BaseLimits c)) then Inl (NegativeLimit ''limits.max_half_open'')
          else let b = Apply p defaultLimits;
                   b = (case rawMaxHalfOpen (BaseLimits c) of Some v \<Rightarrow> b\<lparr>MaxHalfOpen := v\<rparr> | None \<Rightarrow> b)
               in case compile_rules C 0 (ScheduleRules c) of
                    Inl e \<Rightarrow> Inl e
                  | Inr rs \<Rightarrow> Inr (c\<lparr>CompiledSchedule := \<lparr>Base = b, Rules = rs\<rparr>\<rparr>))"

section \<open>Validation\<close>

fun bad_cidr :: "cfgenv \<Rightarrow> nat \<Rightarrow> string list \<Rightarrow> nat option" where
  "bad_cidr C i [] = None"
| "bad_cidr C i (s # ss) = (if cprefix C s = None then Some i else bad_cidr C (Suc i) ss)"

definition http_url :: "cfgenv \<Rightarrow> string \<Rightarrow> bool" where
  "http_url C u = (case curl C u of None \<Rightarrow> False | Some (sch, h) \<Rightarrow> (sch = ''https'' \<or> sch = ''http'') \<and> h \<noteq> '''')"

definition validate :: "cfgenv \<Rightarrow> Config \<Rightarrow> config_error + Config" where
  "validate C c =
     (if DataDir c = '''' then Inl (Required ''node.data_dir'')
      else if StateDir c = '''' then Inl (Required ''node.state_dir'')
      else if \<not> http_url C (CatalogURL c) then Inl BadURL
      else if Refresh c \<le> 0 then Inl (NotPositive ''catalog.refresh'')
      else if ListenPort c < 0 \<or> ListenPort c > 65535 then Inl PortOutOfRange
      else case bad_cidr C 0 (CIDRs c) of
        Some i \<Rightarrow> Inl (BadCIDR i)
      | None \<Rightarrow>
          (case SplitHost (Listen c) of
             None \<Rightarrow> Inl BadListen
           | Some h \<Rightarrow>
               if h \<noteq> ''localhost'' \<and> (case caddr C h of Some ip \<Rightarrow> \<not> IsLoopback ip | None \<Rightarrow> True) then Inl NotLoopback
               else compileSchedule C c))"

datatype yaml_result = YamlError | YamlEOF | Yaml Config

text \<open>\<open>Parse\<close>: the document is decoded into the defaults; an empty one leaves them as they are.\<close>

definition ParseConfig :: "cfgenv \<Rightarrow> (bytes \<Rightarrow> Config \<Rightarrow> yaml_result) \<Rightarrow> bytes \<Rightarrow> config_error + Config" where
  "ParseConfig C dec data =
     (case dec data Defaults of
        YamlError \<Rightarrow> Inl BadYaml
      | YamlEOF \<Rightarrow> validate C Defaults
      | Yaml c \<Rightarrow> validate C c)"

section \<open>What an accepted configuration is\<close>

text \<open>A rate is not negative, except where the number did not fit in 64 bits.\<close>

definition ok_rate :: "cfgenv \<Rightarrow> int \<Rightarrow> bool" where
  "ok_rate C v \<longleftrightarrow> 0 \<le> v \<or> v = cbeyond C"

definition ok_limits :: "cfgenv \<Rightarrow> Limits \<Rightarrow> bool" where
  "ok_limits C l \<longleftrightarrow> ok_rate C (Upload l) \<and> ok_rate C (Download l) \<and> 0 \<le> MaxConns l \<and> 0 \<le> MaxConnsPerTorrent l
     \<and> 0 \<le> MaxHalfOpen l \<and> 0 \<le> MaxActiveUploads l"

definition ok_opt :: "(int \<Rightarrow> bool) \<Rightarrow> int option \<Rightarrow> bool" where
  "ok_opt P v \<longleftrightarrow> (case v of Some x \<Rightarrow> P x | None \<Rightarrow> True)"

definition ok_partial :: "cfgenv \<Rightarrow> Partial \<Rightarrow> bool" where
  "ok_partial C p \<longleftrightarrow> ok_opt (ok_rate C) (pUpload p) \<and> ok_opt (ok_rate C) (pDownload p)
     \<and> ok_opt (\<lambda>x. 0 \<le> x) (pMaxConns p) \<and> ok_opt (\<lambda>x. 0 \<le> x) (pMaxConnsPerTorrent p) \<and> ok_opt (\<lambda>x. 0 \<le> x) (pMaxActiveUploads p)"

definition ok_rule :: "cfgenv \<Rightarrow> Rule \<Rightarrow> bool" where
  "ok_rule C r \<longleftrightarrow> length (Days r) = 7 \<and> 0 \<le> From r \<and> From r \<le> 1440 \<and> 0 \<le> To r \<and> To r \<le> 1440 \<and> ok_partial C (RSet r)"

section \<open>Lemmas\<close>

lemma ParseRate_ok:
  assumes "ParseRate (cbeyond C) s = Inr v"
  shows "ok_rate C v"
proof -
  have "v = 0 \<or> (\<exists>x m. 0 \<le> x \<and> 0 < (m :: int) \<and> v = round_int64 (cbeyond C) (float64 (x * of_int m)))"
    using assms by (auto simp: ParseRate_def Let_def not_less dest!: map_of_SomeD rateUnits_units split: if_splits option.splits)
  moreover have "ok_rate C (round_int64 (cbeyond C) (float64 (x * of_int m)))" if "0 \<le> x" "0 < m" for x and m :: int
    using float64_nonneg [of "x * of_int m"] that by (auto simp: ok_rate_def round_int64_def Let_def)
  ultimately show ?thesis by (auto simp: ok_rate_def)
qed

lemma rate_ok: "rate C k s = Inr v \<Longrightarrow> ok_opt (ok_rate C) v"
  by (cases s) (auto simp: rate_def ok_opt_def dest: ParseRate_ok split: sum.splits)

lemma negative_ok: "\<not> negative v \<Longrightarrow> ok_opt (\<lambda>x. 0 \<le> x) v"
  by (cases v) (simp_all add: negative_def ok_opt_def)

lemma toPartial_ok:
  assumes "toPartial C k r = Inr p"
  shows "ok_partial C p"
proof -
  obtain u d where "rate C k (rawUpload r) = Inr u" "rate C k (rawDownload r) = Inr d"
    "\<not> negative (rawMaxConns r)" "\<not> negative (rawMaxConnsPerTorrent r)" "\<not> negative (rawMaxActiveUploads r)"
    "p = \<lparr>pUpload = u, pDownload = d, pMaxConns = rawMaxConns r, pMaxConnsPerTorrent = rawMaxConnsPerTorrent r, pMaxActiveUploads = rawMaxActiveUploads r\<rparr>"
    using assms unfolding toPartial_def by (auto split: sum.splits if_splits)
  then show ?thesis using rate_ok negative_ok by (simp add: ok_partial_def)
qed

lemma ParseClock_bounds: "ParseClock s = Inr m \<Longrightarrow> 0 \<le> m \<and> m \<le> 1440"
  by (auto simp: ParseClock_def Let_def split: prod.splits option.splits if_splits)

lemma ParseDays_length: "ParseDays ss = Inr d \<Longrightarrow> length d = 7"
  using parse_day_specs_correct [of "replicate 7 False" ss] by (auto simp: ParseDays_def split: if_splits)

lemma compile_rule_ok: "compile_rule C i r = Inr x \<Longrightarrow> ok_rule C x"
  by (auto simp: compile_rule_def clock_def ok_rule_def dest: ParseClock_bounds ParseDays_length toPartial_ok
      split: if_splits sum.splits)

lemma compile_rules_ok: "compile_rules C i rs = Inr xs \<Longrightarrow> list_all (ok_rule C) xs"
  by (induction rs arbitrary: i xs) (auto dest: compile_rule_ok split: sum.splits)

lemma Apply_ok: "ok_partial C p \<Longrightarrow> ok_limits C l \<Longrightarrow> ok_limits C (Apply p l)"
  by (auto simp: ok_partial_def ok_opt_def ok_limits_def Apply_def or_keep_def split: option.splits)

definition ok_schedule :: "cfgenv \<Rightarrow> Sched \<Rightarrow> bool" where
  "ok_schedule C s \<longleftrightarrow> ok_limits C (Base s) \<and> list_all (ok_rule C) (Rules s)"

lemma compileSchedule_ok:
  assumes "compileSchedule C c = Inr c'"
  shows "ok_schedule C (CompiledSchedule c') \<and> (\<exists>s. c' = c\<lparr>CompiledSchedule := s\<rparr>)"
proof -
  have d: "ok_limits C defaultLimits" by (simp add: ok_limits_def ok_rate_def defaultLimits_def)
  show ?thesis
    using assms Apply_ok [OF toPartial_ok d] compile_rules_ok
    by (auto simp: compileSchedule_def ok_schedule_def Let_def negative_def ok_limits_def not_less split: sum.splits if_splits option.splits)
qed

lemma Effective_ok: "ok_schedule C s \<Longrightarrow> ok_limits C (fst (Effective z s t))"
proof -
  have "ok_limits C b \<Longrightarrow> list_all (ok_rule C) rs \<Longrightarrow> ok_limits C (fst (first_match z b i rs t))" for b i rs
    by (induction rs arbitrary: i) (auto simp: ok_rule_def intro: Apply_ok)
  then show "ok_schedule C s \<Longrightarrow> ok_limits C (fst (Effective z s t))" by (simp add: ok_schedule_def Effective_def)
qed

lemma bad_cidr_None: "bad_cidr C i ss = None \<longleftrightarrow> (\<forall>s\<in>set ss. cprefix C s \<noteq> None)"
  by (induction ss arbitrary: i) auto

definition loopback_listen :: "cfgenv \<Rightarrow> string \<Rightarrow> bool" where
  "loopback_listen C l \<longleftrightarrow> (\<exists>h. SplitHost l = Some h \<and> (h = ''localhost'' \<or> (\<exists>ip. caddr C h = Some ip \<and> IsLoopback ip)))"

lemma validate_ok:
  assumes "validate C c = Inr c'"
  shows "ok_schedule C (CompiledSchedule c') \<and> loopback_listen C (Listen c') \<and> DataDir c' \<noteq> '''' \<and> StateDir c' \<noteq> ''''
    \<and> http_url C (CatalogURL c') \<and> 0 < Refresh c' \<and> 0 \<le> ListenPort c' \<and> ListenPort c' \<le> 65535 \<and> (\<forall>s\<in>set (CIDRs c'). cprefix C s \<noteq> None)"
proof -
  have cs: "compileSchedule C c = Inr c'" and v: "DataDir c \<noteq> ''''" "StateDir c \<noteq> ''''" "http_url C (CatalogURL c)" "0 < Refresh c"
    "0 \<le> ListenPort c" "ListenPort c \<le> 65535" "bad_cidr C 0 (CIDRs c) = None" "loopback_listen C (Listen c)"
    using assms by (auto simp: validate_def loopback_listen_def not_le not_less split: if_splits option.splits)
  from compileSchedule_ok [OF cs] v show ?thesis by (auto simp: bad_cidr_None)
qed

section \<open>Properties\<close>

text \<open>C37. Every accepted configuration is well formed, whatever the document said: its directories are named,
  its catalog URL is an HTTP one, its refresh interval positive, its port in range, its local networks
  parse, its API listens on a loopback address only, and the limits its schedule gives at any time, in
  any time zone, are not negative: rates are computed with the rounding of float64, and only a rate of \<open>2\<^sup>6\<^sup>3\<close> or more is
  what the machine's conversion makes of it.\<close>

theorem accepted_config_wellformed:
  assumes "ParseConfig C dec data = Inr c"
  shows "DataDir c \<noteq> '''' \<and> StateDir c \<noteq> '''' \<and> http_url C (CatalogURL c) \<and> 0 < Refresh c \<and> 0 \<le> ListenPort c \<and> ListenPort c \<le> 65535
    \<and> (\<forall>s\<in>set (CIDRs c). cprefix C s \<noteq> None) \<and> loopback_listen C (Listen c)
    \<and> (\<forall>z t. ok_limits C (fst (Effective z (CompiledSchedule c) t)))
    \<and> (\<forall>r\<in>set (Rules (CompiledSchedule c)). length (Days r) = 7 \<and> From r \<in> {0..1440} \<and> To r \<in> {0..1440})"
proof -
  obtain c0 where "validate C c0 = Inr c" using assms by (auto simp: ParseConfig_def split: yaml_result.splits)
  from validate_ok [OF this] show ?thesis
    using Effective_ok by (auto simp: ok_schedule_def list_all_iff ok_rule_def)
qed

definition demo_cfgenv :: cfgenv where
  "demo_cfgenv = \<lparr>cbeyond = 0, curl = (\<lambda>_. Some (''https'', ''parrot.lnx.fi'')),
     cprefix = (\<lambda>_. Some \<lparr>pAddr = V4 0, pBits = 8\<rparr>), caddr = (\<lambda>_. Some (V4 0x7F000001))\<rparr>"

theorem accepted_config_wellformed_witness:
  "\<exists>c. ParseConfig demo_cfgenv (\<lambda>_ _. YamlEOF) '''' = Inr c \<and> MaxConns (Base (CompiledSchedule c)) = 200
     \<and> loopback_listen demo_cfgenv (Listen c)"
proof -
  have "\<exists>c. ParseConfig demo_cfgenv (\<lambda>_ _. YamlEOF) '''' = Inr c \<and> MaxConns (Base (CompiledSchedule c)) = 200"
  proof -
    have "case ParseConfig demo_cfgenv (\<lambda>_ _. YamlEOF) '''' of Inr c \<Rightarrow> MaxConns (Base (CompiledSchedule c)) = 200 | Inl _ \<Rightarrow> False"
      by code_simp
    then show ?thesis by (auto split: sum.splits)
  qed
  then obtain c where c: "ParseConfig demo_cfgenv (\<lambda>_ _. YamlEOF) '''' = Inr c" "MaxConns (Base (CompiledSchedule c)) = 200" by blast
  from accepted_config_wellformed [OF c(1)] c show ?thesis by blast
qed

end
