(* ===== verification/Api.thy ===== *)
theory Api
  imports NodeLimits Units Netip
begin

text \<open>
  \<open>internal/api/api.go\<close>: the HTTP API on the loopback interface, over any backend. A request carries what the
  server has already taken apart: the method, the \<open>Host\<close> header, the path, the media type of the
  \<open>Content-Type\<close> header if it parses, and the body. The JSON decoders and the parser of IP addresses are
  parameters.
\<close>

section \<open>Requests and responses\<close>

datatype Method = GET | HEAD | POST | PUT | DELETE | OtherMethod string

record Request =
  qMethod :: Method
  qHost :: string
  qPath :: string
  qMedia :: "string option"
  qBody :: bytes

record OverrideRequest =
  reqUpload :: "string option"
  reqDownload :: "string option"
  reqMaxConns :: "int option"

datatype response_body =
    NoBody
  | Message string
  | StatusList "ModelStatus list"
  | EnsureBody string string "ModelStatus option"    \<comment> \<open>path, error, status\<close>
  | LimitsBody LimitsStatus

type_synonym response = "nat \<times> response_body"

text \<open>The interface \<open>Backend\<close>, as operations on a state.\<close>

record 's Backend =
  bStatus :: "'s \<Rightarrow> ModelStatus list"
  bEnsure :: "'s \<Rightarrow> string \<Rightarrow> (ensure_error option \<times> ModelStatus option) \<times> 's"
  bLimits :: "'s \<Rightarrow> LimitsStatus"
  bSetOverride :: "Partial \<Rightarrow> 's \<Rightarrow> 's"
  bClearOverride :: "'s \<Rightarrow> 's"

record apienv =
  dec_ensure :: "bytes \<Rightarrow> string option"
  dec_override :: "bytes \<Rightarrow> OverrideRequest option"
  parse_addr :: "string \<Rightarrow> Addr option"
  abeyond :: int

section \<open>The guard\<close>

text \<open>\<open>strings.EqualFold\<close> with an ASCII string: letters fold to lower case, and so does the long s (bytes C5 BF),
  whose simple folding is \<open>s\<close>.\<close>

fun fold_case :: "string \<Rightarrow> string" where
  "fold_case [] = []"
| "fold_case [c] = [lower c]"
| "fold_case (c # d # s) = (if c = CHR 0xC5 \<and> d = CHR 0xBF then CHR ''s'' # fold_case s else lower c # fold_case (d # s))"

definition trim_brackets :: "string \<Rightarrow> string" where
  "trim_brackets h =
     (let h = (if HasPrefix h ''['' then drop 1 h else h) in if HasSuffix h '']'' then butlast h else h)"

definition loopbackHost :: "(string \<Rightarrow> Addr option) \<Rightarrow> string \<Rightarrow> bool" where
  "loopbackHost pa hostport =
     (let host = trim_brackets (case SplitHost hostport of Some h \<Rightarrow> h | None \<Rightarrow> hostport)
      in if fold_case host = ''localhost'' then True
         else case pa host of Some ip \<Rightarrow> IsLoopback ip | None \<Rightarrow> False)"

definition guard :: "(string \<Rightarrow> Addr option) \<Rightarrow> (Request \<Rightarrow> 's \<Rightarrow> response \<times> 's) \<Rightarrow> Request \<Rightarrow> 's \<Rightarrow> response \<times> 's" where
  "guard pa nxt r s =
     (if \<not> loopbackHost pa (qHost r) then ((421, Message ''Host must be a loopback address or localhost''), s)
      else if qMethod r \<in> {POST, PUT, DELETE} \<and> qMedia r \<noteq> Some ''application/json''
      then ((415, Message ''Content-Type must be application/json''), s)
      else nxt r s)"

section \<open>The handlers\<close>

definition MaxBytes :: nat where
  "MaxBytes = 2 ^ 16"

definition partial_of :: "int \<Rightarrow> OverrideRequest \<Rightarrow> rate_error option + Partial" where
  "partial_of beyond q =
     (let rate = (\<lambda>x. case x of None \<Rightarrow> Inr None | Some s \<Rightarrow> (case ParseRate beyond s of Inl e \<Rightarrow> Inl (Some e) | Inr v \<Rightarrow> Inr (Some v)))
      in case rate (reqUpload q) of
           Inl e \<Rightarrow> Inl e
         | Inr u \<Rightarrow>
             (case rate (reqDownload q) of
                Inl e \<Rightarrow> Inl e
              | Inr d \<Rightarrow>
                  if (case reqMaxConns q of Some c \<Rightarrow> c < 0 | None \<Rightarrow> False) then Inl None
                  else Inr \<lparr>pUpload = u, pDownload = d, pMaxConns = reqMaxConns q, pMaxConnsPerTorrent = None, pMaxActiveUploads = None\<rparr>))"

text \<open>The answer to \<open>POST /ensure\<close>. The text of an error is left to \<open>show_err\<close>.\<close>

definition absent_message :: string where
  "absent_message = ''model is not on this host and this node never downloads (models.seed_only_existing)''"

definition bad_ensure_body :: string where
  "bad_ensure_body = ''body must be {\"id\": \"<model id>\"}''"

definition show_err :: "ensure_error \<Rightarrow> string" where
  "show_err e = (case e of ErrUnknownModel \<Rightarrow> ''unknown model'' | ErrNoCatalog \<Rightarrow> ''no catalog loaded yet'' | ErrNoSpace \<Rightarrow> ''insufficient disk space'')"

definition err_of :: "ModelStatus option \<Rightarrow> string" where
  "err_of st = (case st of Some x \<Rightarrow> msError x | None \<Rightarrow> '''')"

definition ensure_response :: "ensure_error option \<times> ModelStatus option \<Rightarrow> response" where
  "ensure_response r =
     (case r of
        (Some ErrUnknownModel, st) \<Rightarrow> (404, EnsureBody '''' (show_err ErrUnknownModel) None)
      | (Some ErrNoCatalog, st) \<Rightarrow> (503, EnsureBody '''' (show_err ErrNoCatalog) None)
      | (Some ErrNoSpace, st) \<Rightarrow> (507, EnsureBody '''' (err_of st) st)
      | (None, None) \<Rightarrow> (202, EnsureBody '''' '''' None)
      | (None, Some st) \<Rightarrow>
          if msState st = StateSeeding then (200, EnsureBody (msPath st) '''' (Some st))
          else if msState st = StateFailed then (500, EnsureBody '''' (msError st) (Some st))
          else if msState st = StateAbsent
          then (409, EnsureBody '''' (if msError st = '''' then absent_message else msError st) (Some st))
          else (202, EnsureBody '''' '''' (Some st)))"

text \<open>The routes; a known path with another method is answered 405, an unknown path 404, as the mux does for
  clean paths (it redirects others). \<open>HEAD\<close> is served like \<open>GET\<close>.\<close>

definition mux :: "apienv \<Rightarrow> 's Backend \<Rightarrow> Request \<Rightarrow> 's \<Rightarrow> response \<times> 's" where
  "mux A B r s =
     (if qPath r = ''/status'' then
        (if qMethod r = GET \<or> qMethod r = HEAD then ((200, StatusList (bStatus B s)), s) else ((405, NoBody), s))
      else if qPath r = ''/ensure'' then
        (if qMethod r = POST then
           (case dec_ensure A (take MaxBytes (qBody r)) of
              None \<Rightarrow> ((400, EnsureBody '''' bad_ensure_body None), s)
            | Some i \<Rightarrow>
                if i = '''' then ((400, EnsureBody '''' bad_ensure_body None), s)
                else case bEnsure B s i of (res, s') \<Rightarrow> (ensure_response res, s'))
         else ((405, NoBody), s))
      else if qPath r = ''/limits'' then
        (if qMethod r = GET \<or> qMethod r = HEAD then ((200, LimitsBody (bLimits B s)), s) else ((405, NoBody), s))
      else if qPath r = ''/limits/override'' then
        (if qMethod r = PUT then
           (case dec_override A (take MaxBytes (qBody r)) of
              None \<Rightarrow> ((400, Message ''bad request''), s)
            | Some q \<Rightarrow>
                (case partial_of (abeyond A) q of
                   Inl e \<Rightarrow> ((400, Message ''bad request''), s)
                 | Inr p \<Rightarrow> ((204, NoBody), bSetOverride B p s)))
         else if qMethod r = DELETE then ((204, NoBody), bClearOverride B s)
         else ((405, NoBody), s))
      else ((404, NoBody), s))"

definition Handler :: "apienv \<Rightarrow> 's Backend \<Rightarrow> Request \<Rightarrow> 's \<Rightarrow> response \<times> 's" where
  "Handler A B r s = guard (parse_addr A) (mux A B) r s"

section \<open>What the API relies on\<close>

text \<open>A backend reports a path only for a model that is seeding, and changes nothing when it knows no such
  model before it starts.\<close>

locale ensuring_backend =
  fixes B :: "'s Backend"
  assumes path_seeding: "bEnsure B s i = ((e, Some st), s') \<Longrightarrow> msPath st \<noteq> '''' \<Longrightarrow> msState st = StateSeeding"
    and no_catalog_keeps: "bEnsure B s i = ((Some ErrNoCatalog, rep), s') \<Longrightarrow> s' = s"
begin

lemma ensure_path_only_when_ok:
  assumes "mux A B r s = ((code, EnsureBody p err st), s')"
  shows "p \<noteq> '''' \<Longrightarrow> code = 200 \<and> (\<exists>x. st = Some x \<and> msState x = StateSeeding \<and> msPath x = p)"
  using assms by (auto simp: mux_def ensure_response_def split: if_splits option.splits sum.splits prod.splits ensure_error.splits)

lemma refused_keeps:
  assumes "mux A B r s = ((code, body), s')" "code \<in> {400, 404, 405, 503}" "body \<noteq> EnsureBody '''' (show_err ErrUnknownModel) None"
  shows "s' = s"
  using assms no_catalog_keeps
  by (auto simp: mux_def ensure_response_def split: if_splits option.splits sum.splits prod.splits ensure_error.splits)

end


section \<open>The node as a backend\<close>

text \<open>The node's state as the API sees it. A scan of the adoption roots gives \<open>scan n\<close>; the views of the jobs and
  their rates are those at the time of the report; \<open>clock\<close> is the time of a call.\<close>

record napi =
  anode :: node
  alimits :: limitsState

record nodeenv =
  scan :: "node \<Rightarrow> adoptIndex"
  nview :: "node \<Rightarrow> nat \<Rightarrow> jview"
  nzone :: zone
  nsched :: Sched
  nclock :: "napi \<Rightarrow> time"

definition rates_of :: "limitsState \<Rightarrow> string \<Rightarrow> int \<times> int" where
  "rates_of l ih = (case map_of (rates l) ih of Some s \<Rightarrow> (upRate s, downRate s) | None \<Rightarrow> (0, 0))"

text \<open>\<open>Ensure\<close>: the wish, the reconciliation with the scan where one is needed, and the report.\<close>

definition Ensure :: "nodeenv \<Rightarrow> napi \<Rightarrow> string \<Rightarrow> (ensure_error option \<times> ModelStatus option) \<times> napi" where
  "Ensure V s i =
     (case Ensure_want (anode s) i of
        Inl e \<Rightarrow> ((Some e, None), s)
      | Inr (needScan, n1) \<Rightarrow>
          let n2 = (if needScan then snd (reconcileLocked False (Some (scan V n1)) n1) else n1)
          in (Ensure_report n2 (nview V n2) (rates_of (alimits s)) i, s\<lparr>anode := n2\<rparr>))"

definition node_backend :: "nodeenv \<Rightarrow> napi Backend" where
  "node_backend V =
     \<lparr>bStatus = (\<lambda>s. Status_of (anode s) (nview V (anode s)) (rates_of (alimits s))),
      bEnsure = Ensure V,
      bLimits = (\<lambda>s. Limits_of (alimits s)),
      bSetOverride = (\<lambda>p s. s\<lparr>alimits := SetOverride (nzone V) (nsched V) p (nclock V s) (alimits s)\<rparr>),
      bClearOverride = (\<lambda>s. s\<lparr>alimits := ClearOverride (nzone V) (nsched V) (nclock V s) (alimits s)\<rparr>)\<rparr>"

lemma ModelStatus_path: "ModelStatus_of n view rs i = Some st \<Longrightarrow> msPath st \<noteq> '''' \<Longrightarrow> msState st = StateSeeding"
  by (erule ModelStatus_cases) (auto split: if_splits)

interpretation node_api: ensuring_backend "node_backend V" for V
  by unfold_locales
    (auto simp: node_backend_def Ensure_def Ensure_report_def Let_def Ensure_want_def dest: ModelStatus_path
      split: sum.splits prod.splits option.splits if_splits)

section \<open>Lemmas\<close>

lemma ensure_response_200:
  "ensure_response r = (200, b) \<longleftrightarrow> (\<exists>st. r = (None, Some st) \<and> msState st = StateSeeding \<and> b = EnsureBody (msPath st) '''' (Some st))"
  by (auto simp: ensure_response_def split: prod.splits option.splits ensure_error.splits if_splits)

lemma mux_changes: "snd (mux A B r s) \<noteq> s \<Longrightarrow> qMethod r \<in> {POST, PUT, DELETE}"
  by (auto simp: mux_def split: if_splits option.splits sum.splits prod.splits)

text \<open>A unit of a model serves it, or is a missing documentation file that does not count.\<close>

definition all_seeding :: "node \<Rightarrow> (nat \<Rightarrow> jview) \<Rightarrow> Model \<Rightarrow> bool" where
  "all_seeding n view m \<longleftrightarrow>
     (\<forall>f\<in>set (units m). map_of (jobs n) (fInfoHash f) \<noteq> None)
   \<and> (\<forall>x\<in>set (unit_jobs n view m). state_of x = StateSeeding \<or> state_of x = StateAbsent \<and> isDocCompanion (fName (fst x)) \<and> main_seeding m (unit_jobs n view m))"

lemma seeding_all:
  assumes "ModelStatus_of n view rs i = Some st" "msState st = StateSeeding"
  shows "\<exists>c m. ncat n = Some c \<and> catalogModel c i = Some m \<and> all_seeding n view m"
proof -
  from assms(1) obtain c m ms sz dn where cm: "ncat n = Some c" "catalogModel c i = Some m" "wantedLocked n i"
    and f: "foldl (sum_job m (main_seeding m (unit_jobs n view m)) rs) (empty_status i, 0, 0) (unit_jobs n view m) = (ms, sz, dn)"
    and st: "msState st = (if \<exists>f\<in>set (units m). map_of (jobs n) (fInfoHash f) = None then StateQueued else msState ms)"
    by (rule ModelStatus_cases)
  let ?S = "state_of ` {x \<in> set (unit_jobs n view m). counts (main_seeding m (unit_jobs n view m)) x}"
  have none: "\<not> (\<exists>f\<in>set (units m). map_of (jobs n) (fInfoHash f) = None)" and ms: "msState ms = StateSeeding"
    using st assms(2) by (auto split: if_splits)
  have "Min (insert StateSeeding ?S) = StateSeeding"
    using sum_state [of m "main_seeding m (unit_jobs n view m)" rs "empty_status i" 0 0 "unit_jobs n view m"] f ms
    by (simp add: empty_status_def)
  then have "StateSeeding \<le> x" if "x \<in> ?S" for x using Min_le [of "insert StateSeeding ?S" x] that by simp
  then have "x = StateSeeding" if "x \<in> ?S" for x using that order_antisym [of x StateSeeding] by simp
  then have sd: "state_of x = StateSeeding" if "x \<in> set (unit_jobs n view m)" "counts (main_seeding m (unit_jobs n view m)) x" for x
    using that by blast
  have "all_seeding n view m"
    unfolding all_seeding_def
  proof (intro conjI ballI)
    fix x assume "x \<in> set (unit_jobs n view m)"
    from sd [OF this] show "state_of x = StateSeeding \<or> state_of x = StateAbsent \<and> isDocCompanion (fName (fst x)) \<and> main_seeding m (unit_jobs n view m)"
      by (auto simp: counts_def)
  qed (use none in auto)
  with cm show ?thesis by blast
qed

section \<open>Properties\<close>

text \<open>C28. The API cannot be driven from a web page: whatever the backend, a request changes its state only
  if it names a loopback address or localhost as its host, uses \<open>POST\<close>, \<open>PUT\<close> or \<open>DELETE\<close> and has the
  content type \<open>application/json\<close>, which a browser does not send across origins unasked; and a request for
  another host is answered 421, whatever it asks.\<close>

theorem api_guard_protects:
  "(snd (Handler A B r s) \<noteq> s \<longrightarrow>
      loopbackHost (parse_addr A) (qHost r) \<and> qMethod r \<in> {POST, PUT, DELETE} \<and> qMedia r = Some ''application/json'')
   \<and> (\<not> loopbackHost (parse_addr A) (qHost r) \<longrightarrow> fst (fst (Handler A B r s)) = 421)"
  using mux_changes [of A B r s] by (auto simp: Handler_def guard_def)

definition demo_api :: apienv where
  "demo_api = \<lparr>dec_ensure = (\<lambda>b. Some b), dec_override = (\<lambda>_. None), parse_addr = (\<lambda>_. None), abeyond = 0\<rparr>"

definition demo_nodeenv :: nodeenv where
  "demo_nodeenv = \<lparr>scan = (\<lambda>_. demo_idx), nview = (\<lambda>_. demo_view), nzone = fixed_zone 0,
     nsched = \<lparr>Base = demo_base, Rules = []\<rparr>, nclock = (\<lambda>_. 9)\<rparr>"

definition demo_napi :: napi where
  "demo_napi = \<lparr>anode = demo_again, alimits = demo_lstate\<rparr>"

definition demo_request :: Request where
  "demo_request = \<lparr>qMethod = POST, qHost = ''LocalHost:7950'', qPath = ''/ensure'', qMedia = Some ''application/json'', qBody = ''m1''\<rparr>"

theorem api_guard_protects_witness:
  "fst (fst (Handler demo_api (node_backend demo_nodeenv) (demo_request\<lparr>qHost := ''evil.example''\<rparr>) demo_napi)) = 421
   \<and> loopbackHost (parse_addr demo_api) (qHost demo_request)"
proof -
  have "\<not> loopbackHost (parse_addr demo_api) ''evil.example''" "loopbackHost (parse_addr demo_api) (qHost demo_request)" by code_simp+
  with api_guard_protects [of demo_api "node_backend demo_nodeenv" "demo_request\<lparr>qHost := ''evil.example''\<rparr>" demo_napi]
  show ?thesis by simp
qed

text \<open>C27. What \<open>POST /ensure\<close> promises: when the node answers 200 for a model, every torrent of the model has a
  job and is being seeded (or is an absent documentation file of a GGUF model whose main file is being
  seeded), and a path is only ever returned with that answer.\<close>

theorem ensure_ok_means_seeding:
  assumes "qPath r = ''/ensure''" "Handler A (node_backend V) r s = ((code, EnsureBody p err st), s')"
  shows "(code = 200 \<longrightarrow> (\<exists>i c m. dec_ensure A (take MaxBytes (qBody r)) = Some i \<and> ncat (anode s') = Some c
       \<and> catalogModel c i = Some m \<and> all_seeding (anode s') (nview V (anode s')) m))
    \<and> (p \<noteq> '''' \<longrightarrow> code = 200)"
proof -
  have mx: "mux A (node_backend V) r s = ((code, EnsureBody p err st), s')"
    using assms(2) by (auto simp: Handler_def guard_def split: if_splits)
  have "\<exists>i c m. dec_ensure A (take MaxBytes (qBody r)) = Some i \<and> ncat (anode s') = Some c
      \<and> catalogModel c i = Some m \<and> all_seeding (anode s') (nview V (anode s')) m" if ok: "code = 200"
  proof -
    obtain i res where i: "dec_ensure A (take MaxBytes (qBody r)) = Some i" "Ensure V s i = (res, s')"
      "ensure_response res = (200, EnsureBody p err st)"
      using mx assms(1) ok by (auto simp: mux_def node_backend_def split: if_splits option.splits prod.splits)
    then obtain x where "res = (None, Some x)" "msState x = StateSeeding" using ensure_response_200 by blast
    then have "ModelStatus_of (anode s') (nview V (anode s')) (rates_of (alimits s)) i = Some x"
      using i(2) by (auto simp: Ensure_def Ensure_report_def Let_def split: sum.splits prod.splits option.splits if_splits)
    from seeding_all [OF this] \<open>msState x = StateSeeding\<close> i(1) show ?thesis by blast
  qed
  moreover have "p \<noteq> '''' \<Longrightarrow> code = 200" using node_api.ensure_path_only_when_ok [OF mx] by blast
  ultimately show ?thesis by blast
qed

lemma demo_handled:
  "Handler demo_api (node_backend demo_nodeenv) demo_request demo_napi
     = (ensure_response (fst (Ensure demo_nodeenv demo_napi ''m1'')), snd (Ensure demo_nodeenv demo_napi ''m1''))"
proof -
  have "loopbackHost (parse_addr demo_api) (qHost demo_request)" by code_simp
  then show ?thesis
    by (simp add: Handler_def guard_def mux_def demo_request_def demo_api_def node_backend_def MaxBytes_def split: prod.splits)
qed

theorem ensure_ok_means_seeding_witness:
  "(\<exists>st. fst (Handler demo_api (node_backend demo_nodeenv) demo_request demo_napi) = (200, EnsureBody ''/d/m.gguf'' '''' st))
   \<and> all_seeding (anode (snd (Handler demo_api (node_backend demo_nodeenv) demo_request demo_napi))) demo_view demo_model"
proof -
  let ?e = "Ensure demo_nodeenv demo_napi ''m1''"
  have "fst (fst ?e) = None \<and> map_option (\<lambda>x. (msState x, msPath x)) (snd (fst ?e)) = Some (StateSeeding, ''/d/m.gguf'')" by code_simp
  then obtain st where "fst ?e = (None, Some st)" "msState st = StateSeeding" "msPath st = ''/d/m.gguf''"
    by (cases "fst ?e") auto
  then have h: "Handler demo_api (node_backend demo_nodeenv) demo_request demo_napi = ((200, EnsureBody ''/d/m.gguf'' '''' (Some st)), snd ?e)"
    by (simp add: demo_handled ensure_response_def)
  have "ncat (anode (snd ?e)) = Some demo_catalog" "catalogModel demo_catalog ''m1'' = Some demo_model" by code_simp+
  with ensure_ok_means_seeding [OF _ h] have "all_seeding (anode (snd ?e)) demo_view demo_model"
    by (auto simp: demo_request_def demo_api_def demo_nodeenv_def MaxBytes_def)
  with h show ?thesis by simp
qed

end
