(* ===== verification/Runs.thy ===== *)
theory Runs
  imports Node
begin

text \<open>
  The goroutines of \<open>internal/node/job.go\<close>: \<open>run\<close>, \<open>fetchMetainfo\<close>, \<open>addTorrent\<close>, \<open>seed\<close> and \<open>download\<close>,
  composed with the node of \<open>Node\<close> into a system in which any number of jobs, the node's own
  operations and everybody else on the host interleave.

  A job's goroutine is a program point and a step function. A step runs from one point where the code
  waits, or where others may come in between, to the next; what the step sees of the outside (the
  environment of the file operations, the answer of the torrent source, whether the torrent library
  opened the storage or reports the torrent complete, whether a timer fired) is its observation.

  A search for a local copy (\<open>findLocal\<close>, \<open>findLocalDir\<close>), the preparation of a folder and the end of a download
  (verification and promotion) are one step each on the disk, with all the failures of their calls: others on the host
  change the disk between these steps, not in the middle of one.
\<close>

section \<open>Program points\<close>

text \<open>\<open>Fetching\<close> and \<open>Backoff\<close> are \<open>addTorrent\<close> for the storage at a path, for a download or not, with the
  current delay of \<open>fetchMetainfo\<close> in seconds.\<close>

datatype point =
    Begin "nat list"
  | Searching
  | Preparing
  | Reserving
  | Paused
  | Fetching path bool nat
  | Backoff path bool nat
  | Checking path
  | Seeding path
  | Downloading
  | Finishing nat
  | Ending
  | Over

record torrent =
  tInfoHash :: string
  tPath :: path
  tDownload :: bool
  tTrackers :: "string list list"
  tWebSeeds :: "string list"
  tPeers :: "string list"

datatype fetched = FetchErr | Fetched string "tinfo option"

record obs =
  oEnv :: jenv
  oPeers :: "string list"              \<comment> \<open>\<open>n.peers\<close>\<close>
  oAlloc :: "path \<Rightarrow> int"
  oFree :: "int option"
  oFetch :: fetched
  oOpened :: bool
  oComplete :: bool
  oPieces :: nat
  oTimer :: bool
  oFreed :: bool

text \<open>\<open>owing\<close> is the deferred \<open>releaseSpace\<close> of \<open>download\<close>. \<open>seen\<close> is not part of the program: it lists
  what the job's steps have seen, so that properties can speak of the past.\<close>

record run =
  rpt :: point
  rjob :: job
  rtorrent :: "torrent option"
  owing :: bool
  seen :: "(jenv \<times> world) list"

section \<open>The parts of a job's goroutine\<close>

definition new_run :: "node \<Rightarrow> nat \<Rightarrow> run" where
  "new_run n k =
     \<lparr>rpt = Begin (kwaits (table n k)),
      rjob = (newJob (kmodel (table n k)) (kf (table n k)) (kcands (table n k)))\<lparr>jdir := kdir (table n k)\<rparr>,
      rtorrent = None, owing = False, seen = []\<rparr>"

definition run_env :: "node \<Rightarrow> obs \<Rightarrow> jenv" where
  "run_env n ob = (oEnv ob)\<lparr>dataDir := dataDir (nEnv n), codec := codec (nEnv n), cat := ncat n\<rparr>"

text \<open>\<open>j.ctx.Err() != nil\<close>: the job was stopped, or the node is closing. An operation that returned
  \<open>ctx.Err()\<close> saw it before \<open>fail\<close> looks.\<close>

definition ctx_done :: "node \<Rightarrow> nat \<Rightarrow> bool" where
  "ctx_done n k \<longleftrightarrow> kstop (table n k) \<or> closed n"

definition go :: "point \<Rightarrow> run \<Rightarrow> run" where
  "go p r = r\<lparr>rpt := p\<rparr>"

definition give_up :: "node \<Rightarrow> nat \<Rightarrow> job_error \<Rightarrow> run \<Rightarrow> run" where
  "give_up n k err r = r\<lparr>rpt := Ending, rjob := fail (ctx_done n k \<or> err = Stopped) err (rjob r)\<rparr>"

definition firstDelay :: nat where "firstDelay = 5"
definition maxDelay :: nat where "maxDelay = 300"

definition find_local :: "jenv \<Rightarrow> io \<Rightarrow> job \<Rightarrow> (job_error + (path option \<times> path list)) \<times> job \<times> io" where
  "find_local E S j = (case jdir j of None \<Rightarrow> findLocal E S j | Some m \<Rightarrow> findLocalDir E S j m)"

text \<open>\<open>run\<close>, from the end of the waits: the search and what follows from it.\<close>

definition search :: "bool \<Rightarrow> obs \<Rightarrow> node \<Rightarrow> nat \<Rightarrow> run \<Rightarrow> node \<times> run" where
  "search seedOnly ob n k r =
     (case find_local (run_env n ob) (nio n) (rjob r) of
        (res, j, S) \<Rightarrow>
          (n\<lparr>nio := S\<rparr>,
           case res of
             Inl e \<Rightarrow> give_up n k e (r\<lparr>rjob := j\<rparr>)
           | Inr (found, dps) \<Rightarrow>
               (let j' = (if dps \<noteq> [] then j\<lparr>dups := dps\<rparr> else j)
                in case found of
                     Some p \<Rightarrow> r\<lparr>rjob := j', rpt := Fetching p False firstDelay\<rparr>
                   | None \<Rightarrow>
                       if seedOnly then r\<lparr>rjob := set_state StateAbsent None (Some NoLocalCopy) j', rpt := Ending\<rparr>
                       else r\<lparr>rjob := j', rpt := Preparing\<rparr>)))"

text \<open>\<open>download\<close>, up to the torrent: the incoming directory of a folder model, then the loop over
  \<open>reserveSpace\<close>.\<close>

definition prepare :: "obs \<Rightarrow> node \<Rightarrow> nat \<Rightarrow> run \<Rightarrow> node \<times> run" where
  "prepare ob n k r =
     (case jdir (rjob r) of
        None \<Rightarrow> (n, go Reserving r)
      | Some _ \<Rightarrow>
          (case prepareIncomingDir (run_env n ob) (nio n) (rjob r) of
             (Some e, S) \<Rightarrow> (n\<lparr>nio := S\<rparr>, give_up n k e r)
           | (None, S) \<Rightarrow> (n\<lparr>nio := S\<rparr>, go Reserving r)))"

definition reserve :: "obs \<Rightarrow> node \<Rightarrow> nat \<Rightarrow> run \<Rightarrow> node \<times> run" where
  "reserve ob n k r =
     (let E = run_env n ob; j = rjob r; inc = incomingPath E j
      in case reserveSpace (oAlloc ob) (oFree ob) n (fInfoHash (jf j)) inc (fSize (jf j)) of
           (False, n') \<Rightarrow> (n', r\<lparr>rjob := set_state StatePaused None (Some NoRoom) (j\<lparr>noSpace := True\<rparr>), rpt := Paused\<rparr>)
         | (True, n') \<Rightarrow>
             (let r' = r\<lparr>rjob := j\<lparr>noSpace := False\<rparr>, owing := True\<rparr>
              in case MkdirAll (wd (nio n')) (incomingDir E) of
                   (Some e, w) \<Rightarrow> (n'\<lparr>nio := (nio n')\<lparr>wd := w\<rparr>\<rparr>, give_up n k (Errno e) r')
                 | (None, w) \<Rightarrow> (n'\<lparr>nio := (nio n')\<lparr>wd := w\<rparr>\<rparr>, go (Fetching inc True firstDelay) r')))"

text \<open>\<open>addTorrent\<close> with one round of \<open>fetchMetainfo\<close>, and what \<open>seed\<close> or \<open>download\<close> do with the torrent.\<close>

definition new_torrent :: "string \<Rightarrow> path \<Rightarrow> bool \<Rightarrow> string list \<Rightarrow> string list \<Rightarrow> string list \<Rightarrow> torrent" where
  "new_torrent ih p download trackers webSeeds peers =
     \<lparr>tInfoHash = ih, tPath = p, tDownload = download, tTrackers = map (\<lambda>tr. [tr]) trackers,
      tWebSeeds = (if download \<and> webSeeds \<noteq> [] then webSeeds else []), tPeers = peers\<rparr>"

definition attached :: "path \<Rightarrow> bool \<Rightarrow> torrent \<Rightarrow> run \<Rightarrow> run" where
  "attached p download t r =
     (if download
      then r\<lparr>rtorrent := Some t, rjob := set_state StateDownloading None None (rjob r), rpt := Downloading\<rparr>
      else r\<lparr>rtorrent := Some t, rjob := set_state StateAdopting (Some p) None (rjob r), rpt := Checking p\<rparr>)"

definition addTorrent :: "magnet_parser \<Rightarrow> obs \<Rightarrow> node \<Rightarrow> nat \<Rightarrow> path \<Rightarrow> bool \<Rightarrow> nat \<Rightarrow> run \<Rightarrow> run" where
  "addTorrent pm ob n k p download delay r =
     (case fileMagnetSources pm (jf (rjob r)) of
        Inl e \<Rightarrow> give_up n k (Job.BadMagnet e) r
      | Inr (trackers, webSeeds) \<Rightarrow>
          (case oFetch ob of
             FetchErr \<Rightarrow>
               if ctx_done n k then give_up n k Stopped r
               else r\<lparr>rjob := set_state StateQueued None (Some FetchingTorrent) (rjob r), rpt := Backoff p download delay\<rparr>
           | Fetched ih info \<Rightarrow>
               if (case jdir (rjob r) of None \<Rightarrow> False | Some m \<Rightarrow> checkDirInfo info m \<noteq> None)
               then give_up n k DirInfoMismatch r
               else if \<not> oOpened ob then give_up n k StorageFailed r
               else attached p download (new_torrent ih p download trackers webSeeds (oPeers ob)) r))"

text \<open>The end of \<open>download\<close>: the torrent is complete, its space released and the torrent dropped.\<close>

definition completed :: "obs \<Rightarrow> node \<Rightarrow> run \<Rightarrow> node \<times> run" where
  "completed ob n r =
     (releaseSpace n (fInfoHash (jf (rjob r))),
      r\<lparr>rjob := set_state StateVerifying None None (rjob r), rtorrent := None, rpt := Finishing (oPieces ob)\<rparr>)"

definition finish :: "obs \<Rightarrow> node \<Rightarrow> nat \<Rightarrow> nat \<Rightarrow> run \<Rightarrow> node \<times> run" where
  "finish ob n k npieces r =
     (let E = run_env n ob; j = rjob r
      in case (case jdir j of
                 None \<Rightarrow> finish_file E (nio n) j npieces
               | Some m \<Rightarrow> finishDir E (nio n) j m (ctx_done n k) npieces) of
           (final, j', S) \<Rightarrow>
             (n\<lparr>nio := S\<rparr>,
              r\<lparr>rjob := j', rpt := (case final of None \<Rightarrow> Ending | Some p \<Rightarrow> Fetching p False firstDelay)\<rparr>))"

text \<open>The deferred calls: \<open>releaseSpace\<close> of \<open>download\<close>, then \<open>cleanup\<close>.\<close>

definition wind_up :: "obs \<Rightarrow> node \<Rightarrow> nat \<Rightarrow> run \<Rightarrow> node \<times> run" where
  "wind_up ob n k r =
     (let n1 = (if owing r then releaseSpace n (fInfoHash (jf (rjob r))) else n);
          j = stop (kprune (table n k)) (rjob r)
      in (n1\<lparr>nio := cleanup (run_env n ob) (nio n1) j\<rparr>, r\<lparr>rjob := j, rtorrent := None, owing := False, rpt := Over\<rparr>))"

section \<open>A step of a job\<close>

fun phase_of :: "point \<Rightarrow> phase" where
  "phase_of (Begin _) = Waiting"
| "phase_of Over = Finished"
| "phase_of _ = Active"

fun move :: "bool \<Rightarrow> magnet_parser \<Rightarrow> obs \<Rightarrow> node \<Rightarrow> nat \<Rightarrow> point \<Rightarrow> run \<Rightarrow> node \<times> run" where
  "move seedOnly pm ob n k (Begin (w # ws)) r = (n, if kphase (table n w) = Finished then go (Begin ws) r else r)"
| "move seedOnly pm ob n k (Begin []) r =
     (n, if ctx_done n k then go Ending r else r\<lparr>rjob := set_state StateAdopting None None (rjob r), rpt := Searching\<rparr>)"
| "move seedOnly pm ob n k Searching r = search seedOnly ob n k r"
| "move seedOnly pm ob n k Preparing r = prepare ob n k r"
| "move seedOnly pm ob n k Reserving r = reserve ob n k r"
| "move seedOnly pm ob n k Paused r =
     (n, if oFreed ob \<or> oTimer ob then go Reserving r else if ctx_done n k then go Ending r else r)"
| "move seedOnly pm ob n k (Fetching p d delay) r = (n, addTorrent pm ob n k p d delay r)"
| "move seedOnly pm ob n k (Backoff p d delay) r =
     (n, if oTimer ob then go (Fetching p d (min (delay * 2) maxDelay)) r else if ctx_done n k then go Ending r else r)"
| "move seedOnly pm ob n k (Checking p) r =
     (n, if oComplete ob then r\<lparr>rjob := set_state StateSeeding (Some p) None (rjob r), rpt := Seeding p\<rparr>
         else if ctx_done n k then go Ending r else r)"
| "move seedOnly pm ob n k (Seeding p) r = (n, if ctx_done n k then go Ending r else r)"
| "move seedOnly pm ob n k Downloading r =
     (if oComplete ob then completed ob n r else (n, if ctx_done n k then go Ending r else r))"
| "move seedOnly pm ob n k (Finishing c) r = finish ob n k c r"
| "move seedOnly pm ob n k Ending r = wind_up ob n k r"
| "move seedOnly pm ob n k Over r = (n, r)"

text \<open>The node's view of the job follows: whether it is past its waits, has failed, or is done.\<close>

definition note_phase :: "nat \<Rightarrow> run \<Rightarrow> node \<Rightarrow> node" where
  "note_phase k r n =
     n\<lparr>table := (table n)(k := (table n k)\<lparr>kphase := phase_of (rpt r), kfailed := kfailed (table n k) \<or> failed (rjob r)\<rparr>)\<rparr>"

definition job_step :: "bool \<Rightarrow> magnet_parser \<Rightarrow> obs \<Rightarrow> nat \<Rightarrow> node \<times> run \<Rightarrow> node \<times> run" where
  "job_step seedOnly pm ob k s =
     (case s of (n, r) \<Rightarrow>
        case move seedOnly pm ob n k (rpt r) r of
          (n', r') \<Rightarrow> (note_phase k r' n', r'\<lparr>seen := (run_env n ob, wd (nio n)) # seen r\<rparr>))"

section \<open>The system\<close>

record sys =
  snode :: node
  sruns :: "nat \<Rightarrow> run"
  speers :: "string list"

text \<open>\<open>AddPeers\<close>: remembered for the torrents to come, and told to the torrents of the node's jobs.\<close>

definition AddPeers :: "string list \<Rightarrow> sys \<Rightarrow> sys" where
  "AddPeers addrs s =
     s\<lparr>speers := addrs,
       sruns := (\<lambda>k. if live (snode s) k \<and> addrs \<noteq> []
                     then (sruns s k)\<lparr>rtorrent := map_option (\<lambda>t. t\<lparr>tPeers := tPeers t @ addrs\<rparr>) (rtorrent (sruns s k))\<rparr>
                     else sruns s k)\<rparr>"

text \<open>What is not a job's step: catalog updates, wishes, reconciliations after a scan, closing, the
  reapers of stopped jobs, the order of the map of jobs, and what others do to the disk.\<close>

inductive node_op :: "node \<Rightarrow> node \<Rightarrow> bool" where
  op_catalog: "Validate pm up (Models c) = None \<Longrightarrow> node_op n (snd (SetCatalog c n))"
| op_ensure: "Ensure_want n i = Inr (scan, n') \<Longrightarrow> node_op n n'"
| op_scanned: "node_op n (snd (reconcileLocked retry (Some idx) n))"
| op_close: "node_op n (Close n)"
| op_shuffle: "distinct js \<Longrightarrow> set js = set (jobs n) \<Longrightarrow> node_op n (n\<lparr>jobs := js\<rparr>)"
| op_forget: "(k, ih, dn) \<in> set (reapers n) \<Longrightarrow> kphase (table n k) = Finished \<Longrightarrow> node_op n (reap (k, ih, dn) n)"
| op_disk: "node_op n (n\<lparr>nio := S\<rparr>)"

definition with_new_runs :: "node \<Rightarrow> sys \<Rightarrow> sys" where
  "with_new_runs n s =
     s\<lparr>snode := n, sruns := (\<lambda>k. if next_job (snode s) \<le> k \<and> k < next_job n then new_run n k else sruns s k)\<rparr>"

definition with_job_step :: "bool \<Rightarrow> magnet_parser \<Rightarrow> obs \<Rightarrow> nat \<Rightarrow> sys \<Rightarrow> sys" where
  "with_job_step seedOnly pm ob k s =
     (case job_step seedOnly pm ob k (snode s, sruns s k) of
        (n, r) \<Rightarrow> s\<lparr>snode := n, sruns := (sruns s)(k := r)\<rparr>)"

text \<open>A job's step sees the current peers, and a torrent source that keeps its contract (the law of
  \<open>torrent_source\<close> in \<open>Fetch\<close>): a metainfo has the infohash that was asked for.\<close>

inductive sys_step :: "bool \<Rightarrow> magnet_parser \<Rightarrow> sys \<Rightarrow> sys \<Rightarrow> bool" for seedOnly pm where
  job_moves: "k < next_job (snode s) \<Longrightarrow> oPeers ob = speers s \<Longrightarrow>
    (\<And>ih info. oFetch ob = Fetched ih info \<Longrightarrow> ih = fInfoHash (jf (rjob (sruns s k)))) \<Longrightarrow>
    sys_step seedOnly pm s (with_job_step seedOnly pm ob k s)"
| node_moves: "node_op (snode s) n \<Longrightarrow> sys_step seedOnly pm s (with_new_runs n s)"
| peers_found: "sys_step seedOnly pm s (AddPeers addrs s)"

inductive sys_reach :: "bool \<Rightarrow> magnet_parser \<Rightarrow> sys \<Rightarrow> bool" for seedOnly pm where
  sys_start: "New E wnt pr d w = Some (snode s) \<Longrightarrow> sys_reach seedOnly pm s"
| sys_next: "sys_reach seedOnly pm s \<Longrightarrow> sys_step seedOnly pm s s' \<Longrightarrow> sys_reach seedOnly pm s'"


section \<open>Lemmas: what a step changes\<close>

lemma set_state_same [simp]:
  "jf (set_state s p e j) = jf j" "jdir (set_state s p e j) = jdir j" "jstate (set_state s p e j) = s"
  "jf (fail b err j) = jf j" "jdir (fail b err j) = jdir j" "failed (fail b err j) \<longleftrightarrow> \<not> b \<or> failed j"
  "jpath (set_state s (Some q) e j) = Some q"
  "failed (set_state s p e j) \<longleftrightarrow> s = StateFailed"
  by (auto simp: set_state_def fail_def failed_def Let_def split: option.splits)

lemma claimRecord_same: "claimRecord E S j dp = (j', S') \<Longrightarrow> jf j' = jf j \<and> jdir j' = jdir j \<and> jstate j' = jstate j"
  by (auto simp: claimRecord_def Let_def split: if_splits option.splits prod.splits)

lemma findLocal_same: "findLocal E S j = (res, j', S') \<Longrightarrow> jf j' = jf j \<and> jdir j' = jdir j \<and> jstate j' = jstate j"
  by (auto simp: findLocal_def Let_def split: sum.splits option.splits verdict.splits prod.splits dest: claimRecord_same)

lemma findLocalDir_same: "findLocalDir E S j m = (res, j', S') \<Longrightarrow> jf j' = jf j \<and> jdir j' = jdir j \<and> jstate j' = jstate j"
  by (auto simp: findLocalDir_def Let_def split: sum.splits option.splits verdict.splits prod.splits dest: claimRecord_same)

lemma find_local_same: "find_local E S j = (res, j', S') \<Longrightarrow> jf j' = jf j \<and> jdir j' = jdir j \<and> jstate j' = jstate j"
  by (auto simp: find_local_def split: option.splits dest: findLocal_same findLocalDir_same)

lemma finish_file_same:
  "finish_file E S j c = (final, j', S') \<Longrightarrow> jf j' = jf j \<and> jdir j' = jdir j \<and> jstate j' \<noteq> StateSeeding
     \<and> (final \<noteq> None \<longrightarrow> jstate j' = StateVerifying)"
  by (auto simp: finish_file_def Let_def fail_def split: option.splits if_splits prod.splits)

lemma finishDir_same:
  "finishDir E S j m b c = (final, j', S') \<Longrightarrow> jf j' = jf j \<and> jdir j' = jdir j \<and> jstate j' \<noteq> StateSeeding
     \<and> (final \<noteq> None \<longrightarrow> jstate j' = StateVerifying)"
  by (auto simp: finishDir_def Let_def fail_def split: option.splits if_splits prod.splits sums_result.splits)

lemmas move_defs = search_def prepare_def reserve_def addTorrent_def attached_def completed_def finish_def
  wind_up_def give_up_def go_def

lemma go_same [simp]:
  "rpt (go p r) = p" "rjob (go p r) = rjob r" "rtorrent (go p r) = rtorrent r" "owing (go p r) = owing r" "seen (go p r) = seen r"
  by (simp_all add: go_def)

lemma give_up_same [simp]:
  "rpt (give_up n k e r) = Ending" "rtorrent (give_up n k e r) = rtorrent r" "owing (give_up n k e r) = owing r"
  "seen (give_up n k e r) = seen r" "jf (rjob (give_up n k e r)) = jf (rjob r)" "jdir (rjob (give_up n k e r)) = jdir (rjob r)"
  by (simp_all add: give_up_def)

text \<open>A step changes the disk and the reservations of the node, by steps that \<open>Node\<close> has.\<close>

lemma reserveSpace_steps:
  assumes "reserveSpace alloc free n ih p sz = (b, n')"
  shows "node_step n n' \<and> table n' = table n \<and> next_job n' = next_job n \<and> closed n' = closed n \<and> nEnv n' = nEnv n \<and> ncat n' = ncat n"
proof -
  have "n' = snd (reserveSpace alloc free n ih p sz)" using assms by simp
  moreover have "table n' = table n \<and> next_job n' = next_job n \<and> closed n' = closed n \<and> nEnv n' = nEnv n \<and> ncat n' = ncat n"
    using assms by (auto simp: reserveSpace_def Let_def split: option.splits if_splits)
  ultimately show ?thesis using node_step.space by blast
qed

lemma releaseSpace_steps:
  "node_step n (releaseSpace n ih) \<and> table (releaseSpace n ih) = table n \<and> next_job (releaseSpace n ih) = next_job n
   \<and> closed (releaseSpace n ih) = closed n \<and> nio (releaseSpace n ih) = nio n \<and> nEnv (releaseSpace n ih) = nEnv n \<and> ncat (releaseSpace n ih) = ncat n"
  using node_step.unspace by (auto simp: releaseSpace_def)

definition io_steps :: "node \<Rightarrow> node \<Rightarrow> bool" where
  "io_steps n n' \<longleftrightarrow> node_step\<^sup>*\<^sup>* n n' \<and> table n' = table n \<and> next_job n' = next_job n \<and> closed n' = closed n \<and> nEnv n' = nEnv n \<and> ncat n' = ncat n"

lemma io_steps_intros:
  "io_steps n n" "io_steps n (n\<lparr>nio := S\<rparr>)" "io_steps n (releaseSpace n ih)" "io_steps n ((releaseSpace n ih)\<lparr>nio := S\<rparr>)"
  using releaseSpace_steps [of n ih] node_step.disk_io [of n S] node_step.disk_io [of "releaseSpace n ih" S]
  by (auto simp: io_steps_def intro: r_into_rtranclp rtranclp.rtrancl_into_rtrancl)

lemma io_steps_reserve:
  assumes "reserveSpace alloc free n ih p sz = (b, n')"
  shows "io_steps n n'" "io_steps n (n'\<lparr>nio := S\<rparr>)"
  using reserveSpace_steps [OF assms] node_step.disk_io [of n' S]
  by (auto simp: io_steps_def intro: r_into_rtranclp rtranclp.rtrancl_into_rtrancl)

lemma move_io: "move so pm ob n k p r = (n', r') \<Longrightarrow> io_steps n n'"
  by (cases "(so, pm, ob, n, k, p, r)" rule: move.cases)
    (auto simp: move_defs Let_def io_steps_intros intro: io_steps_reserve
      split: prod.splits option.splits bool.splits if_splits sum.splits)


lemma move_job:
  "move so pm ob n k p r = (n', r') \<Longrightarrow> jf (rjob r') = jf (rjob r) \<and> jdir (rjob r') = jdir (rjob r) \<and> seen r' = seen r"
  by (cases "(so, pm, ob, n, k, p, r)" rule: move.cases)
    (auto simp: search_def prepare_def reserve_def addTorrent_def attached_def completed_def finish_def wind_up_def stop_def Let_def
      split: prod.splits option.splits bool.splits if_splits sum.splits fetched.splits
      dest: find_local_same finish_file_same finishDir_same)

text \<open>The phases: a waiting job goes on only when its last predecessor is done, and does not fail; an
  active one stays active or is over; one that is over stays so.\<close>

lemma move_waiting:
  assumes "move so pm ob n k (Begin ws) r = (n', r')" "rpt r = Begin ws"
  shows "n' = n \<and> failed (rjob r') \<le> failed (rjob r)
     \<and> (rpt r' = Begin ws \<or> (\<exists>w us. ws = w # us \<and> kphase (table n w) = Finished \<and> rpt r' = Begin us)
        \<or> ws = [] \<and> phase_of (rpt r') = Active)"
  using assms by (cases ws) (auto split: if_splits)

lemma move_active:
  assumes "move so pm ob n k p r = (n', r')" "rpt r = p" "phase_of p = Active"
  shows "phase_of (rpt r') = Active \<or> p = Ending \<and> rpt r' = Over"
  using assms by (cases "(so, pm, ob, n, k, p, r)" rule: move.cases)
    (auto simp: search_def prepare_def reserve_def addTorrent_def attached_def completed_def finish_def wind_up_def Let_def
      split: prod.splits option.splits bool.splits if_splits sum.splits fetched.splits)

lemma move_over: "move so pm ob n k Over r = (n', r') \<Longrightarrow> n' = n \<and> r' = r"
  by simp

lemma phase_cases:
  obtains (wait) ws where "p = Begin ws" | (act) "phase_of p = Active" | (over) "p = Over"
  by (cases p) auto

section \<open>Lemmas: jobs as the node sees them\<close>

text \<open>What the node has on record of a job is what its goroutine is at.\<close>

definition run_ok :: "node \<Rightarrow> nat \<Rightarrow> run \<Rightarrow> bool" where
  "run_ok n k r \<longleftrightarrow> kphase (table n k) = phase_of (rpt r) \<and> (failed (rjob r) \<longrightarrow> kfailed (table n k)) \<and> jf (rjob r) = kf (table n k) \<and> jdir (rjob r) = kdir (table n k)
     \<and> (\<forall>ws. rpt r = Begin ws \<longrightarrow> \<not> failed (rjob r) \<and> (\<forall>w\<in>set (kwaits (table n k)). w \<in> set ws \<or> kphase (table n w) = Finished))"

definition sys_ok :: "sys \<Rightarrow> bool" where
  "sys_ok s \<longleftrightarrow> (\<forall>k<next_job (snode s). run_ok (snode s) k (sruns s k))"

lemma note_phase_fields [simp]:
  "next_job (note_phase k r n) = next_job n" "nio (note_phase k r n) = nio n" "reserved (note_phase k r n) = reserved n"
  "closed (note_phase k r n) = closed n" "nEnv (note_phase k r n) = nEnv n" "ncat (note_phase k r n) = ncat n"
  "kf (table (note_phase k r n) l) = kf (table n l)" "kdir (table (note_phase k r n) l) = kdir (table n l)" "kwaits (table (note_phase k r n) l) = kwaits (table n l)"
  "kstop (table (note_phase k r n) l) = kstop (table n l)" "kprune (table (note_phase k r n) l) = kprune (table n l)"
  "l \<noteq> k \<Longrightarrow> table (note_phase k r n) l = table n l"
  "kphase (table (note_phase k r n) k) = phase_of (rpt r)"
  "kfailed (table (note_phase k r n) k) \<longleftrightarrow> kfailed (table n k) \<or> failed (rjob r)"
  by (auto simp: note_phase_def)

lemma note_phase_idem:
  assumes "kphase (table n k) = phase_of (rpt r)" "failed (rjob r) \<longrightarrow> kfailed (table n k)"
  shows "note_phase k r n = n"
proof -
  have "(table n k)\<lparr>kphase := phase_of (rpt r), kfailed := kfailed (table n k) \<or> failed (rjob r)\<rparr> = table n k"
    using assms by (cases "table n k") auto
  then show ?thesis by (simp add: note_phase_def)
qed

lemma note_phase_steps:
  assumes k: "k < next_job n" and act: "kphase (table n k) = Active" and r: "phase_of (rpt r) \<in> {Active, Finished}"
  shows "node_step\<^sup>*\<^sup>* n (note_phase k r n)"
proof -
  let ?f = "\<lambda>n. if failed (rjob r) then n\<lparr>table := (table n)(k := (table n k)\<lparr>kfailed := True\<rparr>)\<rparr> else n"
  have 1: "node_step\<^sup>*\<^sup>* n (?f n)" using node_step.fail_job [OF k act] by auto
  have 2: "node_step\<^sup>*\<^sup>* (?f n) (if rpt r = Over then set_phase k Finished (?f n) else ?f n)"
    using node_step.end_job [of k "?f n"] k act by auto
  have ph: "phase_of (rpt r) = (if rpt r = Over then Finished else Active)" using r by (cases "rpt r") auto
  have "note_phase k r n = (if rpt r = Over then set_phase k Finished (?f n) else ?f n)"
  proof (cases "rpt r = Over \<or> failed (rjob r)")
    case True
    with act show ?thesis by (cases "table n k") (auto simp: note_phase_def set_phase_def ph)
  next
    case False
    with act ph have "note_phase k r n = n" by (intro note_phase_idem) auto
    with False show ?thesis by simp
  qed
  then show ?thesis using rtranclp_trans [OF 1 2] by (simp only:)
qed

lemma note_phase_begin:
  assumes k: "k < next_job n" and wait: "kphase (table n k) = Waiting" and r: "phase_of (rpt r) = Active" "\<not> failed (rjob r)"
    and fin: "\<forall>w\<in>set (kwaits (table n k)). kphase (table n w) = Finished"
  shows "node_step n (note_phase k r n)"
proof -
  have "note_phase k r n = set_phase k Active n" using r by (auto simp: note_phase_def set_phase_def)
  with node_step.begin_job [OF k wait fin] show ?thesis by simp
qed

lemma job_step_node:
  assumes k: "k < next_job n" and ok: "run_ok n k r" and st: "job_step so pm ob k (n, r) = (n', r')"
  shows "node_step\<^sup>*\<^sup>* n n'"
proof -
  obtain n1 r1 where m: "move so pm ob n k (rpt r) r = (n1, r1)" by force
  have n': "n' = note_phase k r1 n1" using st m by (simp add: job_step_def)
  have io: "io_steps n n1" using move_io [OF m] .
  show ?thesis
  proof (cases "rpt r" rule: phase_cases)
    case (wait ws)
    from move_waiting [OF m [unfolded wait] wait] have n1: "n1 = n" and f: "failed (rjob r1) \<le> failed (rjob r)"
      and c: "phase_of (rpt r1) = Waiting \<or> ws = [] \<and> phase_of (rpt r1) = Active" by auto
    from ok wait have w: "kphase (table n k) = Waiting" "\<not> failed (rjob r)"
      "\<forall>w\<in>set (kwaits (table n k)). w \<in> set ws \<or> kphase (table n w) = Finished" by (auto simp: run_ok_def)
    from c show ?thesis
    proof
      assume "phase_of (rpt r1) = Waiting"
      then have "note_phase k r1 n = n" using w f by (intro note_phase_idem) auto
      then show ?thesis by (simp add: n' n1)
    next
      assume "ws = [] \<and> phase_of (rpt r1) = Active"
      then show ?thesis using note_phase_begin [OF k w(1)] w f by (auto simp: n' n1)
    qed
  next
    case act
    then have "kphase (table n1 k) = Active" using ok io by (simp add: run_ok_def io_steps_def)
    moreover have "phase_of (rpt r1) \<in> {Active, Finished}" using move_active [OF m _ act] by auto
    ultimately show ?thesis using note_phase_steps [of k n1 r1] k io by (auto simp: n' io_steps_def)
  next
    case over
    then have "n1 = n" "r1 = r" using m by auto
    then show ?thesis using ok by (simp add: n' run_ok_def note_phase_idem)
  qed
qed

lemma job_step_ok:
  assumes ok: "run_ok n k r" and st: "job_step so pm ob k (n, r) = (n', r')"
  shows "run_ok n' k r'"
proof -
  obtain n1 r1 where m: "move so pm ob n k (rpt r) r = (n1, r1)" by force
  have n': "n' = note_phase k r1 n1" and r': "r' = r1\<lparr>seen := (run_env n ob, wd (nio n)) # seen r\<rparr>"
    using st m by (simp_all add: job_step_def)
  have t: "table n1 = table n" using move_io [OF m] by (simp add: io_steps_def)
  have jf: "jf (rjob r1) = jf (rjob r)" "jdir (rjob r1) = jdir (rjob r)" using move_job [OF m] by simp_all
  have "\<not> failed (rjob r1) \<and> (\<forall>w\<in>set (kwaits (table n k)). w \<in> set ws \<or> kphase (table n' w) = Finished)"
    if ws: "rpt r1 = Begin ws" for ws
  proof (cases "rpt r" rule: phase_cases)
    case (wait us)
    have fin: "kphase (table n' w) = Finished" if "kphase (table n w) = Finished" for w
      using that ok wait by (cases "w = k") (auto simp: n' t run_ok_def)
    from move_waiting [OF m [unfolded wait] wait] ws ok wait fin show ?thesis by (fastforce simp: run_ok_def)
  next
    case act
    from move_active [OF m _ act] ws show ?thesis by auto
  next
    case over
    then show ?thesis using m ws by simp
  qed
  then show ?thesis using ok jf by (auto simp: run_ok_def n' r' t)
qed

lemma job_step_other:
  assumes k: "run_ok n k r" and st: "job_step so pm ob k (n, r) = (n', r')" and l: "l \<noteq> k" and ok: "run_ok n l q"
  shows "run_ok n' l q"
proof -
  obtain n1 r1 where m: "move so pm ob n k (rpt r) r = (n1, r1)" by force
  have n': "n' = note_phase k r1 n1" using st m by (simp add: job_step_def)
  have t: "table n1 = table n" using move_io [OF m] by (simp add: io_steps_def)
  have fin: "kphase (table n' w) = Finished" if "kphase (table n w) = Finished" for w
  proof (cases "w = k")
    case True
    with that k have "rpt r = Over" by (cases "rpt r") (auto simp: run_ok_def)
    with m that True show ?thesis by (simp add: n')
  qed (use that in \<open>simp add: n' t\<close>)
  show ?thesis using ok l fin by (auto simp: run_ok_def n' t)
qed


section \<open>Lemmas: the node's operations leave running jobs alone\<close>

definition extends :: "node \<Rightarrow> node \<Rightarrow> bool" where
  "extends n n' \<longleftrightarrow> next_job n \<le> next_job n' \<and> reserved n' = reserved n \<and> nEnv n' = nEnv n
     \<and> (\<forall>k<next_job n. kphase (table n' k) = kphase (table n k) \<and> kfailed (table n' k) = kfailed (table n k)
          \<and> kf (table n' k) = kf (table n k) \<and> kdir (table n' k) = kdir (table n k) \<and> kwaits (table n' k) = kwaits (table n k))
     \<and> (\<forall>k. next_job n \<le> k \<and> k < next_job n' \<longrightarrow> kphase (table n' k) = Waiting)"

lemma extends_refl [simp]: "extends n n"
  by (auto simp: extends_def)

lemma extends_trans:
  assumes "extends n n'" "extends n' n''"
  shows "extends n n''"
proof -
  have "kphase (table n'' k) = Waiting" if "next_job n \<le> k" "k < next_job n''" for k
    using assms that unfolding extends_def by (cases "k < next_job n'") auto
  with assms show ?thesis unfolding extends_def by auto
qed

lemma extends_fold: "(\<And>n x. extends n (f n x)) \<Longrightarrow> extends n (foldl f n xs)"
  by (induction xs arbitrary: n) (auto intro: extends_trans)

lemma extends_retire: "extends n (retire_one c retry n jk)"
  by (auto simp: retire_one_def retireLocked_def Let_def extends_def split: prod.splits option.splits)

lemma extends_launch: "extends n (launch_one idx n mf)"
  by (auto simp: launch_one_def Let_def extends_def split: prod.splits)

lemma extends_nio: "extends n (n\<lparr>nio := S\<rparr>)"
  by (auto simp: extends_def)

lemma extends_reconcile: "extends n (snd (reconcileLocked retry idx n))"
proof -
  have "extends n (foldl (retire_one c retry) n js)" for c js by (rule extends_fold) (rule extends_retire)
  moreover have "extends m (pruneRecordedLocked f m)" for f m
    using pruneRecorded_nio [of f m] extends_nio by metis
  moreover have "extends m (foldl (launch_one i) m us)" for i m us by (rule extends_fold) (rule extends_launch)
  ultimately show ?thesis
    unfolding reconcileLocked_def Let_def by (auto split: option.splits) (meson extends_trans)+
qed

lemma node_op_extends: "node_op n n' \<Longrightarrow> extends n n'"
proof (induction rule: node_op.induct)
  case (op_catalog pm up c n)
  have "extends n (n\<lparr>ncat := Some c\<rparr>)" by (auto simp: extends_def)
  then show ?case unfolding SetCatalog_def using extends_reconcile extends_trans by blast
next
  case (op_ensure n i scan n')
  have "extends n (n\<lparr>extraWant := i # extraWant n\<rparr>)" by (auto simp: extends_def)
  with extends_reconcile [of "n\<lparr>extraWant := i # extraWant n\<rparr>" False None] op_ensure show ?case
    by (auto simp: Ensure_want_def split: option.splits if_splits intro: extends_trans)
next
  case (op_scanned n retry idx)
  show ?case by (rule extends_reconcile)
qed (auto simp: Close_def reap_def extends_def)

lemma node_op_step: "node_op n n' \<Longrightarrow> node_step n n'"
  by (induction rule: node_op.induct) (auto intro: node_step.intros)

section \<open>The system refines the node\<close>

lemma run_ok_extends:
  assumes "extends n n'" "k < next_job n" "run_ok n k r" "inv_waits n"
  shows "run_ok n' k r"
proof -
  have "w < next_job n" if "w \<in> set (kwaits (table n k))" for w
    using assms(2,4) that unfolding inv_waits_def waits_for_def by fastforce
  with assms(1-3) show ?thesis by (auto simp: run_ok_def extends_def)
qed

lemma run_ok_new: "extends n n' \<Longrightarrow> next_job n \<le> k \<Longrightarrow> k < next_job n' \<Longrightarrow> run_ok n' k (new_run n' k)"
  by (auto simp: run_ok_def new_run_def newJob_def failed_def extends_def)

lemma reachable_steps: "node_step\<^sup>*\<^sup>* n n' \<Longrightarrow> reachable n \<Longrightarrow> reachable n'"
  by (induction rule: rtranclp_induct) (auto intro: reachable.step)

lemma job_step_next:
  "job_step so pm ob k (n, r) = (n', r') \<Longrightarrow> next_job n' = next_job n"
  using move_io by (fastforce simp: job_step_def io_steps_def split: prod.splits)

lemma sys_step_ok:
  assumes "sys_step so pm s s'" "reachable (snode s)" "sys_ok s"
  shows "reachable (snode s') \<and> sys_ok s'"
  using assms
proof (induction rule: sys_step.induct)
  case (job_moves k s ob)
  obtain n' r' where st: "job_step so pm ob k (snode s, sruns s k) = (n', r')" by force
  have k: "run_ok (snode s) k (sruns s k)" using job_moves by (simp add: sys_ok_def)
  have "run_ok n' l (((sruns s)(k := r')) l)" if "l < next_job (snode s)" for l
    using job_step_ok [OF k st] job_step_other [OF k st] that job_moves.prems(2) by (auto simp: sys_ok_def)
  then show ?case
    using reachable_steps [OF job_step_node [OF job_moves.hyps(1) k st]] job_moves.prems(1) job_step_next [OF st] st
    by (simp add: with_job_step_def sys_ok_def)
next
  case (node_moves s n)
  have ext: "extends (snode s) n" using node_op_extends [OF node_moves.hyps] .
  have "inv_waits (snode s)" using reachable_inv [OF node_moves.prems(1)] by (simp add: node_inv_def)
  with run_ok_extends [OF ext] run_ok_new [OF ext] node_moves.prems(2) have "sys_ok (with_new_runs n s)"
    by (auto simp: sys_ok_def with_new_runs_def)
  with node_op_step [OF node_moves.hyps] node_moves.prems(1) show ?case
    by (auto simp: with_new_runs_def intro: reachable.step)
next
  case (peers_found s addrs)
  then show ?case by (auto simp: AddPeers_def sys_ok_def run_ok_def)
qed

lemma sys_reach_ok: "sys_reach so pm s \<Longrightarrow> reachable (snode s) \<and> sys_ok s"
proof (induction rule: sys_reach.induct)
  case (sys_start E wnt pr d w s)
  then have "next_job (snode s) = 0" by (auto simp: New_def split: option.splits dest!: sym [of _ "snode s"])
  with sys_start show ?case by (auto simp: sys_ok_def intro: reachable.start)
qed (use sys_step_ok in blast)


section \<open>Lemmas: a job's own invariant\<close>

text \<open>What a job once saw of a path it serves: a local copy that hashed to the catalog's sums, or its own
  finished download, hashed in \<open>.incoming\<close> (without the files that do not belong to the model) just
  before it was moved to its place.\<close>

definition vouched :: "job \<Rightarrow> path \<Rightarrow> jenv \<times> world \<Rightarrow> bool" where
  "vouched j p ew \<longleftrightarrow>
     (case ew of (E, w) \<Rightarrow>
        case jdir j of
          None \<Rightarrow> verified E w (SHA256 (jf j)) p \<or> p = dataPath E j \<and> hash_file E w (incomingPath E j) = Some (SHA256 (jf j))
        | Some m \<Rightarrow> dir_verified E w m p
            \<or> p = dataPath E j \<and> (\<exists>w'. pruneExtras w (incomingPath E j) (\<lambda>c. c \<in> set (map fName (Files m))) = (None, w')
                \<and> (\<forall>f\<in>set (Files m). hash_file E w' (join_rel (incomingPath E j) (fName f)) = Some (SHA256 f))))"

definition once_verified :: "run \<Rightarrow> path \<Rightarrow> bool" where
  "once_verified r p \<longleftrightarrow> (\<exists>ew\<in>set (seen r). vouched (rjob r) p ew)"

text \<open>Where a job downloads to.\<close>

definition landing :: "path \<Rightarrow> job \<Rightarrow> path" where
  "landing dd j = dd @ [''.incoming'', DiskName (jf j)]"

fun point_ok :: "path \<Rightarrow> run \<Rightarrow> point \<Rightarrow> bool" where
  "point_ok dd r (Fetching p d delay) \<longleftrightarrow> rtorrent r = None \<and> (if d then p = landing dd (rjob r) else once_verified r p) \<and> firstDelay \<le> delay \<and> delay \<le> maxDelay"
| "point_ok dd r (Backoff p d delay) \<longleftrightarrow> rtorrent r = None \<and> (if d then p = landing dd (rjob r) else once_verified r p) \<and> firstDelay \<le> delay \<and> delay \<le> maxDelay"
| "point_ok dd r (Checking p) \<longleftrightarrow> (\<exists>t. rtorrent r = Some t \<and> tPath t = p \<and> \<not> tDownload t)"
| "point_ok dd r (Seeding p) \<longleftrightarrow> (\<exists>t. rtorrent r = Some t \<and> tPath t = p \<and> \<not> tDownload t) \<and> jstate (rjob r) = StateSeeding \<and> jpath (rjob r) = Some p"
| "point_ok dd r Downloading \<longleftrightarrow> (\<exists>t. rtorrent r = Some t \<and> tDownload t)"
| "point_ok dd r Ending \<longleftrightarrow> True"
| "point_ok dd r _ \<longleftrightarrow> rtorrent r = None"

definition torrent_ok :: "path \<Rightarrow> run \<Rightarrow> bool" where
  "torrent_ok dd r \<longleftrightarrow> (\<forall>t. rtorrent r = Some t \<longrightarrow>
     tInfoHash t = fInfoHash (jf (rjob r)) \<and> (if tDownload t then tPath t = landing dd (rjob r) else once_verified r (tPath t)))"

definition seeding_ok :: "run \<Rightarrow> bool" where
  "seeding_ok r \<longleftrightarrow> (jstate (rjob r) = StateSeeding \<longrightarrow>
     (\<exists>p. rpt r = Seeding p) \<or> rpt r \<in> {Ending, Over} \<and> (\<exists>p. jpath (rjob r) = Some p \<and> once_verified r p))"

definition run_inv :: "path \<Rightarrow> run \<Rightarrow> bool" where
  "run_inv dd r \<longleftrightarrow> point_ok dd r (rpt r) \<and> torrent_ok dd r \<and> seeding_ok r"

text \<open>What a step sees only adds to what was seen, and the facts of the job that matter stay.\<close>

lemma vouched_cong: "jf j' = jf j \<Longrightarrow> jdir j' = jdir j \<Longrightarrow> vouched j' p ew = vouched j p ew"
  by (auto simp: vouched_def dataPath_def incomingPath_def incomingDir_def split: option.splits prod.splits)

lemma once_verified_mono:
  assumes "once_verified r p" "set (seen r) \<subseteq> set (seen r')" "jf (rjob r') = jf (rjob r)" "jdir (rjob r') = jdir (rjob r)"
  shows "once_verified r' p"
  using assms vouched_cong [OF assms(3,4)] by (auto simp: once_verified_def)

lemma landing_cong: "jf j' = jf j \<Longrightarrow> landing dd j' = landing dd j"
  by (simp add: landing_def)

lemma run_env_same [simp]:
  "dataDir (run_env n ob) = dataDir (nEnv n)" "codec (run_env n ob) = codec (nEnv n)" "cat (run_env n ob) = ncat n"
  by (simp_all add: run_env_def)

lemma incoming_landing: "incomingPath (run_env n ob) j = landing (dataDir (nEnv n)) j"
  by (simp add: incomingPath_def incomingDir_def landing_def)

lemma find_local_vouched:
  assumes "find_local E S j = (Inr (Some p, dps), j', S')"
  shows "vouched j p (E, wd S)"
  using assms findLocal_sound [of E S j "Some p" dps j' S'] findLocalDir_sound [of E S j _ "Some p" dps j' S']
  by (auto simp: find_local_def vouched_def copies_def split: option.splits)

lemma hash_all_Sums: "hash_all E w root fs = Sums xs \<Longrightarrow> \<forall>f\<in>set fs. hash_file E w (join_rel root (fName f)) = Some (SHA256 f)"
  by (induction fs arbitrary: xs) (auto simp: Let_def split: option.splits if_splits sums_result.splits)

lemma finish_file_vouched:
  assumes "finish_file E S j c = (Some p, j', S')" "jdir j = None"
  shows "vouched j p (E, wd S)"
  using assms by (auto simp: finish_file_def Let_def vouched_def dataPath_def incomingPath_def incomingDir_def
      split: option.splits if_splits prod.splits)

lemma finishDir_vouched:
  assumes "finishDir E S j m b c = (Some p, j', S')" "jdir j = Some m"
  shows "vouched j p (E, wd S)"
  using assms hash_all_Sums [of E _ "incomingPath E j" "Files m"]
  by (auto simp: finishDir_def Let_def vouched_def dataPath_def incomingPath_def incomingDir_def
      split: option.splits if_splits prod.splits sums_result.splits)


definition watch :: "jenv \<times> world \<Rightarrow> run \<Rightarrow> run" where
  "watch ew r = r\<lparr>seen := ew # seen r\<rparr>"

lemma once_verified_upd [simp]:
  "once_verified (r\<lparr>rpt := x\<rparr>) p = once_verified r p" "once_verified (r\<lparr>rtorrent := t\<rparr>) p = once_verified r p"
  "once_verified (r\<lparr>owing := b\<rparr>) p = once_verified r p" "once_verified (go x r) p = once_verified r p"
  by (simp_all add: once_verified_def go_def)

lemma once_verified_job [simp]:
  "jf j = jf (rjob r) \<Longrightarrow> jdir j = jdir (rjob r) \<Longrightarrow> once_verified (r\<lparr>rjob := j\<rparr>) p = once_verified r p"
  using vouched_cong [of j "rjob r"] by (auto simp: once_verified_def)

lemma landing_job [simp]:
  "landing dd (set_state s q e j) = landing dd j" "landing dd (fail b err j) = landing dd j"
  "landing dd (j\<lparr>noSpace := c\<rparr>) = landing dd j" "landing dd (stop pr j) = landing dd j"
  by (simp_all add: landing_def stop_def)

lemma stop_same [simp]: "jf (stop pr j) = jf j" "jdir (stop pr j) = jdir j" "jstate (stop pr j) = jstate j" "jpath (stop pr j) = jpath j"
  by (simp_all add: stop_def)

lemma point_ok_mono:
  assumes "point_ok dd r p" "\<And>q. once_verified r q \<Longrightarrow> once_verified r' q"
    and "rtorrent r' = rtorrent r" "jf (rjob r') = jf (rjob r)" "jstate (rjob r') = jstate (rjob r)" "jpath (rjob r') = jpath (rjob r)"
  shows "point_ok dd r' p"
  using assms landing_cong [of "rjob r'" "rjob r"] by (cases p) (auto split: if_splits)

lemma watch_inv: "run_inv dd r \<Longrightarrow> run_inv dd (watch ew r)"
proof -
  assume inv: "run_inv dd r"
  have mono: "once_verified (watch ew r) q" if "once_verified r q" for q
    using that by (auto simp: once_verified_def watch_def)
  have "point_ok dd (watch ew r) (rpt r)"
    using inv point_ok_mono [of dd r "rpt r" "watch ew r"] mono by (simp add: run_inv_def watch_def)
  with inv mono show ?thesis
    by (auto simp: run_inv_def torrent_ok_def seeding_ok_def watch_def split: if_splits)
qed

text \<open>A job that gives up, or is told to end, keeps what it had.\<close>

lemma ending_inv:
  assumes "run_inv dd r" "rpt r \<noteq> Over"
  shows "run_inv dd (go Ending r)" "run_inv dd (give_up n k e r)"
proof -
  have t: "torrent_ok dd r" and s: "seeding_ok r" and p: "point_ok dd r (rpt r)" using assms by (auto simp: run_inv_def)
  have verified: "\<exists>p. jpath (rjob r) = Some p \<and> once_verified r p" if "jstate (rjob r) = StateSeeding"
    using s t p that by (auto simp: seeding_ok_def torrent_ok_def)
  then show "run_inv dd (go Ending r)" using t by (auto simp: run_inv_def torrent_ok_def seeding_ok_def go_def)
  have "torrent_ok dd (give_up n k e r)" using t by (auto simp: torrent_ok_def give_up_def)
  moreover have "seeding_ok (give_up n k e r)"
    using verified by (auto simp: seeding_ok_def give_up_def fail_def)
  ultimately show "run_inv dd (give_up n k e r)" by (simp add: run_inv_def)
qed

lemma give_up_not_seeding [simp]: "jstate (rjob r) \<noteq> StateSeeding \<Longrightarrow> jstate (rjob (give_up n k e r)) \<noteq> StateSeeding"
  by (auto simp: give_up_def fail_def)

text \<open>A point without a torrent.\<close>

lemma plain_inv:
  assumes "rtorrent r' = None" "point_ok dd r' (rpt r')" "jstate (rjob r') \<noteq> StateSeeding"
  shows "run_inv dd r'"
  using assms by (auto simp: run_inv_def torrent_ok_def seeding_ok_def)

lemma not_seeding:
  "run_inv dd r \<Longrightarrow> (\<And>p. rpt r \<noteq> Seeding p) \<Longrightarrow> rpt r \<noteq> Ending \<Longrightarrow> rpt r \<noteq> Over \<Longrightarrow> jstate (rjob r) \<noteq> StateSeeding"
  by (auto simp: run_inv_def seeding_ok_def)

lemma addTorrent_inv:
  assumes inv: "run_inv dd r" and pt: "rpt r = Fetching p d delay"
    and src: "\<And>ih info. oFetch ob = Fetched ih info \<Longrightarrow> ih = fInfoHash (jf (rjob r))"
  shows "run_inv dd (addTorrent pm ob n k p d delay r)"
proof -
  have none: "rtorrent r = None" and ok: "if d then p = landing dd (rjob r) else once_verified r p" "firstDelay \<le> delay" "delay \<le> maxDelay"
    using inv pt by (auto simp: run_inv_def)
  have up: "run_inv dd (give_up n k e r)" for e using ending_inv(2) [OF inv] pt by simp
  have wait: "run_inv dd (r\<lparr>rjob := set_state StateQueued None m (rjob r), rpt := Backoff p d delay\<rparr>)" for m
    using plain_inv [of "r\<lparr>rjob := set_state StateQueued None m (rjob r), rpt := Backoff p d delay\<rparr>"] ok none
    by (auto split: if_splits)
  have att: "run_inv dd (attached p d (new_torrent (fInfoHash (jf (rjob r))) p d trs ws prs) r)" for trs ws prs
    using ok by (auto simp: attached_def new_torrent_def run_inv_def torrent_ok_def seeding_ok_def split: if_splits)
  show ?thesis
    using up wait att src by (auto simp: addTorrent_def split: sum.splits fetched.splits option.splits)
qed


lemma search_inv:
  assumes inv: "run_inv dd r" and pt: "rpt r = Searching" and st: "search so ob n k r = (n', r')"
  shows "run_inv dd (watch (run_env n ob, wd (nio n)) r')"
proof -
  obtain res j S where f: "find_local (run_env n ob) (nio n) (rjob r) = (res, j, S)" by (metis prod_cases3)
  have same: "jf j = jf (rjob r)" "jdir j = jdir (rjob r)" "jstate j = jstate (rjob r)" using find_local_same [OF f] by auto
  have none: "rtorrent r = None" and ns: "jstate (rjob r) \<noteq> StateSeeding"
    using inv pt not_seeding [OF inv] by (auto simp: run_inv_def)
  have up: "run_inv dd (give_up n k e (r\<lparr>rjob := j\<rparr>))" for e
    by (rule ending_inv) (use none ns same pt in \<open>auto intro!: plain_inv\<close>)
  show ?thesis
  proof (cases res)
    case (Inl e)
    then show ?thesis using st f up watch_inv by (auto simp: search_def)
  next
    case (Inr fd)
    then obtain found dps where res: "res = Inr (found, dps)" by (cases fd) auto
    show ?thesis
    proof (cases found)
      case None
      then show ?thesis
        using st f res none ns same
        by (auto simp: search_def Let_def watch_def intro!: plain_inv split: if_splits)
    next
      case (Some p)
      have v: "vouched (rjob r) p (run_env n ob, wd (nio n))" using find_local_vouched f res Some by blast
      define j' where "j' = (if dps \<noteq> [] then j\<lparr>dups := dps\<rparr> else j)"
      have j': "jf j' = jf (rjob r)" "jdir j' = jdir (rjob r)" "jstate j' = jstate (rjob r)"
        using same by (auto simp: j'_def)
      have r': "r' = r\<lparr>rjob := j', rpt := Fetching p False firstDelay\<rparr>"
        using st f res Some by (simp add: search_def j'_def)
      have "once_verified (watch (run_env n ob, wd (nio n)) r') p"
        using v vouched_cong [OF j'(1,2)] by (auto simp: once_verified_def watch_def r')
      then show ?thesis
        using none ns j' by (intro plain_inv) (auto simp: r' watch_def firstDelay_def maxDelay_def)
    qed
  qed
qed

lemma finish_inv:
  assumes inv: "run_inv dd r" and pt: "rpt r = Finishing c" and st: "finish ob n k c r = (n', r')"
  shows "run_inv dd (watch (run_env n ob, wd (nio n)) r')"
proof -
  let ?E = "run_env n ob" and ?j = "rjob r"
  obtain final j S where f: "(case jdir ?j of None \<Rightarrow> finish_file ?E (nio n) ?j c
      | Some m \<Rightarrow> finishDir ?E (nio n) ?j m (ctx_done n k) c) = (final, j, S)" by (metis prod_cases3)
  have j: "jf j = jf ?j" "jdir j = jdir ?j" "jstate j \<noteq> StateSeeding"
    using f finish_file_same finishDir_same by (auto split: option.splits)
  have none: "rtorrent r = None" using inv pt by (simp add: run_inv_def)
  have r': "r' = r\<lparr>rjob := j, rpt := (case final of None \<Rightarrow> Ending | Some p \<Rightarrow> Fetching p False firstDelay)\<rparr>"
    using st f by (auto simp: finish_def Let_def)
  have "once_verified (watch (?E, wd (nio n)) r') p" if "final = Some p" for p
  proof -
    have "vouched ?j p (?E, wd (nio n))"
      using f that by (auto split: option.splits intro: finish_file_vouched finishDir_vouched)
    then show ?thesis using vouched_cong [OF j(1,2)] by (auto simp: once_verified_def watch_def r')
  qed
  then show ?thesis
    using none j by (intro plain_inv) (auto simp: r' watch_def firstDelay_def maxDelay_def split: option.splits)
qed

lemma reserve_inv:
  assumes "run_inv dd r" "rpt r = Reserving" "dd = dataDir (nEnv n)" "reserve ob n k r = (n', r')"
  shows "run_inv dd r'"
proof -
  have none: "rtorrent r = None" and ns: "jstate (rjob r) \<noteq> StateSeeding"
    using assms(1,2) not_seeding [OF assms(1)] by (auto simp: run_inv_def)
  have up: "run_inv dd (give_up n k e (r\<lparr>rjob := (rjob r)\<lparr>noSpace := False\<rparr>, owing := True\<rparr>))" for e
    by (rule ending_inv) (use none ns assms(2) in \<open>auto intro!: plain_inv\<close>)
  show ?thesis
    using assms(3,4) none ns up
    by (auto simp: reserve_def Let_def incoming_landing firstDelay_def maxDelay_def
        split: prod.splits bool.splits option.splits intro!: plain_inv)
qed

lemma step_inv:
  assumes inv: "run_inv dd r" and dd: "dd = dataDir (nEnv n)" and st: "move so pm ob n k (rpt r) r = (n', r')"
    and src: "\<And>ih info. oFetch ob = Fetched ih info \<Longrightarrow> ih = fInfoHash (jf (rjob r))"
    and pt: "rpt r \<noteq> Searching" "\<And>c. rpt r \<noteq> Finishing c"
  shows "run_inv dd r'"
proof (cases "rpt r")
  case Reserving
  with reserve_inv [OF inv _ dd] st show ?thesis by simp
next
  case (Fetching p d delay)
  with addTorrent_inv [OF inv _ src] st show ?thesis by auto
next
  case (Checking p)
  then show ?thesis using inv st ending_inv(1) [OF inv]
    by (auto simp: run_inv_def torrent_ok_def seeding_ok_def split: if_splits)
next
  case Ending
  then show ?thesis using inv st by (auto simp: wind_up_def Let_def run_inv_def torrent_ok_def seeding_ok_def)
next
  case Preparing
  then show ?thesis using inv st ending_inv(2) [OF inv] not_seeding [OF inv]
    by (auto simp: prepare_def run_inv_def [of _ r] intro!: plain_inv split: option.splits prod.splits)
next
  case (Begin ws)
  then show ?thesis using inv st ending_inv(1) [OF inv] not_seeding [OF inv]
    by (cases ws) (auto simp: run_inv_def [of _ r] intro!: plain_inv split: if_splits)
next
  case (Backoff p d delay)
  have ns: "jstate (rjob r) \<noteq> StateSeeding" using not_seeding [OF inv] Backoff by auto
  have "run_inv dd (go (Fetching p d (min (delay * 2) maxDelay)) r)"
    by (rule plain_inv) (use inv ns Backoff in \<open>auto simp: run_inv_def firstDelay_def maxDelay_def\<close>)
  then show ?thesis using Backoff inv st ending_inv(1) [OF inv] by (auto split: if_splits)
next
  case Downloading
  then show ?thesis using inv st ending_inv(1) [OF inv]
    by (auto simp: completed_def intro!: plain_inv split: if_splits)
next
  case Paused
  then show ?thesis using inv st ending_inv(1) [OF inv] not_seeding [OF inv]
    by (auto simp: run_inv_def [of _ r] intro!: plain_inv split: if_splits)
next
  case (Seeding p)
  then show ?thesis using inv st ending_inv(1) [OF inv] by (auto split: if_splits)
qed (use inv st pt in auto)

lemma move_inv:
  assumes "run_inv dd r" "dd = dataDir (nEnv n)" "move so pm ob n k (rpt r) r = (n', r')"
    and "\<And>ih info. oFetch ob = Fetched ih info \<Longrightarrow> ih = fInfoHash (jf (rjob r))"
  shows "run_inv dd (watch (run_env n ob, wd (nio n)) r')"
proof -
  consider "rpt r = Searching" | c where "rpt r = Finishing c" | "rpt r \<noteq> Searching" "\<And>c. rpt r \<noteq> Finishing c" by blast
  then show ?thesis
  proof cases
    case 1
    with search_inv [OF assms(1)] assms(3) show ?thesis by simp
  next
    case 2
    with finish_inv [OF assms(1)] assms(3) show ?thesis by simp
  next
    case 3
    show ?thesis by (rule watch_inv, rule step_inv [OF assms(1-3)]) (use assms(4) 3 in auto)
  qed
qed


section \<open>Lemmas: reservations\<close>

text \<open>From the admission of a download to its last byte.\<close>

fun holding :: "point \<Rightarrow> bool" where
  "holding (Fetching _ d _) = d"
| "holding (Backoff _ d _) = d"
| "holding Downloading = True"
| "holding _ = False"

lemma holding_active: "holding p \<Longrightarrow> phase_of p = Active"
  by (cases p) auto

lemma releaseSpace_reserved: "reserved (releaseSpace n ih) = filter (\<lambda>(k, _). k \<noteq> ih) (reserved n)"
proof (cases "map_of (reserved n) ih")
  case None
  then have "filter (\<lambda>(k, _). k \<noteq> ih) (reserved n) = reserved n"
    by (auto simp: map_of_eq_None_iff filter_id_conv image_iff split: prod.splits)
  with None show ?thesis by (simp add: releaseSpace_def)
qed (simp add: releaseSpace_def)

lemma reserveSpace_reserved:
  assumes "reserveSpace alloc free n ih p sz = (b, n')"
  shows "if b then reserved n' = (ih, \<lparr>rPath = p, rSize = sz\<rparr>) # filter (\<lambda>(k, _). k \<noteq> ih) (reserved n) else n' = n"
  using assms by (auto simp: reserveSpace_def Let_def split: option.splits if_splits)

lemma completed_reserved:
  "completed ob n r = (n', r') \<Longrightarrow> reserved n' = filter (\<lambda>(k, _). k \<noteq> fInfoHash (jf (rjob r))) (reserved n)
     \<and> \<not> holding (rpt r') \<and> owing r' = owing r \<and> rpt r' \<noteq> Over"
  by (auto simp: completed_def releaseSpace_reserved)

lemma wind_up_reserved:
  "wind_up ob n k r = (n', r') \<Longrightarrow> reserved n' = (if owing r then filter (\<lambda>(k, _). k \<noteq> fInfoHash (jf (rjob r))) (reserved n) else reserved n)
     \<and> \<not> holding (rpt r') \<and> \<not> owing r'"
  by (auto simp: wind_up_def Let_def releaseSpace_reserved)

lemma reserve_reserved:
  assumes "reserve ob n k r = (n', r')" "rpt r = Reserving"
  shows "(reserved n' = reserved n \<and> owing r' = owing r \<and> \<not> holding (rpt r') \<and> rpt r' \<noteq> Over)
    \<or> reserved n' = (fInfoHash (jf (rjob r)), \<lparr>rPath = landing (dataDir (nEnv n)) (rjob r), rSize = fSize (jf (rjob r))\<rparr>)
          # filter (\<lambda>(k, _). k \<noteq> fInfoHash (jf (rjob r))) (reserved n) \<and> owing r' \<and> rpt r' \<noteq> Over"
proof -
  obtain b m where rs: "reserveSpace (oAlloc ob) (oFree ob) n (fInfoHash (jf (rjob r)))
      (incomingPath (run_env n ob) (rjob r)) (fSize (jf (rjob r))) = (b, m)" by force
  from reserveSpace_reserved [OF rs] assms rs show ?thesis
    by (cases b) (auto simp: reserve_def Let_def incoming_landing split: prod.splits option.splits)
qed

lemma move_reserved_same:
  assumes st: "move so pm ob n k (rpt r) r = (n', r')" and pt: "rpt r \<noteq> Reserving" "rpt r \<noteq> Downloading" "rpt r \<noteq> Ending"
  shows "reserved n' = reserved n \<and> owing r' = owing r \<and> (holding (rpt r') \<longrightarrow> holding (rpt r)) \<and> (rpt r' = Over \<longrightarrow> rpt r = Over)"
proof (cases "rpt r")
  case (Begin ws)
  with st show ?thesis by (cases ws) (auto split: if_splits)
next
  case Searching
  with st show ?thesis by (auto simp: search_def Let_def split: prod.splits sum.splits option.splits if_splits)
next
  case Preparing
  with st show ?thesis by (auto simp: prepare_def split: prod.splits option.splits)
next
  case (Fetching p d delay)
  with st show ?thesis by (auto simp: addTorrent_def attached_def split: sum.splits fetched.splits if_splits)
next
  case (Finishing c)
  with st show ?thesis by (auto simp: finish_def Let_def split: prod.splits option.splits)
qed (use st pt in \<open>auto split: if_splits\<close>)

text \<open>The three ways a step can treat the reservations.\<close>

lemma move_reserved:
  assumes st: "move so pm ob n k (rpt r) r = (n', r')" and ow: "owing r \<longrightarrow> rpt r \<noteq> Over"
  obtains (same) "reserved n' = reserved n" "owing r' = owing r" "holding (rpt r') \<longrightarrow> holding (rpt r)" "owing r' \<longrightarrow> rpt r' \<noteq> Over"
  | (released) "reserved n' = filter (\<lambda>(k, _). k \<noteq> fInfoHash (jf (rjob r))) (reserved n)" "\<not> holding (rpt r')"
      "owing r' \<longrightarrow> rpt r' \<noteq> Over" "phase_of (rpt r) = Active"
  | (admitted) "reserved n' = (fInfoHash (jf (rjob r)), \<lparr>rPath = landing (dataDir (nEnv n)) (rjob r), rSize = fSize (jf (rjob r))\<rparr>)
          # filter (\<lambda>(k, _). k \<noteq> fInfoHash (jf (rjob r))) (reserved n)" "owing r'" "rpt r' \<noteq> Over" "phase_of (rpt r) = Active"
proof (cases "rpt r")
  case Reserving
  with st have "reserve ob n k r = (n', r')" by simp
  from reserve_reserved [OF this Reserving] same admitted Reserving show ?thesis by auto
next
  case Downloading
  show ?thesis
  proof (cases "oComplete ob")
    case True
    with st Downloading have "completed ob n r = (n', r')" by simp
    from completed_reserved [OF this] Downloading released show ?thesis by auto
  next
    case False
    with st Downloading same ow show ?thesis by (auto split: if_splits)
  qed
next
  case Ending
  with st have "wind_up ob n k r = (n', r')" by simp
  from wind_up_reserved [OF this] Ending same released show ?thesis by (cases "owing r") auto
qed (use move_reserved_same [OF st] same ow in simp_all)

definition reserved_ok :: "sys \<Rightarrow> bool" where
  "reserved_ok s \<longleftrightarrow>
     (\<forall>(ih, v)\<in>set (reserved (snode s)). \<exists>k<next_job (snode s). owing (sruns s k) \<and> fInfoHash (jf (rjob (sruns s k))) = ih)
   \<and> (\<forall>k<next_job (snode s). owing (sruns s k) \<longrightarrow> phase_of (rpt (sruns s k)) = Active)
   \<and> (\<forall>k<next_job (snode s). holding (rpt (sruns s k)) \<longrightarrow>
        map_of (reserved (snode s)) (fInfoHash (jf (rjob (sruns s k)))) =
          Some \<lparr>rPath = landing (dataDir (nEnv (snode s))) (rjob (sruns s k)), rSize = fSize (jf (rjob (sruns s k)))\<rparr>)"


lemma reserved_okD:
  assumes "reserved_ok s"
  shows "(ih, v) \<in> set (reserved (snode s)) \<Longrightarrow> \<exists>k<next_job (snode s). owing (sruns s k) \<and> fInfoHash (jf (rjob (sruns s k))) = ih"
    and "k < next_job (snode s) \<Longrightarrow> owing (sruns s k) \<Longrightarrow> phase_of (rpt (sruns s k)) = Active"
    and "k < next_job (snode s) \<Longrightarrow> holding (rpt (sruns s k)) \<Longrightarrow>
        map_of (reserved (snode s)) (fInfoHash (jf (rjob (sruns s k)))) =
          Some \<lparr>rPath = landing (dataDir (nEnv (snode s))) (rjob (sruns s k)), rSize = fSize (jf (rjob (sruns s k)))\<rparr>"
  using assms unfolding reserved_ok_def by blast+

lemma sys_okD:
  assumes "sys_ok s" "k < next_job (snode s)"
  shows "kphase (table (snode s) k) = phase_of (rpt (sruns s k))" "jf (rjob (sruns s k)) = kf (table (snode s) k)"
    "jdir (rjob (sruns s k)) = kdir (table (snode s) k)"
  using assms by (auto simp: sys_ok_def run_ok_def)

text \<open>A job's step in the system: what is left of the node and of the other jobs.\<close>

lemma with_job_step_parts:
  assumes "with_job_step so pm ob k s = s'"
  obtains n1 r1 where "move so pm ob (snode s) k (rpt (sruns s k)) (sruns s k) = (n1, r1)"
    "snode s' = note_phase k r1 n1" "sruns s' = (sruns s)(k := watch (run_env (snode s) ob, wd (nio (snode s))) r1)"
    "next_job n1 = next_job (snode s)" "nEnv n1 = nEnv (snode s)" "seen r1 = seen (sruns s k)"
    "jf (rjob r1) = jf (rjob (sruns s k))"
proof -
  obtain n1 r1 where m: "move so pm ob (snode s) k (rpt (sruns s k)) (sruns s k) = (n1, r1)" by force
  have io: "io_steps (snode s) n1" and job: "seen r1 = seen (sruns s k)" "jf (rjob r1) = jf (rjob (sruns s k))"
    using move_io [OF m] move_job [OF m] by auto
  have "s' = s\<lparr>snode := note_phase k r1 n1, sruns := (sruns s)(k := watch (run_env (snode s) ob, wd (nio (snode s))) r1)\<rparr>"
    using assms m job by (auto simp: with_job_step_def job_step_def watch_def)
  with m io job show ?thesis by (intro that [of n1 r1]) (simp_all add: io_steps_def)
qed

lemma reserved_okI:
  assumes "\<And>ih v. (ih, v) \<in> set (reserved (snode s)) \<Longrightarrow> \<exists>k<next_job (snode s). owing (sruns s k) \<and> fInfoHash (jf (rjob (sruns s k))) = ih"
    and "\<And>k. k < next_job (snode s) \<Longrightarrow> owing (sruns s k) \<Longrightarrow> phase_of (rpt (sruns s k)) = Active"
    and "\<And>k. k < next_job (snode s) \<Longrightarrow> holding (rpt (sruns s k)) \<Longrightarrow>
        map_of (reserved (snode s)) (fInfoHash (jf (rjob (sruns s k)))) =
          Some \<lparr>rPath = landing (dataDir (nEnv (snode s))) (rjob (sruns s k)), rSize = fSize (jf (rjob (sruns s k)))\<rparr>"
  shows "reserved_ok s"
  using assms unfolding reserved_ok_def by blast

text \<open>After a step of job \<open>k\<close> that leaves it at \<open>r1\<close> and the reservations at \<open>rs\<close>.\<close>

lemma reserved_ok_update:
  assumes res: "reserved_ok s" and k: "k < next_job (snode s)"
    and s': "next_job (snode s') = next_job (snode s)" "dataDir (nEnv (snode s')) = dataDir (nEnv (snode s))"
      "sruns s' = (sruns s)(k := r1)" "jf (rjob r1) = jf (rjob (sruns s k))"
    and entries: "\<And>ih v. (ih, v) \<in> set (reserved (snode s')) \<Longrightarrow>
      (ih, v) \<in> set (reserved (snode s)) \<and> (ih = fInfoHash (jf (rjob (sruns s k))) \<longrightarrow> (owing (sruns s k) \<longrightarrow> owing r1))
      \<or> ih = fInfoHash (jf (rjob (sruns s k))) \<and> owing r1"
    and act: "owing r1 \<Longrightarrow> phase_of (rpt r1) = Active"
    and others: "\<And>l. l < next_job (snode s) \<Longrightarrow> l \<noteq> k \<Longrightarrow> holding (rpt (sruns s l)) \<Longrightarrow>
      map_of (reserved (snode s')) (fInfoHash (jf (rjob (sruns s l)))) = map_of (reserved (snode s)) (fInfoHash (jf (rjob (sruns s l))))"
    and self: "holding (rpt r1) \<Longrightarrow> map_of (reserved (snode s')) (fInfoHash (jf (rjob (sruns s k)))) =
      Some \<lparr>rPath = landing (dataDir (nEnv (snode s))) (rjob (sruns s k)), rSize = fSize (jf (rjob (sruns s k)))\<rparr>"
  shows "reserved_ok s'"
proof (rule reserved_okI)
  show "\<exists>l<next_job (snode s'). owing (sruns s' l) \<and> fInfoHash (jf (rjob (sruns s' l))) = ih" if "(ih, v) \<in> set (reserved (snode s'))" for ih v
    using entries [OF that]
  proof
    assume *: "(ih, v) \<in> set (reserved (snode s)) \<and> (ih = fInfoHash (jf (rjob (sruns s k))) \<longrightarrow> (owing (sruns s k) \<longrightarrow> owing r1))"
    then obtain l where "l < next_job (snode s)" "owing (sruns s l)" "fInfoHash (jf (rjob (sruns s l))) = ih"
      using reserved_okD(1) [OF res] by blast
    with * show ?thesis by (intro exI [of _ l]) (auto simp: s')
  qed (use k in \<open>auto simp: s' intro!: exI [of _ k]\<close>)
  show "phase_of (rpt (sruns s' l)) = Active" if "l < next_job (snode s')" "owing (sruns s' l)" for l
    using that act reserved_okD(2) [OF res] by (auto simp: s' split: if_splits)
  show "map_of (reserved (snode s')) (fInfoHash (jf (rjob (sruns s' l)))) =
      Some \<lparr>rPath = landing (dataDir (nEnv (snode s'))) (rjob (sruns s' l)), rSize = fSize (jf (rjob (sruns s' l)))\<rparr>"
    if "l < next_job (snode s')" "holding (rpt (sruns s' l))" for l
    using that self others [of l] reserved_okD(3) [OF res, of l] landing_cong [OF s'(4)] by (cases "l = k") (auto simp: s')
qed

lemma job_step_reserved_ok:
  assumes reach: "reachable (snode s)" and ok: "sys_ok s" and res: "reserved_ok s" and k: "k < next_job (snode s)"
  shows "reserved_ok (with_job_step so pm ob k s)"
proof -
  obtain n1 r1 where m: "move so pm ob (snode s) k (rpt (sruns s k)) (sruns s k) = (n1, r1)"
    and s': "snode (with_job_step so pm ob k s) = note_phase k r1 n1"
      "sruns (with_job_step so pm ob k s) = (sruns s)(k := watch (run_env (snode s) ob, wd (nio (snode s))) r1)"
    and same: "next_job n1 = next_job (snode s)" "nEnv n1 = nEnv (snode s)" "jf (rjob r1) = jf (rjob (sruns s k))"
    using with_job_step_parts [OF refl] by metis
  have ow: "owing (sruns s k) \<longrightarrow> rpt (sruns s k) \<noteq> Over" using reserved_okD(2) [OF res k] by auto
  have act: "phase_of (rpt r1) = Active" if "owing r1 \<longrightarrow> rpt r1 \<noteq> Over" "owing r1" "phase_of (rpt (sruns s k)) = Active"
    using move_active [OF m] that by auto
  have rival: "fInfoHash (jf (rjob (sruns s l))) \<noteq> fInfoHash (jf (rjob (sruns s k)))"
    if "phase_of (rpt (sruns s k)) = Active" "l < next_job (snode s)" "l \<noteq> k" "holding (rpt (sruns s l))" for l
    using active_not_rivals [OF reachable_inv [OF reach] k that(2)] that sys_okD [OF ok] k holding_active
    by (auto simp: rivals_def ih_of_def)
  have w: "owing (watch ew r1) = owing r1" "rpt (watch ew r1) = rpt r1" "rjob (watch ew r1) = rjob r1" for ew by (simp_all add: watch_def)
  show ?thesis
  proof (cases rule: move_reserved [OF m ow])
    case 1
    show ?thesis
      by (rule reserved_ok_update [OF res k, of _ "watch (run_env (snode s) ob, wd (nio (snode s))) r1"])
        (use 1 act reserved_okD(2,3) [OF res k] in \<open>auto simp: s' same w\<close>)
  next
    case 2
    show ?thesis
      by (rule reserved_ok_update [OF res k, of _ "watch (run_env (snode s) ob, wd (nio (snode s))) r1"])
        (use 2 act rival in \<open>auto simp: s' same w map_of_filter_key\<close>)
  next
    case 3
    show ?thesis
      by (rule reserved_ok_update [OF res k, of _ "watch (run_env (snode s) ob, wd (nio (snode s))) r1"])
        (use 3 act rival in \<open>auto simp: s' same w map_of_filter_key\<close>)
  qed
qed


section \<open>Lemmas: the invariant of the system\<close>

definition sys_inv :: "sys \<Rightarrow> bool" where
  "sys_inv s \<longleftrightarrow> reachable (snode s) \<and> sys_ok s \<and> reserved_ok s
     \<and> (\<forall>k<next_job (snode s). run_inv (dataDir (nEnv (snode s))) (sruns s k))"

lemma new_run_inv: "run_inv dd (new_run n k)"
  by (rule plain_inv) (simp_all add: new_run_def newJob_def)

lemma more_peers_inv:
  assumes "run_inv dd r"
  shows "run_inv dd (r\<lparr>rtorrent := map_option (\<lambda>t. t\<lparr>tPeers := f t\<rparr>) (rtorrent r)\<rparr>)"
proof (cases "rtorrent r")
  case None
  then have "r\<lparr>rtorrent := map_option (\<lambda>t. t\<lparr>tPeers := f t\<rparr>) (rtorrent r)\<rparr> = r" by (cases r) simp
  with assms show ?thesis by (simp only:)
next
  case (Some t)
  with assms show ?thesis by (cases "rpt r") (auto simp: run_inv_def torrent_ok_def seeding_ok_def split: if_splits)
qed

lemma sys_step_inv:
  assumes "sys_step so pm s s'" "sys_inv s"
  shows "sys_inv s'"
proof -
  have ok: "reachable (snode s')" "sys_ok s'" using sys_step_ok [OF assms(1)] assms(2) by (auto simp: sys_inv_def)
  from assms have "reserved_ok s' \<and> (\<forall>k<next_job (snode s'). run_inv (dataDir (nEnv (snode s'))) (sruns s' k))"
  proof (induction rule: sys_step.induct)
    case (job_moves k s ob)
    then have k: "run_inv (dataDir (nEnv (snode s))) (sruns s k)" by (simp add: sys_inv_def)
    obtain n1 r1 where m: "move so pm ob (snode s) k (rpt (sruns s k)) (sruns s k) = (n1, r1)"
      and s': "snode (with_job_step so pm ob k s) = note_phase k r1 n1"
        "sruns (with_job_step so pm ob k s) = (sruns s)(k := watch (run_env (snode s) ob, wd (nio (snode s))) r1)"
      and same: "next_job n1 = next_job (snode s)" "nEnv n1 = nEnv (snode s)"
      using with_job_step_parts [OF refl] by metis
    have "run_inv (dataDir (nEnv (snode s))) (watch (run_env (snode s) ob, wd (nio (snode s))) r1)"
      using move_inv [OF k refl m] job_moves.hyps(3) by blast
    with job_moves job_step_reserved_ok show ?case by (auto simp: sys_inv_def s' same)
  next
    case (node_moves s n)
    have ext: "extends (snode s) n" using node_op_extends [OF node_moves.hyps] .
    then have same: "next_job (snode s) \<le> next_job n" "reserved n = reserved (snode s)" "nEnv n = nEnv (snode s)"
      by (auto simp: extends_def)
    have res: "reserved_ok s" using node_moves by (simp add: sys_inv_def)
    have "reserved_ok (with_new_runs n s)"
    proof (rule reserved_okI)
      fix ih v assume "(ih, v) \<in> set (reserved (snode (with_new_runs n s)))"
      then obtain k where "k < next_job (snode s)" "owing (sruns s k) \<and> fInfoHash (jf (rjob (sruns s k))) = ih"
        using reserved_okD(1) [OF res] same by (auto simp: with_new_runs_def)
      then show "\<exists>k<next_job (snode (with_new_runs n s)). owing (sruns (with_new_runs n s) k)
          \<and> fInfoHash (jf (rjob (sruns (with_new_runs n s) k))) = ih"
        using same(1) by (intro exI [of _ k]) (auto simp: with_new_runs_def)
    qed (use reserved_okD(2,3) [OF res] same in \<open>auto simp: with_new_runs_def new_run_def split: if_splits\<close>)
    then show ?case using node_moves same new_run_inv by (auto simp: sys_inv_def with_new_runs_def)
  next
    case (peers_found s addrs)
    then have "reserved_ok (AddPeers addrs s)" by (auto simp: sys_inv_def reserved_ok_def AddPeers_def)
    moreover have "run_inv (dataDir (nEnv (snode s))) (sruns (AddPeers addrs s) k)" if "k < next_job (snode s)" for k
      using peers_found that more_peers_inv by (auto simp: sys_inv_def AddPeers_def)
    ultimately show ?case by (simp add: AddPeers_def)
  qed
  with ok show ?thesis by (simp add: sys_inv_def)
qed

lemma sys_reach_inv: "sys_reach so pm s \<Longrightarrow> sys_inv s"
proof (induction rule: sys_reach.induct)
  case (sys_start E wnt pr d w s)
  then have "next_job (snode s) = 0" "reserved (snode s) = []"
    by (auto simp: New_def split: option.splits dest!: sym [of _ "snode s"])
  with sys_start show ?case by (auto simp: sys_inv_def sys_ok_def reserved_ok_def intro: reachable.start)
qed (use sys_step_inv in blast)

section \<open>Lemmas: a stopped job ends\<close>

text \<open>How many steps a stopped job still has before it, if nothing wakes it but the stop.\<close>

fun rank :: "point \<Rightarrow> nat" where
  "rank (Begin ws) = 11 + length ws"
| "rank Searching = 10"
| "rank Preparing = 9"
| "rank Reserving = 8"
| "rank Paused = 2"
| "rank (Fetching _ d _) = (if d then 7 else 4)"
| "rank (Backoff _ _ _) = 2"
| "rank Downloading = 6"
| "rank (Finishing _) = 5"
| "rank (Checking _) = 3"
| "rank (Seeding _) = 2"
| "rank Ending = 1"
| "rank Over = 0"

definition unwoken :: "obs \<Rightarrow> bool" where
  "unwoken ob \<longleftrightarrow> \<not> oTimer ob \<and> \<not> oFreed ob"

lemma move_rank:
  assumes st: "move so pm ob n k (rpt r) r = (n', r')" and stop: "ctx_done n k" and ob: "unwoken ob"
    and waits: "\<And>w ws. rpt r = Begin (w # ws) \<Longrightarrow> kphase (table n w) = Finished"
  shows "rank (rpt r') \<le> rank (rpt r) - 1"
proof (cases "rpt r")
  case (Begin ws)
  with st stop waits show ?thesis by (cases ws) auto
next
  case Searching
  with st show ?thesis by (auto simp: search_def Let_def split: prod.splits sum.splits option.splits if_splits)
next
  case Preparing
  with st show ?thesis by (auto simp: prepare_def split: prod.splits option.splits)
next
  case Reserving
  with st show ?thesis by (auto simp: reserve_def Let_def split: prod.splits option.splits bool.splits)
next
  case (Fetching p d delay)
  with st stop show ?thesis
    by (auto simp: addTorrent_def attached_def split: sum.splits fetched.splits if_splits)
next
  case Downloading
  with st stop show ?thesis by (auto simp: completed_def split: if_splits)
next
  case (Finishing c)
  with st show ?thesis by (auto simp: finish_def Let_def split: prod.splits option.splits)
next
  case Ending
  with st show ?thesis by (auto simp: wind_up_def Let_def)
qed (use st stop ob in \<open>auto simp: unwoken_def split: if_splits\<close>)

text \<open>The steps of one job alone, one observation each.\<close>

definition run_alone :: "bool \<Rightarrow> magnet_parser \<Rightarrow> nat \<Rightarrow> obs list \<Rightarrow> node \<times> run \<Rightarrow> node \<times> run" where
  "run_alone so pm k obs s = foldl (\<lambda>s ob. job_step so pm ob k s) s obs"

lemma job_step_parts:
  assumes "job_step so pm ob k (n, r) = (n', r')"
  obtains n1 r1 where "move so pm ob n k (rpt r) r = (n1, r1)" "n' = note_phase k r1 n1" "rpt r' = rpt r1"
    "table n1 = table n" "closed n1 = closed n"
proof -
  obtain n1 r1 where m: "move so pm ob n k (rpt r) r = (n1, r1)" by force
  with assms move_io [OF m] show ?thesis by (intro that [of n1 r1]) (auto simp: job_step_def io_steps_def)
qed

lemma run_alone_ends:
  assumes "ctx_done n k" "list_all unwoken obs" "\<forall>w\<in>set (case rpt r of Begin ws \<Rightarrow> ws | _ \<Rightarrow> []). kphase (table n w) = Finished \<and> w \<noteq> k"
    and "rank (rpt r) \<le> length obs"
  shows "rpt (snd (run_alone so pm k obs (n, r))) = Over"
  using assms
proof (induction obs arbitrary: n r)
  case Nil
  then show ?case by (cases "rpt r") (auto simp: run_alone_def split: if_splits)
next
  case (Cons ob obs)
  obtain n' r' where st: "job_step so pm ob k (n, r) = (n', r')" by force
  from st obtain n1 r1 where m: "move so pm ob n k (rpt r) r = (n1, r1)" and n': "n' = note_phase k r1 n1" "rpt r' = rpt r1"
    and t: "table n1 = table n" "closed n1 = closed n" by (rule job_step_parts)
  have "rank (rpt r') \<le> rank (rpt r) - 1" unfolding n'
    by (rule move_rank [OF m]) (use Cons.prems in auto)
  moreover have "ctx_done n' k" using Cons.prems(1) by (simp add: ctx_done_def n' t)
  moreover have "\<forall>w\<in>set (case rpt r' of Begin ws \<Rightarrow> ws | _ \<Rightarrow> []). kphase (table n' w) = Finished \<and> w \<noteq> k"
  proof (cases "rpt r" rule: phase_cases)
    case (wait ws)
    from move_waiting [OF m [unfolded wait] wait] Cons.prems(3) wait n' t show ?thesis
      by (cases "rpt r1") auto
  next
    case act
    from move_active [OF m _ act] show ?thesis by (cases "rpt r1") (auto simp: n')
  next
    case over
    with m show ?thesis by (simp add: n')
  qed
  ultimately have "rpt (snd (run_alone so pm k obs (n', r'))) = Over"
    using Cons.prems by (intro Cons.IH) auto
  then show ?case by (simp add: run_alone_def st)
qed


section \<open>A sample run\<close>

text \<open>The node of the sample run in \<open>Node\<close> with two jobs. The first, a per-file job, either finds no copy
  and is admitted to download, or finds one that somebody has put into \<open>data_dir\<close>, and seeds it.\<close>

definition demo_obs :: obs where
  "demo_obs = \<lparr>oEnv = demo_env\<lparr>hash := (\<lambda>_ _. HashOk (SHA256 demo_file))\<rparr>, oPeers = [], oAlloc = (\<lambda>_. 0), oFree = None,
     oFetch = Fetched (fInfoHash demo_file) None, oOpened = True, oComplete = True, oPieces = 1, oTimer = False, oFreed = False\<rparr>"

definition demo_new :: node where
  "demo_new = the (New demo_env [''*''] True DiskAbsent demo_jworld)"

definition demo_sys :: sys where
  "demo_sys = with_new_runs demo_started (with_new_runs (snd (SetCatalog demo_catalog demo_new))
     \<lparr>snode = demo_new, sruns = new_run demo_new, speers = []\<rparr>)"

definition disk_with :: "(path \<times> fnode) list \<Rightarrow> io" where
  "disk_with es = \<lparr>wd = \<lparr>files = [([''d''], Dir 1), ([''d'', ''.incoming''], Dir 2)] @ es, faults = (\<lambda>_. None), next_ino = 5, clock = 10\<rparr>,
     dl = \<lparr>mem = [], disk = None, save_fault = None\<rparr>, hput = [], pieces = (\<lambda>_. None)\<rparr>"

definition demo_at :: "io \<Rightarrow> sys" where
  "demo_at S = with_new_runs (demo_started\<lparr>nio := S\<rparr>) demo_sys"

definition demo_moves :: "nat \<Rightarrow> io \<Rightarrow> sys" where
  "demo_moves c S = (with_job_step False demo_pm demo_obs 0 ^^ c) (demo_at S)"

lemma demo_sys_facts:
  "next_job demo_started = 2" "kwaits (table demo_started 0) = []" "kmodel (table demo_started 0) = ''m1''"
  "kf (table demo_started 0) = demo_file" "kdir (table demo_started 0) = None" "kcands (table demo_started 0) = []"
  "\<not> kstop (table demo_started 0)" "\<not> closed demo_started" "ncat demo_started = Some demo_catalog"
  by code_simp+

lemma demo_new_facts: "nEnv demo_new = demo_env" "New demo_env [''*''] True DiskAbsent demo_jworld = Some demo_new" "next_job demo_new = 0"
  by (simp_all add: demo_new_def New_def openDownloadRecord_def)

lemma demo_sys_env: "nEnv demo_started = demo_env"
proof -
  have "demo_started = snd (reconcileLocked True (Some demo_idx) (snd (SetCatalog demo_catalog demo_new)))"
    by (simp add: demo_started_def demo_new_def)
  with node_op_extends [OF node_op.op_scanned] node_op_extends [OF node_op.op_catalog [OF demo_valid(1)]]
  show ?thesis by (metis demo_new_facts(1) extends_def)
qed

lemma demo_sys_reach: "sys_reach False demo_pm (demo_at S)"
proof -
  let ?s0 = "\<lparr>snode = demo_new, sruns = new_run demo_new, speers = []\<rparr>" and ?n1 = "snd (SetCatalog demo_catalog demo_new)"
  have 0: "sys_reach False demo_pm ?s0" using sys_reach.sys_start demo_new_facts(2) by fastforce
  have "sys_step False demo_pm ?s0 (with_new_runs ?n1 ?s0)"
    using sys_step.node_moves [of ?s0 ?n1] node_op.op_catalog [OF demo_valid(1)] by simp
  with 0 have 1: "sys_reach False demo_pm (with_new_runs ?n1 ?s0)" by (rule sys_reach.sys_next)
  have "node_op (snode (with_new_runs ?n1 ?s0)) demo_started"
    using node_op.op_scanned [of ?n1 True demo_idx] by (simp add: with_new_runs_def demo_started_def demo_new_def)
  then have "sys_reach False demo_pm demo_sys" unfolding demo_sys_def
    using sys_reach.sys_next [OF 1 sys_step.node_moves] by blast
  moreover have "node_op (snode demo_sys) (demo_started\<lparr>nio := S\<rparr>)"
    using node_op.op_disk by (simp add: demo_sys_def with_new_runs_def)
  ultimately show ?thesis unfolding demo_at_def using sys_reach.sys_next sys_step.node_moves by blast
qed

lemma demo_at_facts:
  "snode (demo_at S) = demo_started\<lparr>nio := S\<rparr>" "speers (demo_at S) = []"
  "sruns (demo_at S) 0 = \<lparr>rpt = Begin [], rjob = newJob ''m1'' demo_file [], rtorrent = None, owing = False, seen = []\<rparr>"
proof -
  have 1: "next_job (snd (SetCatalog demo_catalog demo_new)) = 0"
    by code_simp
  show "snode (demo_at S) = demo_started\<lparr>nio := S\<rparr>" "speers (demo_at S) = []"
    by (simp_all add: demo_at_def demo_sys_def with_new_runs_def)
  show "sruns (demo_at S) 0 = \<lparr>rpt = Begin [], rjob = newJob ''m1'' demo_file [], rtorrent = None, owing = False, seen = []\<rparr>"
    using 1 demo_sys_facts by (simp add: demo_at_def demo_sys_def with_new_runs_def demo_new_facts new_run_def newJob_def)
qed

text \<open>The steps keep to the reachable states, and to what they need of the node.\<close>

definition demo_ready :: "sys \<Rightarrow> bool" where
  "demo_ready s \<longleftrightarrow> sys_reach False demo_pm s \<and> speers s = [] \<and> next_job (snode s) = 2 \<and> nEnv (snode s) = demo_env
     \<and> ncat (snode s) = Some demo_catalog \<and> \<not> ctx_done (snode s) 0 \<and> jf (rjob (sruns s 0)) = demo_file"

lemma demo_moves_ready: "demo_ready (demo_moves c S)"
proof (induction c)
  case 0
  show ?case
    using demo_sys_reach demo_sys_facts demo_at_facts demo_sys_env
    by (simp add: demo_moves_def demo_ready_def ctx_done_def newJob_def)
next
  case (Suc c)
  let ?s = "demo_moves c S"
  have s: "demo_moves (Suc c) S = with_job_step False demo_pm demo_obs 0 ?s" by (simp add: demo_moves_def)
  have "sys_step False demo_pm ?s (demo_moves (Suc c) S)" unfolding s
    by (rule sys_step.job_moves) (use Suc in \<open>auto simp: demo_ready_def demo_obs_def\<close>)
  then have "sys_reach False demo_pm (demo_moves (Suc c) S)" using Suc sys_reach.sys_next by (auto simp: demo_ready_def)
  moreover obtain n1 r1 where m: "move False demo_pm demo_obs (snode ?s) 0 (rpt (sruns ?s 0)) (sruns ?s 0) = (n1, r1)" by force
  have "table n1 = table (snode ?s)" "closed n1 = closed (snode ?s)" "next_job n1 = next_job (snode ?s)" "nEnv n1 = nEnv (snode ?s)"
    "ncat n1 = ncat (snode ?s)" "jf (rjob r1) = jf (rjob (sruns ?s 0))"
    using move_io [OF m] move_job [OF m] by (auto simp: io_steps_def)
  ultimately show ?case using Suc m
    by (auto simp: s demo_ready_def with_job_step_def job_step_def ctx_done_def)
qed


lemma demo_move_Suc:
  assumes "move False demo_pm demo_obs (snode (demo_moves c S)) 0 (rpt (sruns (demo_moves c S) 0)) (sruns (demo_moves c S) 0) = (n1, r1)"
  shows "rpt (sruns (demo_moves (Suc c) S) 0) = rpt r1" "rjob (sruns (demo_moves (Suc c) S) 0) = rjob r1"
    "rtorrent (sruns (demo_moves (Suc c) S) 0) = rtorrent r1" "nio (snode (demo_moves (Suc c) S)) = nio n1"
    "reserved (snode (demo_moves (Suc c) S)) = reserved n1"
  using assms by (simp_all add: demo_moves_def with_job_step_def job_step_def)

lemma demo_searching:
  "rpt (sruns (demo_moves 1 S) 0) = Searching" "rjob (sruns (demo_moves 1 S) 0) = set_state StateAdopting None None (newJob ''m1'' demo_file [])"
  "rtorrent (sruns (demo_moves 1 S) 0) = None" "nio (snode (demo_moves 1 S)) = S"
proof -
  have 0: "demo_moves 0 S = demo_at S" by (simp add: demo_moves_def)
  have nc: "\<not> ctx_done (snode (demo_at S)) 0" using demo_moves_ready [of 0 S] by (simp add: demo_ready_def 0)
  note st = demo_move_Suc [of 0 S, unfolded 0 demo_at_facts run.simps move.simps, OF refl]
  then show "rpt (sruns (demo_moves 1 S) 0) = Searching"
    "rjob (sruns (demo_moves 1 S) 0) = set_state StateAdopting None None (newJob ''m1'' demo_file [])"
    "rtorrent (sruns (demo_moves 1 S) 0) = None" "nio (snode (demo_moves 1 S)) = S"
    using nc by (simp_all add: demo_at_facts)
qed

definition demo_run_env :: jenv where
  "demo_run_env = demo_env\<lparr>hash := (\<lambda>_ _. HashOk (SHA256 demo_file)), dataDir := [''d''], cat := Some demo_catalog\<rparr>"

lemma demo_env_eq: "run_env (snode (demo_moves c S)) demo_obs = demo_run_env"
  using demo_moves_ready [of c S] by (simp add: run_env_def demo_ready_def demo_obs_def demo_run_env_def demo_env_def)

lemma demo_found:
  "fst (find_local demo_run_env (disk_with [([''d'', ''m.gguf''], Reg 3 ''abcdefghij'' 7)])
     (set_state StateAdopting None None (newJob ''m1'' demo_file []))) = Inr (Some [''d'', ''m.gguf''], [])"
  "fst (find_local demo_run_env (disk_with []) (set_state StateAdopting None None (newJob ''m1'' demo_file []))) = Inr (None, [])"
  by code_simp+

lemma demo_mkdir: "fst (MkdirAll (wd (disk_with [])) [''d'', ''.incoming'']) = None"
  by code_simp

lemma demo_job_seeds:
  "rpt (sruns (demo_moves 4 (disk_with [([''d'', ''m.gguf''], Reg 3 ''abcdefghij'' 7)])) 0) = Seeding [''d'', ''m.gguf'']"
  (is "rpt (sruns (demo_moves 4 ?S) 0) = Seeding ?p")
proof -
  let ?j = "set_state StateAdopting None None (newJob ''m1'' demo_file [])"
  obtain j S' where f: "find_local demo_run_env ?S ?j = (Inr (Some ?p, []), j, S')" using demo_found(1) by (metis prod.collapse)
  have 2: "rpt (sruns (demo_moves (Suc 1) ?S) 0) = Fetching ?p False firstDelay" "rjob (sruns (demo_moves (Suc 1) ?S) 0) = j"
    using demo_move_Suc [of 1 ?S, unfolded demo_searching move.simps search_def demo_env_eq f prod.case, OF refl] by simp_all
  have j: "jf j = demo_file" "jdir j = None" using find_local_same [OF f] by (simp_all add: newJob_def)
  obtain trs ws where m: "fileMagnetSources demo_pm demo_file = Inr (trs, ws)"
    by (simp add: fileMagnetSources_def magnetSources_def demo_file_def demo_pm_def)
  have 3: "rpt (sruns (demo_moves (Suc (Suc 1)) ?S) 0) = Checking ?p"
    using demo_move_Suc [of "Suc 1" ?S, unfolded 2 move.simps, OF refl] 2 j m
    by (simp add: addTorrent_def attached_def demo_obs_def)
  show ?thesis
    using demo_move_Suc [of "Suc (Suc 1)" ?S, unfolded 3 move.simps, OF refl] by (simp add: demo_obs_def numeral_eq_Suc)
qed

lemma demo_job_admitted:
  "rpt (sruns (demo_moves 4 (disk_with [])) 0) = Fetching [''d'', ''.incoming'', ''m.gguf''] True firstDelay"
proof -
  let ?j = "set_state StateAdopting None None (newJob ''m1'' demo_file [])" let ?S = "disk_with []"
  obtain j S' where f: "find_local demo_run_env ?S ?j = (Inr (None, []), j, S')" using demo_found(2) by (metis prod.collapse)
  have j: "jf j = demo_file" "jdir j = None" using find_local_same [OF f] by (simp_all add: newJob_def)
  have w: "wd S' = wd ?S" using f findLocal_wd by (auto simp: find_local_def newJob_def set_state_def)
  have 2: "rpt (sruns (demo_moves (Suc 1) ?S) 0) = Preparing" "rjob (sruns (demo_moves (Suc 1) ?S) 0) = j" "nio (snode (demo_moves (Suc 1) ?S)) = S'"
    using demo_move_Suc [of 1 ?S, unfolded demo_searching move.simps search_def demo_env_eq f prod.case, OF refl] by simp_all
  have 3: "rpt (sruns (demo_moves (Suc (Suc 1)) ?S) 0) = Reserving" "rjob (sruns (demo_moves (Suc (Suc 1)) ?S) 0) = j"
      "nio (snode (demo_moves (Suc (Suc 1)) ?S)) = S'"
    using demo_move_Suc [of "Suc 1" ?S] 2 j by (simp_all add: prepare_def)
  obtain w' where mk: "MkdirAll (wd ?S) [''d'', ''.incoming''] = (None, w')" using demo_mkdir by (metis prod.collapse)
  have "incomingDir demo_run_env = [''d'', ''.incoming'']" "incomingPath demo_run_env j = [''d'', ''.incoming'', ''m.gguf'']"
    using j by (simp_all add: incomingDir_def incomingPath_def demo_run_env_def demo_file_def DiskName_def after_slash_def)
  moreover have "oFree demo_obs = None" by (simp add: demo_obs_def)
  ultimately show ?thesis
    using demo_move_Suc [of "Suc (Suc 1)" ?S] 3 j w mk
    by (simp add: reserve_def demo_env_eq reserveSpace_def Let_def numeral_eq_Suc)
qed


section \<open>Properties\<close>

text \<open>A job seeds only what was verified: in every state of the system, whatever the other jobs, the
  node and everybody else on the host did, a job that reports itself seeding serves a path that it has
  itself seen verified: a copy that hashed to the catalog's SHA-256 (for a folder, each of its files, with
  its size), or its own download, hashed in \<open>.incoming\<close> and then moved to its place.\<close>

theorem seeds_only_verified:
  assumes "sys_reach seedOnly pm s" "k < next_job (snode s)" "jstate (rjob (sruns s k)) = StateSeeding"
  shows "\<exists>p. jpath (rjob (sruns s k)) = Some p \<and> once_verified (sruns s k) p"
proof -
  have "run_inv (dataDir (nEnv (snode s))) (sruns s k)" using sys_reach_inv [OF assms(1)] assms(2) by (simp add: sys_inv_def)
  with assms(3) show ?thesis by (auto simp: run_inv_def seeding_ok_def torrent_ok_def)
qed

theorem seeds_only_verified_witness:
  "\<exists>p. jpath (rjob (sruns (demo_moves 4 (disk_with [([''d'', ''m.gguf''], Reg 3 ''abcdefghij'' 7)])) 0)) = Some p
     \<and> once_verified (sruns (demo_moves 4 (disk_with [([''d'', ''m.gguf''], Reg 3 ''abcdefghij'' 7)])) 0) p"
proof (rule seeds_only_verified)
  let ?s = "demo_moves 4 (disk_with [([''d'', ''m.gguf''], Reg 3 ''abcdefghij'' 7)])"
  show r: "sys_reach False demo_pm ?s" and k: "0 < next_job (snode ?s)"
    using demo_moves_ready by (auto simp: demo_ready_def)
  have "run_inv (dataDir (nEnv (snode ?s))) (sruns ?s 0)" using sys_reach_inv [OF r] k by (simp add: sys_inv_def)
  then show "jstate (rjob (sruns ?s 0)) = StateSeeding" by (simp add: run_inv_def demo_job_seeds)
qed

text \<open>C6. The torrents that jobs give to the torrent library: each has the infohash of its catalog entry. It
  may download only if its storage is the job's own place in \<open>.incoming\<close>; a torrent over any other path, an
  adopted copy or a promoted download, never downloads, so it never writes into data it did not
  download, and that path was verified first.\<close>

theorem torrents_never_write_adopted:
  assumes "sys_reach seedOnly pm s" "k < next_job (snode s)" "rtorrent (sruns s k) = Some t"
  shows "tInfoHash t = fInfoHash (kf (table (snode s) k))
    \<and> (if tDownload t then tPath t = dataDir (nEnv (snode s)) @ [''.incoming'', DiskName (kf (table (snode s) k))]
       else once_verified (sruns s k) (tPath t))"
proof -
  have inv: "sys_inv s" using sys_reach_inv [OF assms(1)] .
  then have "run_inv (dataDir (nEnv (snode s))) (sruns s k)" using assms(2) by (simp add: sys_inv_def)
  moreover have "jf (rjob (sruns s k)) = kf (table (snode s) k)" using inv assms(2) sys_okD(2) by (simp add: sys_inv_def)
  ultimately show ?thesis using assms(3) by (auto simp: run_inv_def torrent_ok_def landing_def)
qed

theorem torrents_never_write_adopted_witness:
  "\<exists>t. rtorrent (sruns (demo_moves 4 (disk_with [([''d'', ''m.gguf''], Reg 3 ''abcdefghij'' 7)])) 0) = Some t
     \<and> tInfoHash t = fInfoHash (kf (table (snode (demo_moves 4 (disk_with [([''d'', ''m.gguf''], Reg 3 ''abcdefghij'' 7)]))) 0))"
proof -
  let ?s = "demo_moves 4 (disk_with [([''d'', ''m.gguf''], Reg 3 ''abcdefghij'' 7)])"
  have r: "sys_reach False demo_pm ?s" and k: "0 < next_job (snode ?s)"
    using demo_moves_ready by (auto simp: demo_ready_def)
  have "run_inv (dataDir (nEnv (snode ?s))) (sruns ?s 0)" using sys_reach_inv [OF r] k by (simp add: sys_inv_def)
  then obtain t where "rtorrent (sruns ?s 0) = Some t" by (auto simp: run_inv_def demo_job_seeds)
  with torrents_never_write_adopted [OF r k this] show ?thesis by auto
qed

text \<open>C19. Disk space is held by exactly those who need it: every reservation belongs to a job that was
  admitted and has not ended, and a job from its admission to its last byte holds the reservation of its
  own file, under every interleaving with other jobs of the same infohash; a job that has ended holds none.\<close>

theorem reservations_of_running_jobs:
  assumes "sys_reach seedOnly pm s"
  shows "(\<forall>(ih, v)\<in>set (reserved (snode s)). \<exists>k<next_job (snode s).
        kphase (table (snode s) k) = Active \<and> owing (sruns s k) \<and> fInfoHash (kf (table (snode s) k)) = ih)
    \<and> (\<forall>k<next_job (snode s). holding (rpt (sruns s k)) \<longrightarrow>
        map_of (reserved (snode s)) (fInfoHash (kf (table (snode s) k))) =
          Some \<lparr>rPath = dataDir (nEnv (snode s)) @ [''.incoming'', DiskName (kf (table (snode s) k))], rSize = fSize (kf (table (snode s) k))\<rparr>)"
proof -
  have res: "reserved_ok s" and ok: "sys_ok s" using sys_reach_inv [OF assms] by (auto simp: sys_inv_def)
  have "\<exists>k<next_job (snode s). kphase (table (snode s) k) = Active \<and> owing (sruns s k) \<and> fInfoHash (kf (table (snode s) k)) = ih"
    if "(ih, v) \<in> set (reserved (snode s))" for ih v
    using reserved_okD(1,2) [OF res] that sys_okD [OF ok] by metis
  then show ?thesis using reserved_okD(3) [OF res] sys_okD [OF ok] by (auto simp: landing_def)
qed

theorem reservations_of_running_jobs_witness:
  "map_of (reserved (snode (demo_moves 4 (disk_with [])))) (fInfoHash (kf (table (snode (demo_moves 4 (disk_with []))) 0))) \<noteq> None"
proof -
  have "sys_reach False demo_pm (demo_moves 4 (disk_with []))" and k: "0 < next_job (snode (demo_moves 4 (disk_with [])))"
    using demo_moves_ready by (auto simp: demo_ready_def)
  from reservations_of_running_jobs [OF this(1)] k show ?thesis by (auto simp: demo_job_admitted)
qed

text \<open>C9. The job goroutines refine the node's abstract steps: every state of the system of running jobs is
  a reachable state of the node as \<open>Node\<close> models it, in which a job counts as waiting, active or finished
  exactly when its goroutine is waiting for its predecessors, working, or has returned. So the hand-over
  holds for the code of the jobs: two jobs past their waits never have the same infohash or files.\<close>

theorem goroutines_refine_node:
  assumes "sys_reach seedOnly pm s"
  shows "reachable (snode s)
    \<and> (\<forall>k<next_job (snode s). kphase (table (snode s) k) = phase_of (rpt (sruns s k)) \<and> (failed (rjob (sruns s k)) \<longrightarrow> kfailed (table (snode s) k)))
    \<and> (\<forall>k<next_job (snode s). \<forall>l<next_job (snode s). k \<noteq> l \<and> phase_of (rpt (sruns s k)) = Active \<and> phase_of (rpt (sruns s l)) = Active \<longrightarrow>
         fInfoHash (jf (rjob (sruns s k))) \<noteq> fInfoHash (jf (rjob (sruns s l))) \<and> DiskName (jf (rjob (sruns s k))) \<noteq> DiskName (jf (rjob (sruns s l))))"
proof -
  have r: "reachable (snode s)" and ok: "sys_ok s" using sys_reach_inv [OF assms] by (auto simp: sys_inv_def)
  moreover have "\<forall>k<next_job (snode s). kphase (table (snode s) k) = phase_of (rpt (sruns s k)) \<and> (failed (rjob (sruns s k)) \<longrightarrow> kfailed (table (snode s) k))"
    using ok by (auto simp: sys_ok_def run_ok_def)
  ultimately show ?thesis
    using active_not_rivals [OF reachable_inv [OF r]] sys_okD [OF ok] by (auto simp: rivals_def ih_of_def disk_of_def)
qed

theorem goroutines_refine_node_witness:
  "kphase (table (snode (demo_moves 4 (disk_with []))) 0) = Active"
proof -
  have "sys_reach False demo_pm (demo_moves 4 (disk_with []))" and "0 < next_job (snode (demo_moves 4 (disk_with [])))"
    using demo_moves_ready by (auto simp: demo_ready_def)
  with goroutines_refine_node [OF this(1)] show ?thesis by (simp add: demo_job_admitted)
qed

text \<open>C22. A stopped job ends: once a job is stopped or the node is closing, and its predecessors have ended,
  the job's own steps bring it to its end after at most eleven steps and one for each predecessor,
  whatever the torrent source, the torrent library and the disk answer, unless a timer
  or freed space wakes a wait first.\<close>

theorem stopped_job_ends:
  assumes "ctx_done n k" "list_all unwoken obs" "rank (rpt r) \<le> length obs"
    and "\<forall>ws. rpt r = Begin ws \<longrightarrow> (\<forall>w\<in>set ws. kphase (table n w) = Finished \<and> w \<noteq> k)"
  shows "rpt (snd (run_alone seedOnly pm k obs (n, r))) = Over"
  by (rule run_alone_ends [OF assms(1,2) _ assms(3)]) (use assms(4) in \<open>cases "rpt r"; auto\<close>)

theorem stopped_job_ends_witness:
  "rpt (snd (run_alone False demo_pm 0 (replicate 7 demo_obs) (Close (snode (demo_moves 4 (disk_with []))), sruns (demo_moves 4 (disk_with [])) 0))) = Over"
  by (rule stopped_job_ends) (simp_all add: ctx_done_def Close_def unwoken_def demo_obs_def demo_job_admitted)

end
