(* ===== verification/Adopt.thy ===== *)
theory Adopt
  imports Node
begin

text \<open>
  \<open>scanAdopt\<close> and \<open>reconcileScanLocked\<close> of \<open>internal/node/node.go\<close> and \<open>viiworkModelPaths\<close> of
  \<open>internal/node/viiwork.go\<close>: the index of the files and directories on the host that a job may adopt.

  The YAML decoder is a parameter: it gives the \<open>path\<close> of \<open>model\<close> and those of \<open>models\<close>, empty where there
  is none. So is the working directory, as the function that makes a path string absolute.
\<close>

section \<open>The model paths of a viiwork configuration\<close>

type_synonym viiwork_yaml = "bytes \<Rightarrow> (string \<times> string list) option"

datatype viiwork_error = ViiworkRead errno | ViiworkYAML

definition viiworkModelPaths :: "viiwork_yaml \<Rightarrow> world \<Rightarrow> path \<Rightarrow> viiwork_error + string list" where
  "viiworkModelPaths yaml w file =
     (case ReadFile w file of
        Inl e \<Rightarrow> Inl (ViiworkRead e)
      | Inr data \<Rightarrow>
          (case yaml data of
             None \<Rightarrow> Inl ViiworkYAML
           | Some (model, models) \<Rightarrow> Inr ((if model \<noteq> '''' then [model] else []) @ filter (\<lambda>p. p \<noteq> '''') models)))"

section \<open>The scan\<close>

text \<open>\<open>filepath.EvalSymlinks\<close>: the place a path names, if there is something.\<close>

definition EvalSymlinks :: "world \<Rightarrow> path \<Rightarrow> errno + path" where
  "EvalSymlinks w p =
     (case fault w (SLstat p) of
        Some e \<Rightarrow> Inl e
      | None \<Rightarrow> (case resolve w p True of
          Inl e \<Rightarrow> Inl e
        | Inr q \<Rightarrow> (case entry w q of None \<Rightarrow> Inl ENOENT | Some _ \<Rightarrow> Inr q)))"

definition add_dir :: "path \<Rightarrow> adoptIndex \<Rightarrow> adoptIndex" where
  "add_dir p idx = idx\<lparr>aDirs := aDirs idx @ [p]\<rparr>"

definition add_candidate :: "world \<Rightarrow> path \<Rightarrow> adoptIndex \<Rightarrow> adoptIndex" where
  "add_candidate w p idx =
     (case Stat w p of
        Inl _ \<Rightarrow> idx
      | Inr fi \<Rightarrow>
          if is_reg fi then idx\<lparr>aFiles := aFiles idx @ [(fi_size fi, p)]\<rparr>
          else if is_dir fi then add_dir p idx else idx)"

fun event_path :: "walk_event \<Rightarrow> path" where
  "event_path (Visit s _) = s"
| "event_path (WalkErr s _) = s"

text \<open>The callback of the walk over one root. \<open>filepath.SkipDir\<close> for a hidden directory drops
  everything the walk would still tell of it.\<close>

definition hidden_name :: "string \<Rightarrow> bool" where
  "hidden_name c \<longleftrightarrow> HasPrefix c ''.''"

function (sequential) scan_walk :: "world \<Rightarrow> path \<Rightarrow> walk_event list \<Rightarrow> adoptIndex \<Rightarrow> adoptIndex" where
  "scan_walk w real [] idx = idx"
| "scan_walk w real (WalkErr s e # evs) idx = scan_walk w real evs idx"
| "scan_walk w real (Visit s n # evs) idx =
     (if is_dir n
      then if s \<noteq> [] \<and> hidden_name (last s) then scan_walk w real (filter (\<lambda>e. \<not> prefix s (event_path e)) evs) idx
           else scan_walk w real evs (add_dir (real @ s) idx)
      else scan_walk w real evs (add_candidate w (real @ s) idx))"
  by pat_completeness auto
termination by (relation "measure (\<lambda>(w, real, evs, idx). length evs)") (auto simp: less_Suc_eq_le)

definition scan_root :: "world \<Rightarrow> adoptIndex \<Rightarrow> path \<Rightarrow> adoptIndex" where
  "scan_root w idx root =
     (case EvalSymlinks w root of
        Inl _ \<Rightarrow> idx
      | Inr real \<Rightarrow> scan_walk w real (WalkDir w real) idx)"

definition siblings :: "world \<Rightarrow> path \<Rightarrow> path list" where
  "siblings w dir =
     (case ReadDir w dir of
        Inl _ \<Rightarrow> []
      | Inr es \<Rightarrow> map (\<lambda>(c, _). dir @ [c]) (filter (\<lambda>(_, n). \<not> is_dir n) es))"

definition scan_model_path :: "world \<Rightarrow> adoptIndex \<Rightarrow> path \<Rightarrow> adoptIndex" where
  "scan_model_path w idx p =
     (case Stat w p of
        Inl _ \<Rightarrow> idx
      | Inr fi \<Rightarrow>
          if is_dir fi then add_dir p idx
          else foldl (\<lambda>idx q. add_candidate w q idx) idx (siblings w (butlast (Clean p))))"

definition scan_viiwork :: "viiwork_yaml \<Rightarrow> (string \<Rightarrow> path) \<Rightarrow> world \<Rightarrow> adoptIndex \<Rightarrow> path \<Rightarrow> adoptIndex" where
  "scan_viiwork yaml absolute w idx vc =
     (case viiworkModelPaths yaml w vc of
        Inl _ \<Rightarrow> idx
      | Inr paths \<Rightarrow> foldl (scan_model_path w) idx (map absolute paths))"

definition scanAdopt :: "viiwork_yaml \<Rightarrow> (string \<Rightarrow> path) \<Rightarrow> path list \<Rightarrow> path list \<Rightarrow> world \<Rightarrow> adoptIndex" where
  "scanAdopt yaml absolute roots viiworkConfigs w =
     foldl (scan_viiwork yaml absolute w) (foldl (scan_root w) \<lparr>aFiles = [], aDirs = []\<rparr> roots) viiworkConfigs"

text \<open>\<open>reconcileScanLocked\<close>: the lock is given up for the scan, so that the second pass meets the node as
  the others left it (\<open>meanwhile\<close>).\<close>

definition reconcileScanLocked :: "bool \<Rightarrow> (world \<Rightarrow> adoptIndex) \<Rightarrow> (node \<Rightarrow> node) \<Rightarrow> node \<Rightarrow> node" where
  "reconcileScanLocked retryFailed scan meanwhile n =
     (case reconcileLocked retryFailed None n of
        (False, n1) \<Rightarrow> n1
      | (True, n1) \<Rightarrow> snd (reconcileLocked retryFailed (Some (scan (wd (nio n1)))) (meanwhile n1)))"

section \<open>Lemmas: what the callback takes up\<close>

text \<open>What one path adds to the index.\<close>

definition cand_files :: "world \<Rightarrow> path \<Rightarrow> (int \<times> path) set" where
  "cand_files w p = {(z, p) | z. \<exists>n. Stat w p = Inr n \<and> is_reg n \<and> fi_size n = z}"

definition cand_dirs :: "world \<Rightarrow> path \<Rightarrow> path set" where
  "cand_dirs w p = {p | n. Stat w p = Inr n \<and> is_dir n}"

lemma is_reg_not_dir: "is_reg n \<Longrightarrow> \<not> is_dir n"
  by (cases n) auto

lemma add_candidate_sets:
  "set (aFiles (add_candidate w p idx)) = set (aFiles idx) \<union> cand_files w p"
  "set (aDirs (add_candidate w p idx)) = set (aDirs idx) \<union> cand_dirs w p"
  by (auto simp: add_candidate_def add_dir_def cand_files_def cand_dirs_def dest: is_reg_not_dir split: sum.splits)

lemma add_dir_sets [simp]: "aFiles (add_dir p idx) = aFiles idx" "set (aDirs (add_dir p idx)) = insert p (set (aDirs idx))"
  by (auto simp: add_dir_def)

text \<open>An event is skipped if a hidden directory above it is told of.\<close>

definition hidden_dir :: "walk_event \<Rightarrow> bool" where
  "hidden_dir e \<longleftrightarrow> (\<exists>s n. e = Visit s n \<and> is_dir n \<and> s \<noteq> [] \<and> hidden_name (last s))"

definition taken :: "walk_event list \<Rightarrow> walk_event set" where
  "taken evs = {e \<in> set evs. \<not> hidden_dir e \<and> (\<forall>h\<in>set evs. hidden_dir h \<longrightarrow> \<not> prefix (event_path h) (event_path e))}"

text \<open>The walk tells of a directory before it tells of what is in it.\<close>

definition parents_first :: "walk_event list \<Rightarrow> bool" where
  "parents_first evs \<longleftrightarrow> sorted_wrt (\<lambda>a b. \<not> (\<exists>s n. b = Visit s n \<and> prefix s (event_path a))) evs"

lemma parents_first_filter: "parents_first evs \<Longrightarrow> parents_first (filter P evs)"
  by (simp add: parents_first_def sorted_wrt_filter)

lemma taken_skip:
  assumes "hidden_dir (Visit s n)"
  shows "taken (Visit s n # evs) = taken (filter (\<lambda>e. \<not> prefix s (event_path e)) evs)"
proof (intro set_eqI iffI)
  fix e assume e: "e \<in> taken (filter (\<lambda>e. \<not> prefix s (event_path e)) evs)"
  have "\<not> prefix (event_path h) (event_path e)" if h: "h \<in> set evs" "hidden_dir h" for h
  proof (cases "prefix s (event_path h)")
    case True
    with e show ?thesis by (auto simp: taken_def dest: prefix_order.trans)
  next
    case False
    with e h show ?thesis by (auto simp: taken_def)
  qed
  with e assms show "e \<in> taken (Visit s n # evs)" by (auto simp: taken_def)
qed (use assms in \<open>auto simp: taken_def\<close>)

lemma taken_head:
  assumes "parents_first (e # evs)" "\<not> hidden_dir e"
  shows "taken (e # evs) = insert e (taken evs)"
  using assms by (auto simp: taken_def parents_first_def hidden_dir_def)

lemma parents_first_tail: "parents_first (e # evs) \<Longrightarrow> parents_first evs"
  by (simp add: parents_first_def)

definition taken_files :: "world \<Rightarrow> path \<Rightarrow> walk_event list \<Rightarrow> (int \<times> path) set" where
  "taken_files w real evs = (\<Union>s\<in>{s. \<exists>n. Visit s n \<in> taken evs \<and> \<not> is_dir n}. cand_files w (real @ s))"

definition taken_dirs :: "world \<Rightarrow> path \<Rightarrow> walk_event list \<Rightarrow> path set" where
  "taken_dirs w real evs = {real @ s | s n. Visit s n \<in> taken evs \<and> is_dir n}
     \<union> (\<Union>s\<in>{s. \<exists>n. Visit s n \<in> taken evs \<and> \<not> is_dir n}. cand_dirs w (real @ s))"

lemma scan_walk_sets:
  assumes "parents_first evs"
  shows "set (aFiles (scan_walk w real evs idx)) = set (aFiles idx) \<union> taken_files w real evs
    \<and> set (aDirs (scan_walk w real evs idx)) = set (aDirs idx) \<union> taken_dirs w real evs"
  using assms
proof (induction w real evs idx rule: scan_walk.induct)
  case (1 w real idx)
  then show ?case by (simp add: taken_files_def taken_dirs_def taken_def)
next
  case (2 w real s e evs idx)
  have "taken (WalkErr s e # evs) = insert (WalkErr s e) (taken evs)"
    using taken_head [OF 2(2)] by (simp add: hidden_dir_def)
  with 2 parents_first_tail show ?case by (simp add: taken_files_def taken_dirs_def)
next
  case (3 w real s n evs idx)
  show ?case
  proof (cases "hidden_dir (Visit s n)")
    case True
    then have c: "is_dir n" "s \<noteq> [] \<and> hidden_name (last s)" by (auto simp: hidden_dir_def)
    have "parents_first (filter (\<lambda>e. \<not> prefix s (event_path e)) evs)"
      using 3(4) parents_first_tail parents_first_filter by blast
    with 3(1) [OF c] c show ?thesis by (simp add: taken_files_def taken_dirs_def taken_skip [OF True])
  next
    case False
    then have t: "taken (Visit s n # evs) = insert (Visit s n) (taken evs)" using taken_head [OF 3(4)] by blast
    show ?thesis
    proof (cases "is_dir n")
      case True
      with False have c: "\<not> (s \<noteq> [] \<and> hidden_name (last s))" by (auto simp: hidden_dir_def)
      have "{u. \<exists>m. Visit u m \<in> taken (Visit s n # evs) \<and> \<not> is_dir m} = {u. \<exists>m. Visit u m \<in> taken evs \<and> \<not> is_dir m}"
        "{real @ u | u m. Visit u m \<in> taken (Visit s n # evs) \<and> is_dir m} = insert (real @ s) {real @ u | u m. Visit u m \<in> taken evs \<and> is_dir m}"
        using True by (auto simp: t)
      moreover have "scan_walk w real (Visit s n # evs) idx = scan_walk w real evs (add_dir (real @ s) idx)" using True c by auto
      ultimately show ?thesis using 3(2) [OF True c parents_first_tail [OF 3(4)]]
        by (simp add: taken_files_def taken_dirs_def del: scan_walk.simps)
    next
      case False
      have "{u. \<exists>m. Visit u m \<in> taken (Visit s n # evs) \<and> \<not> is_dir m} = insert s {u. \<exists>m. Visit u m \<in> taken evs \<and> \<not> is_dir m}"
        "{real @ u | u m. Visit u m \<in> taken (Visit s n # evs) \<and> is_dir m} = {real @ u | u m. Visit u m \<in> taken evs \<and> is_dir m}"
        using False by (auto simp: t)
      with 3(3) [OF False parents_first_tail [OF 3(4)]] False show ?thesis
        by (auto simp: taken_files_def taken_dirs_def add_candidate_sets)
    qed
  qed
qed

section \<open>Lemmas: the walk\<close>

lemma set_below_entry: "set (below w q) = {s. entry w (q @ s) \<noteq> None}"
proof -
  have "(q @ s \<in> fst ` set (files w) \<or> q = [] \<and> s = []) \<longleftrightarrow> entry w (q @ s) \<noteq> None" for s
    using files_entry [of "q @ s" w] by (cases "q @ s = []") auto
  moreover have "set (below w q) = {s. q @ s \<in> fst ` set (files w) \<or> q = [] \<and> s = []}" unfolding set_below by auto
  ultimately show ?thesis by (simp only:)
qed

lemma prefix_le: "prefix s (t :: path) \<Longrightarrow> s \<le> t"
proof -
  have "s \<le> s @ u" for u by (induction s) auto
  then show "prefix s t \<Longrightarrow> s \<le> t" by (auto simp: prefix_def)
qed

lemma sorted_below: "sorted_wrt (\<lambda>s t. s < t) (below w q)"
  by (simp add: below_def strict_sorted_iff)

lemma visit_paths: "e \<in> set (visit w root q s) \<Longrightarrow> event_path e = s"
  by (auto simp: set_visit)

lemma parents_first_visits:
  assumes "sorted_wrt (\<lambda>s t. s < t) ss"
  shows "parents_first (concat (map (visit w root q) ss))"
  using assms
proof (induction ss)
  case Nil
  then show ?case by (simp add: parents_first_def)
next
  case (Cons s ss)
  have "\<not> prefix u (event_path a)" if "a \<in> set (visit w root q s)" "t \<in> set ss" "Visit u n \<in> set (visit w root q t)" for a t u n
    using visit_paths [OF that(1)] visit_paths [OF that(3)] Cons.prems that(2) prefix_le [of u s] by auto
  moreover have "parents_first (visit w root q s)" by (simp add: parents_first_def visit_eq)
  ultimately show ?case using Cons by (auto simp: parents_first_def sorted_wrt_append)
qed

lemma parents_first_WalkDir: "parents_first (WalkDir w root)"
  using parents_first_visits [OF sorted_below]
  by (auto simp: WalkDir_def parents_first_def split: sum.splits)


lemma hidden_by_fault_quiet: "\<forall>c. fault w c = None \<Longrightarrow> \<not> hidden_by_fault w root s"
  by (simp add: hidden_by_fault_def list_ex_iff)

lemma WalkDir_visits:
  assumes wf: "wf_world w" and quiet: "\<forall>c. fault w c = None" and real: "entry w real = Some n0"
  shows "Visit s n \<in> set (WalkDir w real) \<longleftrightarrow> entry w (real @ s) = Some n"
proof -
  have r: "real_path w real" using wf_entry(1) [OF wf] real by simp
  have l: "Lstat w real = Inr n0" using look_entry [OF wf real] quiet by (simp add: Lstat_def)
  show ?thesis
  proof (cases "is_dir n0")
    case True
    have "Visit s n \<in> set (WalkDir w real) \<longleftrightarrow> s \<in> set (below w real) \<and> entry w (real @ s) = Some n"
      using WalkDir_dir [OF l True resolve_real [OF r]] hidden_by_fault_quiet [OF quiet] by (auto simp: set_visit)
    then show ?thesis by (auto simp: set_below_entry)
  next
    case False
    have "s = []" if "entry w (real @ s) = Some n"
    proof (rule ccontr)
      assume "s \<noteq> []"
      with that have "has_children w real" unfolding has_children_iff by (intro exI [of _ "real @ s"]) (auto simp: strict_prefix_def)
      with wf_leaf [OF wf real False] show False ..
    qed
    then show ?thesis using l r real False by (auto simp: WalkDir_def)
  qed
qed

text \<open>What is taken: entries with no hidden directory above them, and themselves not a hidden directory.\<close>

lemma taken_WalkDir:
  assumes wf: "wf_world w" and quiet: "\<forall>c. fault w c = None" and real: "entry w real = Some n0"
  shows "Visit s n \<in> taken (WalkDir w real) \<longleftrightarrow>
    entry w (real @ s) = Some n \<and> (\<forall>c\<in>set (butlast s). \<not> hidden_name c) \<and> (is_dir n \<and> s \<noteq> [] \<longrightarrow> \<not> hidden_name (last s))"
    (is "?L \<longleftrightarrow> ?R")
proof
  note v = WalkDir_visits [OF assms]
  assume t: ?L
  then have e: "entry w (real @ s) = Some n" by (simp add: taken_def v)
  have "\<not> hidden_name c" if "c \<in> set (butlast s)" for c
  proof
    assume h: "hidden_name c"
    from that obtain a b where ab: "butlast s = a @ c # b" by (meson split_list)
    then have "s \<noteq> []" by auto
    then have s: "s = (a @ [c]) @ b @ [last s]" using ab append_butlast_last_id [of s] by simp
    have "strict_prefix (real @ a @ [c]) (real @ s)" by (subst s) (simp add: strict_prefix_def)
    then obtain i where "entry w (real @ a @ [c]) = Some (Dir i)"
      using wf_entry(1) [OF wf, of "real @ s"] e by (auto simp: real_path_def)
    then have "hidden_dir (Visit (a @ [c]) (Dir i))" "Visit (a @ [c]) (Dir i) \<in> set (WalkDir w real)"
      using h by (auto simp: hidden_dir_def v)
    moreover have "prefix (a @ [c]) s" by (subst s) (simp only: prefixI)
    ultimately show False using t by (auto simp: taken_def)
  qed
  with t e show ?R by (auto simp: taken_def hidden_dir_def)
next
  note v = WalkDir_visits [OF assms]
  assume r: ?R
  have "\<not> prefix t s" if "Visit t m \<in> set (WalkDir w real)" "is_dir m" "t \<noteq> []" "hidden_name (last t)" for t m
  proof
    assume p: "prefix t s"
    show False
    proof (cases "t = s")
      case True
      with r that v show False by auto
    next
      case False
      with p obtain u where u: "s = t @ u" "u \<noteq> []" by (auto simp: prefix_def)
      then have "last t \<in> set (butlast s)" using that(3) by (simp add: butlast_append)
      with r that(4) show False by blast
    qed
  qed
  with r show ?L by (auto simp: taken_def hidden_dir_def v)
qed

section \<open>What the index should hold\<close>

text \<open>Under a root: the regular files, by following links, that are in no hidden directory below it, and
  the directories that are neither hidden nor in a hidden one, links to directories included.\<close>

definition adoptable_files :: "world \<Rightarrow> path \<Rightarrow> (int \<times> path) set" where
  "adoptable_files w real = {(z, real @ s) | z s. \<exists>n m. entry w (real @ s) = Some n \<and> \<not> is_dir n
     \<and> (\<forall>c\<in>set (butlast s). \<not> hidden_name c) \<and> Stat w (real @ s) = Inr m \<and> is_reg m \<and> fi_size m = z}"

definition adoptable_dirs :: "world \<Rightarrow> path \<Rightarrow> path set" where
  "adoptable_dirs w real = {real @ s | s. \<exists>n. entry w (real @ s) = Some n \<and>
     (if is_dir n then \<forall>c\<in>set s. \<not> hidden_name c
      else (\<forall>c\<in>set (butlast s). \<not> hidden_name c) \<and> (\<exists>m. Stat w (real @ s) = Inr m \<and> is_dir m))}"

lemma not_hidden_all: "(\<forall>c\<in>set s. \<not> hidden_name c) \<longleftrightarrow> (\<forall>c\<in>set (butlast s). \<not> hidden_name c) \<and> (s \<noteq> [] \<longrightarrow> \<not> hidden_name (last s))"
  by (cases s rule: rev_cases) auto

lemma scan_root_sets:
  assumes "wf_world w" "\<forall>c. fault w c = None" "EvalSymlinks w root = Inr real"
  shows "set (aFiles (scan_root w idx root)) = set (aFiles idx) \<union> adoptable_files w real"
    and "set (aDirs (scan_root w idx root)) = set (aDirs idx) \<union> adoptable_dirs w real"
proof -
  obtain n0 where e: "entry w real = Some n0"
    using assms(3) by (auto simp: EvalSymlinks_def split: option.splits sum.splits)
  have t: "Visit s n \<in> taken (WalkDir w real) \<longleftrightarrow> entry w (real @ s) = Some n
      \<and> (if is_dir n then \<forall>c\<in>set s. \<not> hidden_name c else \<forall>c\<in>set (butlast s). \<not> hidden_name c)" for s n
    using taken_WalkDir [OF assms(1,2) e, of s n] not_hidden_all [of s] by auto
  have "taken_files w real (WalkDir w real) = adoptable_files w real"
    unfolding taken_files_def adoptable_files_def cand_files_def t by auto
  moreover have "taken_dirs w real (WalkDir w real) = adoptable_dirs w real"
    unfolding taken_dirs_def adoptable_dirs_def cand_dirs_def t by (auto split: if_splits)
  ultimately show "set (aFiles (scan_root w idx root)) = set (aFiles idx) \<union> adoptable_files w real"
    "set (aDirs (scan_root w idx root)) = set (aDirs idx) \<union> adoptable_dirs w real"
    using scan_walk_sets [OF parents_first_WalkDir] assms(3) by (simp_all add: scan_root_def)
qed

text \<open>And for the path of a viiwork model: the directory, or the files beside it.\<close>

definition model_files :: "world \<Rightarrow> path \<Rightarrow> (int \<times> path) set" where
  "model_files w p = (if \<exists>n. Stat w p = Inr n \<and> \<not> is_dir n then \<Union>q\<in>set (siblings w (butlast (Clean p))). cand_files w q else {})"

definition model_dirs :: "world \<Rightarrow> path \<Rightarrow> path set" where
  "model_dirs w p = cand_dirs w p
     \<union> (if \<exists>n. Stat w p = Inr n \<and> \<not> is_dir n then \<Union>q\<in>set (siblings w (butlast (Clean p))). cand_dirs w q else {})"

lemma add_candidates_sets:
  "set (aFiles (foldl (\<lambda>idx q. add_candidate w q idx) idx qs)) = set (aFiles idx) \<union> (\<Union>q\<in>set qs. cand_files w q)"
  "set (aDirs (foldl (\<lambda>idx q. add_candidate w q idx) idx qs)) = set (aDirs idx) \<union> (\<Union>q\<in>set qs. cand_dirs w q)"
  by (induction qs arbitrary: idx) (auto simp: add_candidate_sets)

lemma scan_model_path_sets:
  "set (aFiles (scan_model_path w idx p)) = set (aFiles idx) \<union> model_files w p"
  "set (aDirs (scan_model_path w idx p)) = set (aDirs idx) \<union> model_dirs w p"
  by (auto simp: scan_model_path_def model_files_def model_dirs_def cand_dirs_def add_candidates_sets split: sum.splits)

definition viiwork_paths :: "viiwork_yaml \<Rightarrow> (string \<Rightarrow> path) \<Rightarrow> world \<Rightarrow> path \<Rightarrow> path set" where
  "viiwork_paths yaml absolute w vc = (case viiworkModelPaths yaml w vc of Inl _ \<Rightarrow> {} | Inr ps \<Rightarrow> absolute ` set ps)"

text \<open>A fold of steps that each add something to a set adds all of it.\<close>

lemma fold_union:
  assumes "\<And>idx x. F (f idx x) = F idx \<union> g x"
  shows "F (foldl f idx xs) = F idx \<union> (\<Union>x\<in>set xs. g x)"
  using assms by (induction xs arbitrary: idx) auto

lemma scan_viiwork_sets:
  "set (aFiles (scan_viiwork yaml absolute w idx vc)) = set (aFiles idx) \<union> (\<Union>p\<in>viiwork_paths yaml absolute w vc. model_files w p)"
  "set (aDirs (scan_viiwork yaml absolute w idx vc)) = set (aDirs idx) \<union> (\<Union>p\<in>viiwork_paths yaml absolute w vc. model_dirs w p)"
  using fold_union [of "\<lambda>idx. set (aFiles idx)" "scan_model_path w" "model_files w"]
    fold_union [of "\<lambda>idx. set (aDirs idx)" "scan_model_path w" "model_dirs w"]
  by (auto simp: scan_viiwork_def viiwork_paths_def scan_model_path_sets split: sum.splits)

definition real_roots :: "world \<Rightarrow> path list \<Rightarrow> path set" where
  "real_roots w roots = {real. \<exists>root\<in>set roots. EvalSymlinks w root = Inr real}"

lemma real_roots_union:
  "(\<Union>root\<in>set roots. case EvalSymlinks w root of Inl _ \<Rightarrow> {} | Inr real \<Rightarrow> A real) = (\<Union>real\<in>real_roots w roots. A real)"
  by (auto simp: real_roots_def split: sum.splits) (metis sum.inject(2))+

lemma scanAdopt_sets:
  assumes "wf_world w" "\<forall>c. fault w c = None"
  shows "set (aFiles (scanAdopt yaml absolute roots vcs w)) =
      (\<Union>real\<in>real_roots w roots. adoptable_files w real) \<union> (\<Union>vc\<in>set vcs. \<Union>p\<in>viiwork_paths yaml absolute w vc. model_files w p)"
    and "set (aDirs (scanAdopt yaml absolute roots vcs w)) =
      (\<Union>real\<in>real_roots w roots. adoptable_dirs w real) \<union> (\<Union>vc\<in>set vcs. \<Union>p\<in>viiwork_paths yaml absolute w vc. model_dirs w p)"
proof -
  let ?g = "\<lambda>A root. case EvalSymlinks w root of Inl _ \<Rightarrow> {} | Inr real \<Rightarrow> A real"
  have "set (aFiles (scan_root w idx root)) = set (aFiles idx) \<union> ?g (adoptable_files w) root"
    "set (aDirs (scan_root w idx root)) = set (aDirs idx) \<union> ?g (adoptable_dirs w) root" for idx root
    using scan_root_sets [OF assms, of root] by (auto simp: scan_root_def split: sum.splits)
  note roots = fold_union [of "\<lambda>idx. set (aFiles idx)" "scan_root w", OF this(1)] fold_union [of "\<lambda>idx. set (aDirs idx)" "scan_root w", OF this(2)]
  show "set (aFiles (scanAdopt yaml absolute roots vcs w)) =
      (\<Union>real\<in>real_roots w roots. adoptable_files w real) \<union> (\<Union>vc\<in>set vcs. \<Union>p\<in>viiwork_paths yaml absolute w vc. model_files w p)"
    "set (aDirs (scanAdopt yaml absolute roots vcs w)) =
      (\<Union>real\<in>real_roots w roots. adoptable_dirs w real) \<union> (\<Union>vc\<in>set vcs. \<Union>p\<in>viiwork_paths yaml absolute w vc. model_dirs w p)"
    unfolding scanAdopt_def
      fold_union [of "\<lambda>idx. set (aFiles idx)" "scan_viiwork yaml absolute w", OF scan_viiwork_sets(1)]
      fold_union [of "\<lambda>idx. set (aDirs idx)" "scan_viiwork yaml absolute w", OF scan_viiwork_sets(2)]
    by (simp_all add: roots real_roots_union)
qed


section \<open>Properties\<close>

text \<open>C31. The adoption index is exact: on a quiet file system it lists as files, each with its size, exactly
  the regular files (links followed) under the configured roots that are in no hidden directory below
  their root, and those beside a viiwork model file; and as directories exactly the roots and the
  directories below them that are not hidden or in a hidden one, links to directories included, and the
  viiwork model directories. So no copy is missed, and nothing of \<open>.incoming\<close> or \<open>.quarantine\<close> is adopted
  when \<open>data_dir\<close> lies under a root.\<close>

theorem adopt_index_exact:
  assumes "wf_world w" "\<forall>c. fault w c = None"
  shows "set (aFiles (scanAdopt yaml absolute roots vcs w)) =
      (\<Union>real\<in>real_roots w roots. adoptable_files w real) \<union> (\<Union>vc\<in>set vcs. \<Union>p\<in>viiwork_paths yaml absolute w vc. model_files w p)
    \<and> set (aDirs (scanAdopt yaml absolute roots vcs w)) =
      (\<Union>real\<in>real_roots w roots. adoptable_dirs w real) \<union> (\<Union>vc\<in>set vcs. \<Union>p\<in>viiwork_paths yaml absolute w vc. model_dirs w p)"
  by (intro conjI scanAdopt_sets [OF assms])

theorem adopt_index_exact_witness:
  "(1, [''d'', ''a'']) \<in> set (aFiles (scanAdopt (\<lambda>_. None) FromSlash [[''d'']] [] demo_jworld))
   \<and> (3, [''d'', ''.incoming'', ''a'']) \<notin> set (aFiles (scanAdopt (\<lambda>_. None) FromSlash [[''d'']] [] demo_jworld))"
proof -
  have quiet: "\<forall>c. fault demo_jworld c = None" by (simp add: fault_def demo_jworld_def)
  have res: "resolve demo_jworld [''d''] True = Inr [''d'']" "resolve demo_jworld [''d'', ''a''] True = Inr [''d'', ''a'']"
    using resolve_real_follow [OF wf_entry(1) [OF demo_jwf, of "[''d'']"]] resolve_real_follow [OF wf_entry(1) [OF demo_jwf, of "[''d'', ''a'']"]]
    by (simp_all add: demo_jentry)
  have "EvalSymlinks demo_jworld [''d''] = Inr [''d'']" using quiet res(1) by (simp add: EvalSymlinks_def demo_jentry)
  then have root: "real_roots demo_jworld [[''d'']] = {[''d'']}" by (auto simp: real_roots_def)
  have a: "Stat demo_jworld [''d'', ''a''] = Inr (Reg 4 ''x'' 9)"
    using quiet res(2) by (simp add: Stat_def look_def demo_jentry)
  have "(1, [''d'', ''a'']) \<in> adoptable_files demo_jworld [''d'']"
    unfolding adoptable_files_def using a by (intro CollectI exI [of _ 1] exI [of _ "[''a'']"]) (simp add: demo_jentry)
  moreover have "(3, [''d'', ''.incoming'', ''a'']) \<notin> adoptable_files demo_jworld [''d'']"
    by (auto simp: adoptable_files_def hidden_name_def)
  ultimately show ?thesis
    using adopt_index_exact [OF demo_jwf quiet, of "\<lambda>_. None" FromSlash "[[''d'']]" "[]"] by (simp add: root)
qed

end
