(* ===== verification/Packet.thy ===== *)
theory Packet
  imports Throttle "HOL-Library.Word"
begin

unbundle bit_operations_syntax

text \<open>
  \<open>internal/throttle/packet.go\<close>: the UDP socket that carries uTP, DHT and local discovery. Outgoing uTP
  waits for the upload limit; incoming uTP over the download limit is dropped, never waited for.

  What the socket receives is a list of answers, one for each \<open>ReadFrom\<close>; the token bucket is a state
  with its \<open>AllowN\<close>, both parameters.
\<close>

section \<open>Packets\<close>

type_synonym packet = "8 word list"

definition isUTP :: "packet \<Rightarrow> bool" where
  "isUTP b \<longleftrightarrow> 20 \<le> length b \<and> b ! 0 AND 0x0f = 1 \<and> drop_bit 4 (b ! 0) \<le> 4"

record answer =
  bytes_read :: packet
  from_addr :: NetAddr
  read_err :: bool

section \<open>Receiving\<close>

text \<open>One call of \<open>ReadFrom\<close>: the answer it returns, what is still to be received, and the bucket. \<open>None\<close>: it
  is still waiting for a packet. The policy is that of \<open>Throttle\<close>, with its parsers of addresses.\<close>

fun ReadFrom :: "(string \<Rightarrow> Addr option) \<Rightarrow> (string \<Rightarrow> Addr option) \<Rightarrow> Policy \<Rightarrow> ('b \<Rightarrow> nat \<Rightarrow> bool \<times> 'b) \<Rightarrow> answer list \<Rightarrow> 'b
    \<Rightarrow> answer option \<times> answer list \<times> 'b" where
  "ReadFrom pap pa p allowN [] b = (None, [], b)"
| "ReadFrom pap pa p allowN (a # as) b =
     (if \<not> read_err a \<and> length (bytes_read a) > 0 \<and> isUTP (bytes_read a) \<and> Throttled pap pa p (from_addr a)
      then (case allowN b (length (bytes_read a)) of
              (False, b') \<Rightarrow> ReadFrom pap pa p allowN as b'
            | (True, b') \<Rightarrow> (Some a, as, b'))
      else (Some a, as, b))"

section \<open>Sending\<close>

datatype 'e send_result = Sent "int \<times> 'e option" | SendClosed | SendWaiting

text \<open>\<open>WriteTo\<close>: what the socket's own \<open>WriteTo\<close> answers (\<open>wr\<close>), after the wait where there is one, or
  \<open>net.ErrClosed\<close>. The packet is given to the socket whole.\<close>

definition WriteTo :: "(string \<Rightarrow> Addr option) \<Rightarrow> (string \<Rightarrow> Addr option) \<Rightarrow> Policy \<Rightarrow> turn list \<Rightarrow> (packet \<Rightarrow> NetAddr \<Rightarrow> int \<times> 'e option) \<Rightarrow> packet \<Rightarrow> NetAddr \<Rightarrow> 'e send_result" where
  "WriteTo pap pa p ts wr b addr =
     (if isUTP b \<and> Throttled pap pa p addr
      then (case fst (waitN ts (int (length b))) of
              WaitOk \<Rightarrow> Sent (wr b addr)
            | WaitErr \<Rightarrow> SendClosed
            | StillWaiting \<Rightarrow> SendWaiting)
      else Sent (wr b addr))"

section \<open>Lemmas\<close>

text \<open>What a socket delivers over its life: one call of \<open>ReadFrom\<close> after the other.\<close>

lemma ReadFrom_rest: "ReadFrom pap pa p allowN as b = (Some a, rest, b') \<Longrightarrow> length rest < length as"
  by (induction as arbitrary: b) (auto split: if_splits prod.splits bool.splits, fastforce)

function (sequential) received :: "(string \<Rightarrow> Addr option) \<Rightarrow> (string \<Rightarrow> Addr option) \<Rightarrow> Policy \<Rightarrow> ('b \<Rightarrow> nat \<Rightarrow> bool \<times> 'b) \<Rightarrow> answer list \<Rightarrow> 'b
    \<Rightarrow> answer list" where
  "received pap pa p allowN as b =
     (case ReadFrom pap pa p allowN as b of
        (None, _, _) \<Rightarrow> []
      | (Some a, rest, b') \<Rightarrow> a # received pap pa p allowN rest b')"
  by pat_completeness auto
termination by (relation "measure (\<lambda>(_, _, _, _, as, _). length as)") (auto dest: sym [THEN ReadFrom_rest] ReadFrom_rest)

declare received.simps [simp del]

lemma received_Nil [simp]: "received pap pa p allowN [] b = []"
  by (simp add: received.simps)

text \<open>The answers that are subject to the limit, by the bytes of the header: the version, one, in the low half of the first
  byte and one of the five packet types in the high half.\<close>

definition policed :: "(string \<Rightarrow> Addr option) \<Rightarrow> (string \<Rightarrow> Addr option) \<Rightarrow> Policy \<Rightarrow> answer \<Rightarrow> bool" where
  "policed pap pa p a \<longleftrightarrow> \<not> read_err a \<and> 20 \<le> length (bytes_read a) \<and> hd (bytes_read a) \<in> {0x01, 0x11, 0x21, 0x31, 0x41}
     \<and> (ThrottleLocal p \<or> \<not> IsLocal pap pa (plocal p) (from_addr a))"

lemma utp_byte: "(w :: 8 word) AND 0x0f = 1 \<and> drop_bit 4 w \<le> 4 \<longleftrightarrow> w \<in> {0x01, 0x11, 0x21, 0x31, 0x41}"
proof -
  define n where "n = unat w"
  have "w AND 0x0f = take_bit 4 w" by (simp add: take_bit_eq_mask mask_eq_exp_minus_1)
  moreover have "unat (take_bit 4 w) = n mod 16" unfolding unsigned_take_bit_eq n_def by (simp add: take_bit_eq_mod)
  ultimately have "w AND 0x0f = 1 \<longleftrightarrow> n mod 16 = 1" by (simp only: word_unat_eq_iff unat_1)
  moreover have "drop_bit 4 w \<le> 4 \<longleftrightarrow> n div 16 \<le> 4"
    unfolding word_le_nat_alt unat_drop_bit_eq n_def by (simp add: drop_bit_eq_div)
  moreover have "w \<in> {0x01, 0x11, 0x21, 0x31, 0x41} \<longleftrightarrow> n \<in> {1, 17, 33, 49, 65}"
    by (auto simp: n_def word_unat_eq_iff)
  moreover have "n mod 16 = 1 \<and> n div 16 \<le> 4 \<longleftrightarrow> n \<in> {1, 17, 33, 49, 65}" by auto presburger
  ultimately show ?thesis by simp
qed

lemma isUTP_iff: "isUTP b \<longleftrightarrow> 20 \<le> length b \<and> hd b \<in> {0x01, 0x11, 0x21, 0x31, 0x41}"
  using utp_byte [of "hd b"] by (cases b) (auto simp: isUTP_def)

lemma received_Cons:
  "received pap pa p allowN (a # as) b =
     (if policed pap pa p a
      then (case allowN b (length (bytes_read a)) of (ok, b') \<Rightarrow> (if ok then [a] else []) @ received pap pa p allowN as b')
      else a # received pap pa p allowN as b)"
proof -
  have "policed pap pa p a \<longleftrightarrow> \<not> read_err a \<and> length (bytes_read a) > 0 \<and> isUTP (bytes_read a) \<and> Throttled pap pa p (from_addr a)"
    by (cases "bytes_read a") (auto simp: policed_def isUTP_iff Throttled_def)
  then show ?thesis
    by (subst received.simps) (auto simp: received.simps [of pap pa p allowN as] split: prod.splits bool.splits)
qed

text \<open>The bucket's answers to the requests for the policed packets, in order.\<close>

fun grants :: "('b \<Rightarrow> nat \<Rightarrow> bool \<times> 'b) \<Rightarrow> 'b \<Rightarrow> nat list \<Rightarrow> bool list" where
  "grants allowN b [] = []"
| "grants allowN b (n # ns) = (case allowN b n of (ok, b') \<Rightarrow> ok # grants allowN b' ns)"

lemma received_policed:
  "filter (policed pap pa p) (received pap pa p allowN as b) =
     map fst (filter snd (zip (filter (policed pap pa p) as)
       (grants allowN b (map (length \<circ> bytes_read) (filter (policed pap pa p) as)))))"
  by (induction as arbitrary: b) (auto simp: received_Cons split: prod.splits)

lemma received_free:
  "filter (\<lambda>a. \<not> policed pap pa p a) (received pap pa p allowN as b) = filter (\<lambda>a. \<not> policed pap pa p a) as"
  by (induction as arbitrary: b) (auto simp: received_Cons split: prod.splits)

lemma received_subseq: "subseq (received pap pa p allowN as b) as"
  by (induction as arbitrary: b) (auto simp: received_Cons split: prod.splits)

section \<open>Properties\<close>

text \<open>C35. Policing spares everything else. Of what the socket receives, exactly these packets are subject to the download limit: reads without
  an error, of at least twenty bytes, whose first byte is that of a uTP packet (0x01, 0x11, 0x21, 0x31 or 0x41), from a peer that is
  throttled, which every peer is with \<open>ThrottleLocal\<close>, and otherwise every one that is not local. All the
  others, so DHT and other traffic, packets of peers that are not throttled, short and empty reads and errors, are delivered without being charged to the
  limit; and of the packets that are subject to it exactly those are delivered for which the token bucket, asked once for each in
  their order with its length, has tokens. What is delivered keeps its order.\<close>

theorem packet_policing_exact:
  "let lim = (\<lambda>a. \<not> read_err a \<and> 20 \<le> length (bytes_read a) \<and> hd (bytes_read a) \<in> {0x01, 0x11, 0x21, 0x31, 0x41}
           \<and> (ThrottleLocal p \<or> \<not> IsLocal pap pa (plocal p) (from_addr a)));
       got = received pap pa p allowN as b
   in filter (\<lambda>a. \<not> lim a) got = filter (\<lambda>a. \<not> lim a) as
    \<and> filter lim got = map fst (filter snd (zip (filter lim as) (grants allowN b (map (length \<circ> bytes_read) (filter lim as)))))
    \<and> subseq got as"
  unfolding Let_def policed_def [symmetric] by (intro conjI received_free received_policed received_subseq)

text \<open>A uTP packet from a peer that is not local, for which the bucket has no tokens, and a DHT query behind it.\<close>

definition demo_utp :: answer where
  "demo_utp = \<lparr>bytes_read = 0x41 # replicate 19 0, from_addr = NilAddr, read_err = False\<rparr>"

definition demo_dht :: answer where
  "demo_dht = \<lparr>bytes_read = 0x64 # replicate 30 0x31, from_addr = NilAddr, read_err = False\<rparr>"

theorem packet_policing_exact_witness:
  "received (\<lambda>_. None) (\<lambda>_. None) \<lparr>plocal = None, ThrottleLocal = False\<rparr> (\<lambda>b n. (False, b)) [demo_utp, demo_dht] () = [demo_dht]"
proof -
  let ?got = "received (\<lambda>_. None) (\<lambda>_. None) \<lparr>plocal = None, ThrottleLocal = False\<rparr> (\<lambda>b n. (False, b)) [demo_utp, demo_dht] ()"
    and ?lim = "\<lambda>a. \<not> read_err a \<and> 20 \<le> length (bytes_read a) \<and> hd (bytes_read a) \<in> {0x01, 0x11, 0x21, 0x31, 0x41}"
  have nl: "\<not> IsLocal (\<lambda>_. None) (\<lambda>_. None) None a" for a by (cases a) (simp_all add: IsLocal_def isLocalAddr_def IsLocalString_def)
  have l: "?lim demo_utp" "\<not> ?lim demo_dht" by (simp_all add: demo_utp_def demo_dht_def)
  have "filter (\<lambda>a. \<not> ?lim a) ?got = filter (\<lambda>a. \<not> ?lim a) [demo_utp, demo_dht]"
    "filter ?lim ?got = map fst (filter snd (zip (filter ?lim [demo_utp, demo_dht])
       (grants (\<lambda>b n. (False, b)) () (map (length \<circ> bytes_read) (filter ?lim [demo_utp, demo_dht])))))"
    using packet_policing_exact [of "\<lparr>plocal = None, ThrottleLocal = False\<rparr>" "\<lambda>_. None" "\<lambda>_. None" "\<lambda>b n. (False, b)" "[demo_utp, demo_dht]" "()"]
    unfolding Let_def Policy.simps by (simp_all only: nl HOL.simp_thms)
  with l have "filter (\<lambda>a. \<not> ?lim a) ?got = [demo_dht]" "filter ?lim ?got = []" by (simp_all only: filter.simps if_True if_False HOL.simp_thms) simp
  moreover from this(2) have "filter (\<lambda>a. \<not> ?lim a) ?got = ?got" by (auto simp: filter_empty_conv intro!: filter_True)
  ultimately show ?thesis by simp
qed

lemma write_to_spares: "\<not> (isUTP b \<and> Throttled pap pa p addr) \<Longrightarrow> WriteTo pap pa p ts wr b addr = Sent (wr b addr)"
  by (auto simp: WriteTo_def)

lemma write_to_waits:
  assumes "isUTP b" "Throttled pap pa p addr" "list_all (limited 1) ts" "WriteTo pap pa p ts wr b addr = Sent r"
  shows "r = wr b addr \<and> sum_list (snd (waitN ts (int (length b)))) = int (length b)"
proof -
  obtain q gs where w: "waitN ts (int (length b)) = (q, gs)" by force
  from waitN_grants [OF assms(3) w] assms w show ?thesis by (auto simp: WriteTo_def split: wait_result.splits)
qed

end
