(* ===== verification/Mktorrent.thy ===== *)
theory Mktorrent
  imports DirJob
begin

text \<open>
  \<open>internal/mktorrent\<close>: building the torrents that are published, of one file (\<open>mktorrent.go\<close>) or of a
  folder (\<open>dir.go\<close>), and writing a torrent file so that a reader never sees a part of one.

  The torrent library is a parameter (\<open>metalib\<close>): the choice of a piece length, the hashing of the pieces of
  a sequence of file contents, the bencoding of an info dict and of a torrent, the infohash of an
  encoded info dict, and the text of a magnet link.
\<close>

section \<open>Data\<close>

text \<open>\<open>metainfo.Info\<close>: \<open>iFiles\<close> is empty for a single file.\<close>

record Info =
  iName :: string
  iLength :: int
  iFiles :: "(string list \<times> int) list"
  iPieceLength :: int
  iPieces :: bytes

record MetaInfo =
  InfoBytes :: bytes
  miAnnounce :: string
  AnnounceList :: "string list list"
  UrlList :: "string list"
  CreatedBy :: string
  CreationDate :: int
  Comment :: string

record Magnet =
  mgInfoHash :: string
  mgDisplayName :: string
  mgTrackers :: "string list"
  mgWs :: string

record metalib =
  ChoosePieceLength :: "int \<Rightarrow> int"
  GeneratePieces :: "int \<Rightarrow> bytes list \<Rightarrow> bytes option"
  MarshalInfo :: "Info \<Rightarrow> bytes option"
  HashInfoBytes :: "bytes \<Rightarrow> string"
  MarshalMeta :: "MetaInfo \<Rightarrow> bytes option"
  MagnetString :: "Magnet \<Rightarrow> string"
  NowUnix :: int

record Result =
  rMetaInfo :: MetaInfo
  rInfoHash :: string
  rMagnet :: string

datatype build_error =
    StatFailed errno | NotRegularFile | BadWebSeed | PiecesFailed | MarshalFailed
  | BadInfoName string | NoFilesGiven | ListedTwice string | NotCleanPath string
  | IndexPanic                             \<comment> \<open>\<open>ann[0][0]\<close> of an empty list\<close>

definition DefaultAnnounce :: "string list list" where
  "DefaultAnnounce =
     [[''https://parrot.lnx.fi/announce''], [''udp://tracker.pirateface.co:6969/announce''],
      [''udp://tracker.opentrackr.org:1337/announce''], [''udp://open.stealth.si:80/announce'']]"

section \<open>From an info dict to a torrent\<close>

definition finish_torrent :: "metalib \<Rightarrow> Info \<Rightarrow> string list list option \<Rightarrow> string \<Rightarrow> string \<Rightarrow> string \<Rightarrow> build_error + Result" where
  "finish_torrent L info ann webSeed comment displayName =
     (case MarshalInfo L info of
        None \<Rightarrow> Inl MarshalFailed
      | Some infoBytes \<Rightarrow>
          (let tiers = (case ann of None \<Rightarrow> DefaultAnnounce | Some a \<Rightarrow> a)
           in case tiers of
                (first # _) # _ \<Rightarrow>
                  (let mi = \<lparr>InfoBytes = infoBytes, miAnnounce = first, AnnounceList = tiers, UrlList = [webSeed],
                             CreatedBy = ''viiwork-parrot'', CreationDate = NowUnix L, Comment = comment\<rparr>;
                       ih = HashInfoBytes L infoBytes
                   in Inr \<lparr>rMetaInfo = mi, rInfoHash = ih,
                           rMagnet = MagnetString L \<lparr>mgInfoHash = ih, mgDisplayName = displayName, mgTrackers = concat tiers, mgWs = webSeed\<rparr>\<rparr>)
              | _ \<Rightarrow> Inl IndexPanic))"

section \<open>A single file\<close>

record BuildOptions =
  oPath :: path
  oName :: string
  oWebSeed :: string
  oAnnounce :: "string list list option"
  oComment :: string

definition Build_file :: "metalib \<Rightarrow> world \<Rightarrow> BuildOptions \<Rightarrow> build_error + Result" where
  "Build_file L w opt =
     (case Stat w (oPath opt) of
        Inl e \<Rightarrow> Inl (StatFailed e)
      | Inr fi \<Rightarrow>
          if \<not> is_reg fi then Inl NotRegularFile
          else if oWebSeed opt = '''' \<or> HasSuffix (oWebSeed opt) ''/'' then Inl BadWebSeed
          else let pl = ChoosePieceLength L (fi_size fi)
               in case ReadFile w (oPath opt) of
                    Inl _ \<Rightarrow> Inl PiecesFailed
                  | Inr content \<Rightarrow>
                      (case GeneratePieces L pl [content] of
                         None \<Rightarrow> Inl PiecesFailed
                       | Some ps \<Rightarrow>
                           finish_torrent L \<lparr>iName = oName opt, iLength = fi_size fi, iFiles = [], iPieceLength = pl, iPieces = ps\<rparr>
                             (oAnnounce opt) (oWebSeed opt) (oComment opt) (oName opt)))"

section \<open>A folder\<close>

text \<open>\<open>path.Clean\<close> and \<open>filepath.IsLocal\<close> on slash-separated names.\<close>

definition rel_step :: "string list \<Rightarrow> string \<Rightarrow> string list" where
  "rel_step acc c =
     (if c = '''' \<or> c = ''.'' then acc
      else if c = ''..'' then (if acc = [] \<or> last acc = ''..'' then acc @ [''..''] else butlast acc)
      else acc @ [c])"

definition path_Clean :: "string \<Rightarrow> string" where
  "path_Clean s =
     (if HasPrefix s ''/'' then ''/'' @ Join ''/'' (foldl clean_step [] (Split (CHR ''/'') s))
      else case foldl rel_step [] (Split (CHR ''/'') s) of [] \<Rightarrow> ''.'' | cs \<Rightarrow> Join ''/'' cs)"

definition IsLocal_path :: "string \<Rightarrow> bool" where
  "IsLocal_path s \<longleftrightarrow> s \<noteq> '''' \<and> \<not> HasPrefix s ''/'' \<and> path_Clean s \<noteq> ''..'' \<and> \<not> HasPrefix (path_Clean s) ''../''"

definition clean_relative :: "string \<Rightarrow> bool" where
  "clean_relative rel \<longleftrightarrow> \<not> (rel = '''' \<or> path_Clean rel \<noteq> rel \<or> \<not> IsLocal_path rel \<or> CHR 0x5C \<in> set rel)"

record DirOptions =
  dRoot :: path
  dName :: string
  dDisplayName :: string
  dirFiles :: "string list"
  dWebSeed :: string
  dAnnounce :: "string list list option"
  dComment :: string

text \<open>The loop over the sorted names. A name equal to the one before it is listed twice.\<close>

fun dir_infos :: "world \<Rightarrow> path \<Rightarrow> string option \<Rightarrow> string list \<Rightarrow> build_error + (string list \<times> int) list" where
  "dir_infos w root prev [] = Inr []"
| "dir_infos w root prev (rel # rels) =
     (if prev = Some rel then Inl (ListedTwice rel)
      else if \<not> clean_relative rel then Inl (NotCleanPath rel)
      else case Stat w (join_rel root rel) of
        Inl e \<Rightarrow> Inl (StatFailed e)
      | Inr fi \<Rightarrow>
          if \<not> is_reg fi then Inl NotRegularFile
          else case dir_infos w root (Some rel) rels of
            Inl e \<Rightarrow> Inl e
          | Inr fs \<Rightarrow> Inr ((Split (CHR ''/'') rel, fi_size fi) # fs))"

text \<open>The files opened one after the other for the hashing of the pieces: their names and contents, as a
  \<open>Tee\<close> gets to see them.\<close>

fun open_all :: "world \<Rightarrow> path \<Rightarrow> (string list \<times> int) list \<Rightarrow> (string \<times> bytes) list option" where
  "open_all w root [] = Some []"
| "open_all w root ((comps, len) # fs) =
     (case ReadFile w (join_rel root (Join ''/'' comps)) of
        Inl _ \<Rightarrow> None
      | Inr content \<Rightarrow> map_option (\<lambda>xs. (Join ''/'' comps, content) # xs) (open_all w root fs))"

definition BuildDir :: "metalib \<Rightarrow> world \<Rightarrow> DirOptions \<Rightarrow> build_error + Result \<times> (string \<times> bytes) list" where
  "BuildDir L w opt =
     (if \<not> HasSuffix (dWebSeed opt) ''/'' then Inl BadWebSeed
      else if dName opt = '''' \<or> CHR ''/'' \<in> set (dName opt) \<or> CHR 0x5C \<in> set (dName opt) then Inl (BadInfoName (dName opt))
      else if dirFiles opt = [] then Inl NoFilesGiven
      else case dir_infos w (dRoot opt) None (sort (dirFiles opt)) of
        Inl e \<Rightarrow> Inl e
      | Inr infos \<Rightarrow>
          (let pl = ChoosePieceLength L (foldl (\<lambda>t (_, len). i64 (t + len)) 0 infos)
           in case open_all w (dRoot opt) infos of
                None \<Rightarrow> Inl PiecesFailed
              | Some opened \<Rightarrow>
                  (case GeneratePieces L pl (map snd opened) of
                     None \<Rightarrow> Inl PiecesFailed
                   | Some ps \<Rightarrow>
                       (case finish_torrent L \<lparr>iName = dName opt, iLength = 0, iFiles = infos, iPieceLength = pl, iPieces = ps\<rparr>
                               (dAnnounce opt) (dWebSeed opt) (dComment opt)
                               (if dDisplayName opt = '''' then dName opt else dDisplayName opt) of
                          Inl e \<Rightarrow> Inl e
                        | Inr r \<Rightarrow> Inr (r, opened)))))"

section \<open>Writing a torrent\<close>

datatype write_error = CreateFailed errno | EncodeFailed | CloseFailed | ChmodFailed | RenameFailed errno

text \<open>\<open>os.CreateTemp\<close> tries names with random numbers, \<open>ns\<close> here, until it creates a file that was not
  there. The names it tries end in decimal digits.\<close>

definition temp_name :: "path \<Rightarrow> nat \<Rightarrow> path" where
  "temp_name p n = butlast p @ [''.'' @ last p @ ''.tmp'' @ itoa n]"

fun CreateTemp :: "world \<Rightarrow> path \<Rightarrow> nat list \<Rightarrow> (errno + path) \<times> world" where
  "CreateTemp w p [] = (Inl EEXIST, w)"
| "CreateTemp w p (n # ns) =
     (case fault w (SWriteFile (temp_name p n)) of
        Some e \<Rightarrow> (Inl e, w)
      | None \<Rightarrow>
          (case resolve w (temp_name p n) False of
             Inl e \<Rightarrow> (Inl e, w)
           | Inr q \<Rightarrow>
               (case entry w q of
                  Some _ \<Rightarrow> CreateTemp w p ns
                | None \<Rightarrow> (Inr (temp_name p n), put (w\<lparr>next_ino := Suc (next_ino w)\<rparr>) q (Reg (next_ino w) '''' (clock w))))))"

text \<open>What the calls on the open file do: the bytes that are written before an error, and whether closing
  and changing the mode fail.\<close>

record wobs =
  suffixes :: "nat list"
  written :: "nat option"                  \<comment> \<open>the bytes written before the write fails\<close>
  closeFails :: bool
  chmodFails :: bool

definition fill :: "world \<Rightarrow> path \<Rightarrow> bytes \<Rightarrow> world" where
  "fill w tmp data =
     (case resolve w tmp False of
        Inl _ \<Rightarrow> w
      | Inr q \<Rightarrow> (case entry w q of Some (Reg i _ _) \<Rightarrow> put w q (Reg i data (clock w)) | _ \<Rightarrow> w))"

text \<open>The result, the last world, and the worlds that somebody who reads meanwhile may see.\<close>

definition WriteTorrent :: "metalib \<Rightarrow> wobs \<Rightarrow> world \<Rightarrow> path \<Rightarrow> MetaInfo \<Rightarrow> write_error option \<times> world \<times> world list" where
  "WriteTorrent L ob w p mi =
     (case CreateTemp w p (suffixes ob) of
        (Inl e, w1) \<Rightarrow> (Some (CreateFailed e), w1, [])
      | (Inr tmp, w1) \<Rightarrow>
          (case MarshalMeta L mi of
             None \<Rightarrow> (Some EncodeFailed, snd (Remove w1 tmp), [w1])
           | Some data \<Rightarrow>
               (case written ob of
                  Some k \<Rightarrow> (let w2 = fill w1 tmp (take k data) in (Some EncodeFailed, snd (Remove w2 tmp), [w1, w2]))
                | None \<Rightarrow>
                    (let w2 = fill w1 tmp data
                     in if closeFails ob then (Some CloseFailed, snd (Remove w2 tmp), [w1, w2])
                        else if chmodFails ob then (Some ChmodFailed, snd (Remove w2 tmp), [w1, w2])
                        else (case Rename w2 tmp p of
                                (Some e, w3) \<Rightarrow> (Some (RenameFailed e), snd (Remove w3 tmp), [w1, w2])
                              | (None, w3) \<Rightarrow> (None, w3, [w1, w2]))))))"

section \<open>Lemmas: writing\<close>

lemma itoa_digits: "c \<in> set (itoa n) \<Longrightarrow> \<exists>d<10. c = char_of (48 + d :: nat)"
proof (induction n rule: itoa.induct)
  case (1 n)
  then consider "n < 10" "c = char_of (48 + n)" | "\<not> n < 10" "c \<in> set (itoa (n div 10))" | "c = char_of (48 + n mod 10)"
    by (subst (asm) (2) itoa.simps) (auto split: if_splits)
  then show ?case by cases (use 1 in \<open>auto intro: exI [of _ "n mod 10"]\<close>)
qed

lemma itoa_no_slash: "CHR ''/'' \<notin> set (itoa n)"
proof
  assume "CHR ''/'' \<in> set (itoa n)"
  then obtain d where "d < 10" "CHR ''/'' = char_of (48 + d :: nat)" using itoa_digits by blast
  then have "of_char (CHR ''/'') = (48 + d :: nat) mod 256" by (simp add: of_char_mod_256)
  then show False using \<open>d < 10\<close> by simp
qed

lemma temp_name_real:
  assumes "real_path w p" "p \<noteq> []"
  shows "real_path w (temp_name p n)"
proof -
  obtain d b where p: "p = d @ [b]" using assms(2) by (metis append_butlast_last_id)
  have "real_path w d" using assms(1) p real_path_append by blast
  moreover have "\<exists>i. entry w d = Some (Dir i)" using assms(1) by (auto simp: p real_path_def strict_prefix_def)
  moreover have "CHR ''/'' \<notin> set b" using assms(1) by (simp add: p real_path_def)
  ultimately show ?thesis using itoa_no_slash [of n] by (auto simp: p temp_name_def clean_path_def intro!: real_path_child)
qed

lemma temp_name_apart:
  assumes "p \<noteq> []"
  shows "temp_name p n \<noteq> []" "\<not> prefix p (temp_name p n)" "\<not> prefix (temp_name p n) p" "temp_name p n \<noteq> p"
proof -
  obtain d b where p: "p = d @ [b]" using assms by (metis append_butlast_last_id)
  have "b \<noteq> ''.'' @ b @ ''.tmp'' @ itoa n" by (metis append_Cons length_append length_Cons append_Nil not_add_less1 add.commute less_add_Suc1 lessI)
  then show "temp_name p n \<noteq> []" "\<not> prefix p (temp_name p n)" "\<not> prefix (temp_name p n) p" "temp_name p n \<noteq> p"
    by (auto simp: temp_name_def p)
qed

lemma CreateTemp_result:
  assumes "real_path w p" "p \<noteq> []"
  obtains (failed) e where "CreateTemp w p ns = (Inl e, w)"
  | (created) n where "CreateTemp w p ns = (Inr (temp_name p n), put (w\<lparr>next_ino := Suc (next_ino w)\<rparr>) (temp_name p n) (Reg (next_ino w) '''' (clock w)))"
      "entry w (temp_name p n) = None"
proof -
  have "(\<exists>e. CreateTemp w p ns = (Inl e, w)) \<or>
    (\<exists>n. CreateTemp w p ns = (Inr (temp_name p n), put (w\<lparr>next_ino := Suc (next_ino w)\<rparr>) (temp_name p n) (Reg (next_ino w) '''' (clock w)))
      \<and> entry w (temp_name p n) = None)"
    by (induction ns) (auto simp: temp_name_real [OF assms] split: option.splits)
  then show thesis using that by blast
qed

text \<open>A world that differs from another at most in one file, which the other does not have.\<close>

definition only_at :: "world \<Rightarrow> path \<Rightarrow> world \<Rightarrow> bool" where
  "only_at w q w' \<longleftrightarrow> entry w q = None \<and> (\<forall>r. r \<noteq> q \<longrightarrow> entry w' r = entry w r)"

lemma only_at_entry: "only_at w q w' \<Longrightarrow> r \<noteq> q \<Longrightarrow> entry w' r = entry w r"
  by (simp add: only_at_def)

lemma only_at_real: "only_at w q w' \<Longrightarrow> real_path w p \<Longrightarrow> real_path w' p"
  unfolding only_at_def real_path_def by (metis option.distinct(1))


lemma fill_real:
  assumes "real_path w tmp" "tmp \<noteq> []" "entry w tmp = Some (Reg i c t)"
  shows "fill w tmp data = put w tmp (Reg i data (clock w))"
  using assms by (simp add: fill_def)

lemma Rename_over:
  assumes "Rename w p q = (None, w')" "real_path w p" "real_path w q" "entry w p = Some (Reg i c t)" "p \<noteq> []"
    "\<not> prefix p q" "\<not> prefix q p" "\<And>r. strict_prefix p r \<Longrightarrow> entry w r = None"
    "\<And>r. strict_prefix q r \<Longrightarrow> entry w r = None"
  shows "entry w' r = (if r = q then Some (Reg i c t) else if r = p then None else entry w r)"
proof -
  have "rename2 w p q = (None, w')"
    using assms(1-3) by (auto simp: Rename_def Let_def split: option.splits sum.splits if_splits)
  then have "w' = move_tree w p q"
    using assms(4,6,7) by (auto simp: rename2_def split: option.splits if_splits)
  moreover have "entry w (p @ drop (length q) r) = None" if "prefix q r" "r \<noteq> q"
    using that assms(8) [of "p @ drop (length q) r"] by (cases "drop (length q) r") (auto simp: prefix_def strict_prefix_def)
  ultimately show ?thesis using assms(4,6-9) by (auto simp: entry_move_tree strict_prefix_def)
qed

lemma Rename_blocked:
  assumes "real_path w p" "real_path w q" "entry w p = Some (Reg i c t)" "entry w q = Some (Dir k)"
  shows "\<exists>e. Rename w p q = (Some e, w)"
  using assms by (auto simp: Rename_def rename2_def Lstat_def Let_def split: option.splits sum.splits)

text \<open>A regular file has nothing below it, nor has a place without an entry.\<close>

lemma wf_nothing_below:
  assumes "wf_world w" "\<And>i. entry w p \<noteq> Some (Dir i)" "strict_prefix p r"
  shows "entry w r = None"
  using wf_entry(1) [OF assms(1), of r] assms(2,3) unfolding real_path_def by blast

text \<open>What is left of the temporary file when the write gives up: at most that file.\<close>

lemma give_up_write:
  assumes "only_at w tmp w'" "real_path w tmp" "tmp \<noteq> []"
  shows "only_at w tmp (snd (Remove w' tmp))"
proof (cases "Remove w' tmp")
  case (Pair r w'')
  then have "w'' = w' \<or> w'' = del w' tmp"
    using Remove_real [OF Pair] only_at_real [OF assms(1,2)] by blast
  then show ?thesis using assms(1) by (auto simp: Pair only_at_def)
qed

text \<open>The file at \<open>p\<close> is as it was, and so is everything else but at most a temporary file that is new.\<close>

definition untouched :: "world \<Rightarrow> path \<Rightarrow> world \<Rightarrow> bool" where
  "untouched w p v \<longleftrightarrow> entry v p = entry w p
     \<and> (\<forall>q. entry v q \<noteq> entry w q \<longrightarrow> entry w q = None \<and> (\<exists>n. q = temp_name p n))"

lemma only_at_untouched: "only_at w (temp_name p n) v \<Longrightarrow> p \<noteq> [] \<Longrightarrow> untouched w p v"
  using temp_name_apart(4) [of p n] unfolding only_at_def untouched_def by metis

definition written_to :: "world \<Rightarrow> path \<Rightarrow> bytes \<Rightarrow> world \<Rightarrow> bool" where
  "written_to w p data w' \<longleftrightarrow> (\<exists>i t. \<forall>q. entry w' q = (if q = p then Some (Reg i data t) else entry w q))"

text \<open>The temporary file once it holds the data, and the rename that ends the write.\<close>

lemma renamed_in:
  assumes w: "wf_world w" "real_path w p" "p \<noteq> []" and tmp: "tmp = temp_name p n" "entry w tmp = None"
    and w2: "\<And>q. entry w2 q = (if q = tmp then Some (Reg i data t) else entry w q)" "faults w2 = faults w"
  shows "Rename w2 tmp p = (None, w3) \<Longrightarrow> written_to w p data w3"
    and "Rename w2 tmp p = (Some e, w3) \<Longrightarrow> w3 = w2 \<and> (fault w (SRename tmp p) = None \<longrightarrow> fault w (SLstat p) = None \<longrightarrow> (\<exists>k. entry w p = Some (Dir k)))"
proof -
  note ap = temp_name_apart [OF w(3), of n, folded tmp(1)]
  have at: "only_at w tmp w2" using tmp(2) w2(1) by (simp add: only_at_def)
  have rp: "real_path w2 p" "real_path w2 tmp"
    using only_at_real [OF at] w(2) temp_name_real [OF w(2,3), of n] tmp(1) by auto
  have e: "entry w2 tmp = Some (Reg i data t)" "entry w2 p = entry w p" using w2(1) ap(4) by simp_all
  show "written_to w p data w3" if ok: "Rename w2 tmp p = (None, w3)"
  proof -
    have nd: "entry w p \<noteq> Some (Dir k)" for k
    proof
      assume "entry w p = Some (Dir k)"
      then show False using Rename_blocked [OF rp(2,1) e(1), of k] e(2) ok by simp
    qed
    have below: "entry w2 r = None" if "strict_prefix p r" for r
    proof -
      have "entry w r = None" using that by (rule wf_nothing_below [OF w(1) nd])
      moreover have "r \<noteq> tmp" using that ap(2) by (auto simp: strict_prefix_def)
      ultimately show ?thesis using w2(1) by simp
    qed
    have "entry w2 r = None" if "strict_prefix tmp r" for r
      using wf_nothing_below [OF w(1) _ that] tmp(2) w2(1) that by auto
    from Rename_over [OF ok rp(2,1) e(1) ap(1,3,2) this below] show ?thesis
      using tmp(2) w2(1) ap(4) unfolding written_to_def by metis
  qed
  show "w3 = w2 \<and> (fault w (SRename tmp p) = None \<longrightarrow> fault w (SLstat p) = None \<longrightarrow> (\<exists>k. entry w p = Some (Dir k)))"
    if bad: "Rename w2 tmp p = (Some e, w3)"
  proof (intro conjI impI)
    show "w3 = w2" using Rename_failed [OF bad] .
    assume f: "fault w (SRename tmp p) = None" "fault w (SLstat p) = None"
    then have f2: "fault w2 (SRename tmp p) = None" "fault w2 (SLstat p) = None" using w2(2) by (simp_all add: fault_def)
    show "\<exists>k. entry w p = Some (Dir k)"
      using bad f2 rp e ap by (auto simp: Rename_def Lstat_def rename2_def Let_def split: option.splits if_splits elim!: is_dir.elims)
  qed
qed


section \<open>Property: a torrent is written whole or not at all\<close>

definition calm_write :: "world \<Rightarrow> path \<Rightarrow> wobs \<Rightarrow> bool" where
  "calm_write w p ob \<longleftrightarrow> written ob = None \<and> \<not> closeFails ob \<and> \<not> chmodFails ob
     \<and> (\<exists>n\<in>set (suffixes ob). entry w (temp_name p n) = None)"

lemma CreateTemp_calm:
  assumes "real_path w p" "p \<noteq> []" "\<And>c. fault w c = None" "n \<in> set ns" "entry w (temp_name p n) = None"
  shows "\<exists>tmp w1. CreateTemp w p ns = (Inr tmp, w1)"
  using assms(4,5) by (induction ns) (auto simp: temp_name_real [OF assms(1,2)] assms(3) split: option.splits)

text \<open>The worlds before and after the temporary file is filled.\<close>

lemma created_filled:
  assumes w: "real_path w p" "p \<noteq> []" "entry w (temp_name p n) = None"
    and w1: "w1 = put (w\<lparr>next_ino := Suc (next_ino w)\<rparr>) (temp_name p n) (Reg (next_ino w) '''' (clock w))"
  shows "only_at w (temp_name p n) w1" "faults (fill w1 (temp_name p n) data) = faults w"
    "entry (fill w1 (temp_name p n) data) q = (if q = temp_name p n then Some (Reg (next_ino w) data (clock w)) else entry w q)"
    "only_at w (temp_name p n) (fill w1 (temp_name p n) data)"
proof -
  have ne: "temp_name p n \<noteq> []" by (rule temp_name_apart(1) [OF w(2)])
  show at: "only_at w (temp_name p n) w1" using w(3) ne by (simp add: only_at_def w1)
  have "real_path w1 (temp_name p n)" using only_at_real [OF at] temp_name_real [OF w(1,2)] by blast
  then have f: "fill w1 (temp_name p n) data = put w1 (temp_name p n) (Reg (next_ino w) data (clock w))"
    using ne by (subst fill_real) (auto simp: w1 put_def entry_def)
  show "faults (fill w1 (temp_name p n) data) = faults w" unfolding f by (simp add: w1)
  show e: "entry (fill w1 (temp_name p n) data) q = (if q = temp_name p n then Some (Reg (next_ino w) data (clock w)) else entry w q)" for q
    unfolding f using ne by (simp add: w1)
  show "only_at w (temp_name p n) (fill w1 (temp_name p n) data)" using w(3) e by (simp add: only_at_def)
qed

lemma write_torrent_result:
  assumes "wf_world w" "real_path w p" "p \<noteq> []" "WriteTorrent L ob w p mi = (r, w', seen)"
  shows "(\<forall>v\<in>set seen. untouched w p v)
    \<and> (r = None \<longrightarrow> (\<exists>data. MarshalMeta L mi = Some data \<and> written_to w p data w'))
    \<and> (r \<noteq> None \<longrightarrow> untouched w p w')
    \<and> ((\<forall>c. fault w c = None) \<longrightarrow> calm_write w p ob \<longrightarrow> MarshalMeta L mi \<noteq> None \<longrightarrow> (\<forall>k. entry w p \<noteq> Some (Dir k)) \<longrightarrow> r = None)"
proof (rule CreateTemp_result [OF assms(2,3), of "suffixes ob"], goal_cases failed created)
  case (failed e)
  then have "r = Some (CreateFailed e) \<and> w' = w \<and> seen = []" using assms(4) by (simp add: WriteTorrent_def)
  moreover have "\<not> ((\<forall>c. fault w c = None) \<and> calm_write w p ob)"
    using CreateTemp_calm [OF assms(2,3)] failed by (fastforce simp: calm_write_def)
  ultimately show ?thesis by (auto simp: untouched_def)
next
  case (created n)
  define w1 where "w1 = put (w\<lparr>next_ino := Suc (next_ino w)\<rparr>) (temp_name p n) (Reg (next_ino w) '''' (clock w))"
  define w2 where "w2 d = fill w1 (temp_name p n) d" for d
  note cf = created_filled [OF assms(2,3) created(2) w1_def, folded w2_def]
  note ren = renamed_in [OF assms(1,2,3) refl created(2) cf(3) cf(2)]
  note un = only_at_untouched [OF _ assms(3)]
  note gone = un [OF give_up_write [OF _ temp_name_real [OF assms(2,3)] temp_name_apart(1) [OF assms(3)]]]
  have ct: "CreateTemp w p (suffixes ob) = (Inr (temp_name p n), w1)" using created(1) by (simp add: w1_def)
  show ?thesis
  proof (cases "MarshalMeta L mi")
    case None
    then show ?thesis using assms(4) un [OF cf(1)] gone [OF cf(1)] by (auto simp: WriteTorrent_def ct)
  next
    case (Some data)
    show ?thesis
    proof (cases "written ob = None \<and> \<not> closeFails ob \<and> \<not> chmodFails ob")
      case False
      then show ?thesis using assms(4) Some un [OF cf(1)] un [OF cf(4)] gone [OF cf(4)]
        by (auto simp: WriteTorrent_def ct Let_def calm_write_def w2_def [symmetric] split: option.splits if_splits)
    next
      case True
      then have out: "seen = [w1, w2 data]"
        "(r, w') = (case Rename (w2 data) (temp_name p n) p of (Some e, w3) \<Rightarrow> (Some (RenameFailed e), snd (Remove w3 (temp_name p n))) | (None, w3) \<Rightarrow> (None, w3))"
        using assms(4) Some by (auto simp: WriteTorrent_def ct Let_def w2_def [symmetric] split: option.splits prod.splits)
      obtain r3 w3 where rn: "Rename (w2 data) (temp_name p n) p = (r3, w3)" by force
      show ?thesis
      proof (cases r3)
        case None
        then show ?thesis using out rn ren(1) un [OF cf(1)] un [OF cf(4)] Some by auto
      next
        case (Some e)
        then show ?thesis using out rn ren(2) [of data e w3] un [OF cf(1)] un [OF cf(4)] gone [OF cf(4)] by auto
      qed
    qed
  qed
qed

text \<open>C25. Writing a torrent is atomic: whoever reads meanwhile finds the old file, or none, at the path and
  every other entry as it was. When the write returns no error the path holds the encoded torrent, whole, and
  nothing else has changed; when it fails the path still holds what it held, and at most the temporary
  file, under a name that was free, is left behind. With no failing call, a free temporary name and no
  directory at the path, the write succeeds.\<close>

theorem write_torrent_atomic:
  assumes "wf_world w" "real_path w p" "p \<noteq> []" "WriteTorrent L ob w p mi = (r, w', seen)"
  shows "(\<forall>v\<in>set seen. untouched w p v)
    \<and> (r = None \<longrightarrow> (\<exists>data. MarshalMeta L mi = Some data \<and> written_to w p data w'))
    \<and> (r \<noteq> None \<longrightarrow> untouched w p w')
    \<and> ((\<forall>c. fault w c = None) \<longrightarrow> calm_write w p ob \<longrightarrow> MarshalMeta L mi \<noteq> None \<longrightarrow> (\<forall>k. entry w p \<noteq> Some (Dir k)) \<longrightarrow> r = None)"
  by (rule write_torrent_result [OF assms])

definition demo_metalib :: metalib where
  "demo_metalib = \<lparr>ChoosePieceLength = (\<lambda>n. 16384), GeneratePieces = (\<lambda>n cs. Some (concat cs)), MarshalInfo = (\<lambda>i. Some (iName i @ iPieces i)),
     HashInfoBytes = (\<lambda>b. b), MarshalMeta = (\<lambda>m. Some (InfoBytes m)), MagnetString = (\<lambda>m. ''magnet:?'' @ mgInfoHash m), NowUnix = 0\<rparr>"

definition demo_wobs :: wobs where
  "demo_wobs = \<lparr>suffixes = [7], written = None, closeFails = False, chmodFails = False\<rparr>"

definition demo_twworld :: world where
  "demo_twworld = \<lparr>files = [([''t''], Dir 1), ([''t'', ''a''], Reg 2 ''old'' 0)], faults = (\<lambda>_. None), next_ino = 3, clock = 9\<rparr>"

definition demo_meta :: MetaInfo where
  "demo_meta = \<lparr>InfoBytes = ''new'', miAnnounce = '''', AnnounceList = [], UrlList = [], CreatedBy = '''', CreationDate = 0, Comment = ''''\<rparr>"

theorem write_torrent_atomic_witness:
  "\<exists>w' seen. WriteTorrent demo_metalib demo_wobs demo_twworld [''t'', ''a''] demo_meta = (None, w', seen)
     \<and> written_to demo_twworld [''t'', ''a''] ''new'' w'
     \<and> (\<forall>v\<in>set seen. untouched demo_twworld [''t'', ''a''] v) \<and> entry demo_twworld [''t'', ''a''] = Some (Reg 2 ''old'' 0)"
proof -
  obtain r w' seen where out: "WriteTorrent demo_metalib demo_wobs demo_twworld [''t'', ''a''] demo_meta = (r, w', seen)"
    by (metis prod.exhaust)
  have e: "entry demo_twworld [''t'', ''a''] = Some (Reg 2 ''old'' 0)" by (simp add: entry_def demo_twworld_def)
  have wf: "wf_world demo_twworld" by code_simp
  have "entry demo_twworld (temp_name [''t'', ''a''] 7) = None" by (simp add: temp_name_def entry_def demo_twworld_def)
  then have calm: "calm_write demo_twworld [''t'', ''a''] demo_wobs" by (simp add: calm_write_def demo_wobs_def)
  have quiet: "fault demo_twworld c = None" for c by (simp add: fault_def demo_twworld_def)
  show ?thesis
    using write_torrent_atomic [OF wf wf_entry(1) [OF wf] _ out] e calm quiet out
    by (auto simp: demo_metalib_def demo_meta_def)
qed

end
