(* ===== verification/Hfapi.thy ===== *)
theory Hfapi
  imports DirJob
begin

text \<open>
  \<open>internal/hfapi\<close>: the part of the Hugging Face API that publishing uses. The server is a parameter: the
  answer to the \<open>n\<close>-th request of a run, for its URL and its \<open>Authorization\<close> header, and the JSON decoders
  are parameters too. The listing of a tree follows the server's links from page to page, so it may never
  end: it is a \<^theory_text>\<open>partial_function\<close>, where \<open>None\<close> stands for a listing that does not return.
\<close>

section \<open>Data\<close>

record Client =
  BaseURL :: string
  Token :: string

record LFS =
  lOID :: string
  lSize :: int

record Entry =
  eType :: string
  eOID :: string
  eSize :: int
  ePath :: string
  eLFS :: "LFS option"

text \<open>\<open>BadURL\<close> is a request that cannot be made, \<open>NoAnswer\<close> one that fails; an answer has its status, its
  \<open>Link\<close> header (empty when there is none) and its body.\<close>

datatype hf_answer = BadURL | NoAnswer | Answer int string bytes

type_synonym hf_net = "nat \<Rightarrow> string \<Rightarrow> string option \<Rightarrow> hf_answer"

datatype hf_error = HfRequest | HfStatus string int | HfDecode | HfBadSHA string

section \<open>Requests\<close>

definition auth_header :: "Client \<Rightarrow> string option" where
  "auth_header c = (if Token c \<noteq> '''' then Some (''Bearer '' @ Token c) else None)"

definition getJSON :: "Client \<Rightarrow> hf_net \<Rightarrow> (bytes \<Rightarrow> 'a option) \<Rightarrow> nat \<Rightarrow> string \<Rightarrow> hf_error + string \<times> 'a" where
  "getJSON c net dec k u =
     (case net k u (auth_header c) of
        BadURL \<Rightarrow> Inl HfRequest
      | NoAnswer \<Rightarrow> Inl HfRequest
      | Answer status link body \<Rightarrow>
          if status \<noteq> 200 then Inl (HfStatus u status)
          else (case dec body of None \<Rightarrow> Inl HfDecode | Some x \<Rightarrow> Inr (link, x)))"

text \<open>\<open>shaRe\<close> is \<^const>\<open>hex40\<close>; \<open>esc\<close> stands for \<open>url.PathEscape\<close>.\<close>

definition ResolveRevision :: "Client \<Rightarrow> hf_net \<Rightarrow> (bytes \<Rightarrow> string option) \<Rightarrow> (string \<Rightarrow> string) \<Rightarrow> string \<Rightarrow> string \<Rightarrow> hf_error + string" where
  "ResolveRevision c net dec esc repo rv =
     (if hex40 rv then Inr rv
      else case getJSON c net dec 0 (BaseURL c @ ''/api/models/'' @ repo @ ''/revision/'' @ esc rv) of
        Inl e \<Rightarrow> Inl e
      | Inr (_, sha) \<Rightarrow> if \<not> hex40 sha then Inl (HfBadSHA sha) else Inr sha)"

section \<open>Links\<close>

text \<open>The match of \<open><([^>]+)>;\s*rel="next"\<close> at the start of a text: the bracketed part can only end at the
  first closing bracket, and the spaces can only end before the \<open>r\<close>.\<close>

definition re_space :: "char \<Rightarrow> bool" where
  "re_space c \<longleftrightarrow> (of_char c :: nat) \<in> {9, 10, 12, 13, 32}"

definition link_here :: "string \<Rightarrow> string option" where
  "link_here s =
     (case s of
        [] \<Rightarrow> None
      | c # rest \<Rightarrow>
          (let u = takeWhile (\<lambda>x. x \<noteq> CHR ''>'') rest;
               after = drop (length u) rest
           in if c = CHR ''<'' \<and> u \<noteq> [] \<and> HasPrefix after ''>;''
                 \<and> HasPrefix (dropWhile re_space (drop 2 after)) (''rel='' @ [CHR 0x22] @ ''next'' @ [CHR 0x22])
              then Some u else None))"

fun nextLink :: "string \<Rightarrow> string" where
  "nextLink [] = ''''"
| "nextLink (c # s) = (case link_here (c # s) of Some u \<Rightarrow> u | None \<Rightarrow> nextLink s)"

section \<open>The tree\<close>

definition tree_url :: "Client \<Rightarrow> string \<Rightarrow> string \<Rightarrow> string" where
  "tree_url c repo sha = BaseURL c @ ''/api/models/'' @ repo @ ''/tree/'' @ sha @ ''?recursive=true''"

partial_function (option) tree_loop :: "Client \<Rightarrow> hf_net \<Rightarrow> (bytes \<Rightarrow> Entry list option) \<Rightarrow> nat \<Rightarrow> string \<Rightarrow> Entry list \<Rightarrow> (hf_error + Entry list) option" where
  [code]: "tree_loop c net dec k next_url all =
     (if next_url = '''' then Some (Inr all)
      else case getJSON c net dec k next_url of
        Inl e \<Rightarrow> Some (Inl e)
      | Inr (link, page) \<Rightarrow> tree_loop c net dec (Suc k) (nextLink link) (all @ page))"

definition Tree :: "Client \<Rightarrow> hf_net \<Rightarrow> (bytes \<Rightarrow> Entry list option) \<Rightarrow> nat \<Rightarrow> string \<Rightarrow> string \<Rightarrow> (hf_error + Entry list) option" where
  "Tree c net dec k repo sha = tree_loop c net dec k (tree_url c repo sha) []"

section \<open>URLs and hashes\<close>

definition ResolveURL :: "string \<Rightarrow> string \<Rightarrow> string \<Rightarrow> string" where
  "ResolveURL repo sha p = ''https://huggingface.co/'' @ repo @ ''/resolve/'' @ sha @ ''/'' @ p"

text \<open>\<open>sha1\<close> is the hexadecimal SHA-1 of some bytes.\<close>

definition blob_header :: "int \<Rightarrow> bytes" where
  "blob_header sz = ''blob '' @ itoa (nat sz) @ [CHR 0x00]"

definition GitBlobSHA1 :: "(bytes \<Rightarrow> string) \<Rightarrow> bytes \<Rightarrow> int \<Rightarrow> string option" where
  "GitBlobSHA1 sha1 content sz =
     (if int (length content) \<noteq> sz then None else Some (sha1 (blob_header sz @ content)))"

section \<open>Property: the listing follows the pages\<close>

text \<open>A run of pages that ends: the requests from the \<open>k\<close>-th on, starting at a URL, give these pages, each
  naming the next one, and the last names none.\<close>

fun page_chain :: "Client \<Rightarrow> hf_net \<Rightarrow> (bytes \<Rightarrow> Entry list option) \<Rightarrow> nat \<Rightarrow> string \<Rightarrow> Entry list list \<Rightarrow> bool" where
  "page_chain c net dec k u [] \<longleftrightarrow> u = ''''"
| "page_chain c net dec k u (p # ps) \<longleftrightarrow> u \<noteq> '''' \<and>
     (\<exists>link. getJSON c net dec k u = Inr (link, p) \<and> page_chain c net dec (Suc k) (nextLink link) ps)"

lemma tree_loop_chain:
  "page_chain c net dec k u ps \<Longrightarrow> tree_loop c net dec k u all = Some (Inr (all @ concat ps))"
proof (induction ps arbitrary: k u all)
  case Nil
  then show ?case by (simp add: tree_loop.simps)
next
  case (Cons p ps)
  then show ?case by (subst tree_loop.simps) auto
qed

lemma tree_step_returns:
  assumes IH: "\<And>c net dec k u all r. loop c net dec k u all = Some r \<Longrightarrow> (\<forall>es. r = Inr es \<longrightarrow> (\<exists>ps. page_chain c net dec k u ps \<and> es = all @ concat ps))"
    and body: "(if u = [] then Some (Inr all)
      else case getJSON c net dec k u of
        Inl e \<Rightarrow> Some (Inl e)
      | Inr (link, p) \<Rightarrow> loop c net dec (Suc k) (nextLink link) (all @ p)) = Some (Inr es)"
  shows "\<exists>ps. page_chain c net dec k u ps \<and> es = all @ concat ps"
proof (cases "u = []")
  case True
  then have "page_chain c net dec k u [] \<and> es = all @ concat []" using body by simp
  then show ?thesis by blast
next
  case False
  then obtain link p where g: "getJSON c net dec k u = Inr (link, p)" "loop c net dec (Suc k) (nextLink link) (all @ p) = Some (Inr es)"
    using body by (auto split: sum.splits)
  from IH [OF g(2)] obtain ps where "page_chain c net dec (Suc k) (nextLink link) ps" "es = (all @ p) @ concat ps"
    by blast
  with g(1) False have "page_chain c net dec k u (p # ps) \<and> es = all @ concat (p # ps)" by simp
  then show ?thesis by blast
qed

lemma tree_loop_returns:
  assumes "tree_loop c net dec k u all = Some (Inr es)"
  shows "\<exists>ps. page_chain c net dec k u ps \<and> es = all @ concat ps"
proof -
  have "\<forall>es'. Inr es = (Inr es' :: hf_error + Entry list) \<longrightarrow> (\<exists>ps. page_chain c net dec k u ps \<and> es' = all @ concat ps)"
    by (rule tree_loop.raw_induct [OF _ assms]) (use tree_step_returns in blast)
  then show ?thesis by blast
qed

text \<open>C30. The listing of a tree returns some entries exactly when the server's pages, from the first one on
  and along the links of their headers, come to an end without an error, and the entries are those of all
  the pages, in order.\<close>

theorem tree_exact:
  "Tree c net dec k repo sha = Some (Inr es) \<longleftrightarrow>
     (\<exists>ps. page_chain c net dec k (tree_url c repo sha) ps \<and> es = concat ps)"
  using tree_loop_chain [of c net dec k "tree_url c repo sha"] tree_loop_returns [of c net dec k "tree_url c repo sha" "[]" es]
  by (auto simp: Tree_def)

section \<open>Lemmas: revisions\<close>

lemma ResolveRevision_sha: "ResolveRevision c net dec esc repo rv = Inr sha \<Longrightarrow> hex40 sha"
  by (auto simp: ResolveRevision_def split: if_splits sum.splits)

lemma page_chain_nonempty: "page_chain c net dec k (tree_url c repo sha) ps \<Longrightarrow> ps \<noteq> []"
  by (cases ps) (auto simp: tree_url_def)

end
