(* ===== verification/Publish.thy ===== *)
theory Publish
  imports Mktorrent Hfapi
begin

text \<open>
  \<open>internal/publish\<close>: turning the local copies of a model's Hugging Face files into a catalog entry and its
  torrents, one per file (\<open>publish.go\<close>) or one for the folder (\<open>dir.go\<close>). The hash functions, the torrent
  library, the Hugging Face server and the parsers of magnets and URLs are parameters.
\<close>

section \<open>Data\<close>

record PublishOptions =
  pID :: string
  pRepo :: string
  pRevision :: string
  pLicense :: string
  pLicenseURL :: string
  pLayout :: string
  LocalDir :: path
  pFiles :: "string list"
  pAll :: bool
  pStoreAs :: "string \<rightharpoonup> string"
  TorrentsDir :: path
  pAnnounce :: "string list list option"

record penv =
  hfc :: Client
  hfnet :: hf_net
  dec_sha :: "bytes \<Rightarrow> string option"
  dec_tree :: "bytes \<Rightarrow> Entry list option"
  path_escape :: "string \<Rightarrow> string"
  sha256 :: "bytes \<Rightarrow> string"
  sha1 :: "bytes \<Rightarrow> string"
  tl_lib :: metalib
  p_magnet :: magnet_parser
  p_url :: url_parser
  wr :: "nat \<Rightarrow> wobs"                     \<comment> \<open>what happens while the \<open>n\<close>-th torrent is written\<close>

datatype publish_error =
    PHf hf_error | PUnknownLayout string | AllNeedsDir | NotAFile string | PStat errno
  | PSize string int int | PRead string | PShaMismatch string string string | PBlobMismatch string string string
  | PBuild build_error | PInvalid verror | PMkdir errno | PWrite write_error
  | BothAllAndList | PNoFiles | PListedTwice string | NeverHashed string | PBad "string list"

section \<open>Names\<close>

definition publish_DiskName :: "string \<Rightarrow> string \<Rightarrow> (string \<rightharpoonup> string) \<Rightarrow> string" where
  "publish_DiskName i hfPath storeAs =
     (case storeAs hfPath of
        Some s \<Rightarrow> s
      | None \<Rightarrow> (let base = path_Base hfPath
                 in if HasSuffix base ''.gguf'' then base else i @ ''.'' @ base))"

section \<open>Checks\<close>

definition byPath :: "Entry list \<Rightarrow> string \<rightharpoonup> Entry" where
  "byPath es = foldl (\<lambda>m e. m(ePath e \<mapsto> e)) (\<lambda>_. None) es"

definition hf_size :: "Entry \<Rightarrow> int" where
  "hf_size e = (case eLFS e of Some l \<Rightarrow> lSize l | None \<Rightarrow> eSize e)"

text \<open>\<open>hashcache.HashFile\<close>: the hash of a file's content, read in one go.\<close>

definition HashFile :: "penv \<Rightarrow> world \<Rightarrow> path \<Rightarrow> string option" where
  "HashFile E w p = (case ReadFile w p of Inl _ \<Rightarrow> None | Inr c \<Rightarrow> Some (sha256 E c))"

definition local_path :: "PublishOptions \<Rightarrow> string \<Rightarrow> path" where
  "local_path opt hfPath = join_rel (LocalDir opt) hfPath"

section \<open>One torrent per file\<close>

definition check_content :: "penv \<Rightarrow> world \<Rightarrow> PublishOptions \<Rightarrow> Entry \<Rightarrow> string \<Rightarrow> int \<Rightarrow> publish_error + string" where
  "check_content E w opt e hfPath sz =
     (case HashFile E w (local_path opt hfPath) of
        None \<Rightarrow> Inl (PRead hfPath)
      | Some digest \<Rightarrow>
          (case eLFS e of
             Some l \<Rightarrow> if digest \<noteq> lOID l then Inl (PShaMismatch hfPath digest (lOID l)) else Inr digest
           | None \<Rightarrow>
               (case ReadFile w (local_path opt hfPath) of
                  Inl _ \<Rightarrow> Inl (PRead hfPath)
                | Inr c \<Rightarrow>
                    (case GitBlobSHA1 (sha1 E) c sz of
                       None \<Rightarrow> Inl (PRead hfPath)
                     | Some blob \<Rightarrow> if blob \<noteq> eOID e then Inl (PBlobMismatch hfPath blob (eOID e)) else Inr digest))))"

definition publish_file :: "penv \<Rightarrow> world \<Rightarrow> PublishOptions \<Rightarrow> string \<Rightarrow> (string \<rightharpoonup> Entry) \<Rightarrow> string \<Rightarrow> publish_error + Result \<times> File" where
  "publish_file E w opt sha ents hfPath =
     (case ents hfPath of
        None \<Rightarrow> Inl (NotAFile hfPath)
      | Some e \<Rightarrow>
          if eType e \<noteq> ''file'' then Inl (NotAFile hfPath)
          else case Stat w (local_path opt hfPath) of
            Inl er \<Rightarrow> Inl (PStat er)
          | Inr fi \<Rightarrow>
              if fi_size fi \<noteq> hf_size e then Inl (PSize hfPath (fi_size fi) (hf_size e))
              else case check_content E w opt e hfPath (fi_size fi) of
                Inl er \<Rightarrow> Inl er
              | Inr digest \<Rightarrow>
                  (let dn = publish_DiskName (pID opt) hfPath (pStoreAs opt)
                   in case Build_file (tl_lib E) w
                        \<lparr>oPath = local_path opt hfPath, oName = dn, oWebSeed = ResolveURL (pRepo opt) sha hfPath,
                         oAnnounce = pAnnounce opt, oComment = pRepo opt @ ''@'' @ sha @ '' '' @ hfPath\<rparr> of
                        Inl er \<Rightarrow> Inl (PBuild er)
                      | Inr r \<Rightarrow>
                          Inr (r, \<lparr>fName = hfPath, StoreAs = (if dn \<noteq> path_Base hfPath then dn else ''''), fSize = fi_size fi,
                                   SHA256 = digest, fInfoHash = rInfoHash r, fMagnet = rMagnet r\<rparr>)))"

fun publish_files :: "penv \<Rightarrow> world \<Rightarrow> PublishOptions \<Rightarrow> string \<Rightarrow> (string \<rightharpoonup> Entry) \<Rightarrow> string list \<Rightarrow> publish_error + (Result \<times> File) list" where
  "publish_files E w opt sha ents [] = Inr []"
| "publish_files E w opt sha ents (f # fs) =
     (case publish_file E w opt sha ents f of
        Inl e \<Rightarrow> Inl e
      | Inr x \<Rightarrow> (case publish_files E w opt sha ents fs of Inl e \<Rightarrow> Inl e | Inr xs \<Rightarrow> Inr (x # xs)))"

section \<open>Writing the torrents\<close>

definition torrent_path :: "PublishOptions \<Rightarrow> Result \<Rightarrow> path" where
  "torrent_path opt r = join_rel (TorrentsDir opt) (rInfoHash r @ ''.torrent'')"

fun write_torrents :: "penv \<Rightarrow> PublishOptions \<Rightarrow> nat \<Rightarrow> world \<Rightarrow> Result list \<Rightarrow> publish_error option \<times> world" where
  "write_torrents E opt k w [] = (None, w)"
| "write_torrents E opt k w (r # rs) =
     (case WriteTorrent (tl_lib E) (wr E k) w (torrent_path opt r) (rMetaInfo r) of
        (Some e, w', _) \<Rightarrow> (Some (PWrite e), w')
      | (None, w', _) \<Rightarrow> write_torrents E opt (Suc k) w' rs)"

text \<open>The end of both ways: nothing is written unless the whole model is valid.\<close>

definition store_model :: "penv \<Rightarrow> PublishOptions \<Rightarrow> world \<Rightarrow> Model \<Rightarrow> Result list \<Rightarrow> (publish_error + Model) \<times> world" where
  "store_model E opt w m rs =
     (case Validate (p_magnet E) (p_url E) [m] of
        Some e \<Rightarrow> (Inl (PInvalid e), w)
      | None \<Rightarrow>
          (case MkdirAll w (TorrentsDir opt) of
             (Some e, w') \<Rightarrow> (Inl (PMkdir e), w')
           | (None, w') \<Rightarrow>
               (case write_torrents E opt 0 w' rs of
                  (Some e, w'') \<Rightarrow> (Inl e, w'')
                | (None, w'') \<Rightarrow> (Inr m, w''))))"

section \<open>One torrent for the folder\<close>

fun dir_checks :: "world \<Rightarrow> PublishOptions \<Rightarrow> (string \<rightharpoonup> Entry) \<Rightarrow> (string \<times> Entry \<times> int) list \<Rightarrow> string list
    \<Rightarrow> publish_error + (string \<times> Entry \<times> int) list" where
  "dir_checks w opt ents cs [] = Inr cs"
| "dir_checks w opt ents cs (f # fs) =
     (case ents f of
        None \<Rightarrow> Inl (NotAFile f)
      | Some e \<Rightarrow>
          if eType e \<noteq> ''file'' then Inl (NotAFile f)
          else if f \<in> set (map fst cs) then Inl (PListedTwice f)
          else case Stat w (local_path opt f) of
            Inl er \<Rightarrow> Inl (PStat er)
          | Inr fi \<Rightarrow>
              if fi_size fi \<noteq> hf_size e then Inl (PSize f (fi_size fi) (hf_size e))
              else dir_checks w opt ents (cs @ [(f, e, hf_size e)]) fs)"

text \<open>What the hashes computed while the pieces were hashed say of each file: the sum of a file and whether
  it is the one that Hugging Face has.\<close>

definition content_ok :: "penv \<Rightarrow> Entry \<Rightarrow> bytes \<Rightarrow> bool" where
  "content_ok E e c =
     (case eLFS e of
        Some l \<Rightarrow> sha256 E c = lOID l
      | None \<Rightarrow> sha1 E (blob_header (int (length c)) @ c) = eOID e)"

fun dir_sums :: "penv \<Rightarrow> (string \<rightharpoonup> bytes) \<Rightarrow> (string \<times> Entry \<times> int) list \<Rightarrow> publish_error + File list \<times> string list" where
  "dir_sums E hashed [] = Inr ([], [])"
| "dir_sums E hashed ((f, e, sz) # cs) =
     (case hashed f of
        None \<Rightarrow> Inl (NeverHashed f)
      | Some c \<Rightarrow>
          (case dir_sums E hashed cs of
             Inl er \<Rightarrow> Inl er
           | Inr (fs, bad) \<Rightarrow>
               Inr (\<lparr>fName = f, StoreAs = '''', fSize = sz, SHA256 = sha256 E c, fInfoHash = '''', fMagnet = ''''\<rparr> # fs,
                    if content_ok E e c then bad else f # bad)))"

definition dir_file_list :: "PublishOptions \<Rightarrow> Entry list \<Rightarrow> publish_error + string list" where
  "dir_file_list opt es =
     (if pAll opt \<and> pFiles opt \<noteq> [] then Inl BothAllAndList
      else let fs = (if pAll opt then map ePath (filter (\<lambda>e. eType e = ''file'' \<and> ePath e \<noteq> ''.gitattributes'') es) else pFiles opt)
           in if fs = [] then Inl PNoFiles else Inr (sort fs))"

definition folder_options :: "PublishOptions \<Rightarrow> Model \<Rightarrow> string list \<Rightarrow> DirOptions" where
  "folder_options opt m fs =
     \<lparr>dRoot = LocalDir opt, dName = Revision m, dDisplayName = pID opt, dirFiles = fs, dWebSeed = DirWebSeed (pRepo opt),
      dAnnounce = pAnnounce opt, dComment = pRepo opt @ ''@'' @ Revision m\<rparr>"

definition addDirModel :: "penv \<Rightarrow> PublishOptions \<Rightarrow> world \<Rightarrow> Model \<Rightarrow> Entry list \<Rightarrow> (publish_error + Model) \<times> world" where
  "addDirModel E opt w m es =
     (case dir_file_list opt es of
        Inl e \<Rightarrow> (Inl e, w)
      | Inr fs \<Rightarrow>
          (case dir_checks w opt (byPath es) [] fs of
             Inl e \<Rightarrow> (Inl e, w)
           | Inr cs \<Rightarrow>
               (case BuildDir (tl_lib E) w (folder_options opt m fs) of
                  Inl e \<Rightarrow> (Inl (PBuild e), w)
                | Inr (r, opened) \<Rightarrow>
                    (case dir_sums E (map_of opened) cs of
                       Inl e \<Rightarrow> (Inl e, w)
                     | Inr (files', bad) \<Rightarrow>
                         if bad \<noteq> [] then (Inl (PBad bad), w)
                         else store_model E opt w
                                (m\<lparr>Files := files', Layout := LayoutDir, mInfoHash := rInfoHash r, mMagnet := rMagnet r\<rparr>) [r]))))"

section \<open>Publishing a model\<close>

definition new_model :: "PublishOptions \<Rightarrow> string \<Rightarrow> Model" where
  "new_model opt sha = \<lparr>ID = pID opt, HFRepo = pRepo opt, Revision = sha, License = pLicense opt, LicenseURL = pLicenseURL opt,
                      Layout = '''', mInfoHash = '''', mMagnet = '''', Files = []\<rparr>"

definition AddModel :: "penv \<Rightarrow> PublishOptions \<Rightarrow> world \<Rightarrow> ((publish_error + Model) \<times> world) option" where
  "AddModel E opt w =
     (case ResolveRevision (hfc E) (hfnet E) (dec_sha E) (path_escape E) (pRepo opt) (pRevision opt) of
        Inl e \<Rightarrow> Some (Inl (PHf e), w)
      | Inr sha \<Rightarrow>
          (case Tree (hfc E) (hfnet E) (dec_tree E) (if hex40 (pRevision opt) then 0 else 1) (pRepo opt) sha of
             None \<Rightarrow> None
           | Some (Inl e) \<Rightarrow> Some (Inl (PHf e), w)
           | Some (Inr es) \<Rightarrow>
               Some (let m = new_model opt sha
                     in if pLayout opt = LayoutDir then addDirModel E opt w m es
                        else if pLayout opt \<noteq> '''' then (Inl (PUnknownLayout (pLayout opt)), w)
                        else if pAll opt then (Inl AllNeedsDir, w)
                        else case publish_files E w opt sha (byPath es) (pFiles opt) of
                          Inl e \<Rightarrow> (Inl e, w)
                        | Inr xs \<Rightarrow> store_model E opt w (m\<lparr>Files := map snd xs\<rparr>) (map fst xs))))"


section \<open>Lemmas: what the checks establish\<close>

lemma ReadFile_look: "ReadFile w p = Inr c \<longleftrightarrow> fault w (SReadFile p) = None \<and> (\<exists>i t. look w p True = Inr (Reg i c t))"
  by (auto simp: ReadFile_def split: option.splits sum.splits fnode.splits)

lemma Stat_ReadFile_size: "Stat w p = Inr fi \<Longrightarrow> ReadFile w p = Inr c \<Longrightarrow> fi_size fi = int (length c)"
  by (auto simp: Stat_def ReadFile_look split: option.splits)

text \<open>A published file is the one in the tree: the local copy has the size and the content that Hugging Face
  lists for it, and the catalog entry has that size and the SHA-256 of that content.\<close>

definition hf_verified :: "penv \<Rightarrow> world \<Rightarrow> PublishOptions \<Rightarrow> Entry list \<Rightarrow> File \<Rightarrow> bool" where
  "hf_verified E w opt es f \<longleftrightarrow>
     (\<exists>e c. byPath es (fName f) = Some e \<and> eType e = ''file'' \<and> ReadFile w (local_path opt (fName f)) = Inr c
        \<and> hf_size e = int (length c) \<and> content_ok E e c \<and> fSize f = int (length c) \<and> SHA256 f = sha256 E c)"

lemma check_content_Inr:
  assumes "check_content E w opt e p sz = Inr d"
  shows "\<exists>c. ReadFile w (local_path opt p) = Inr c \<and> content_ok E e c \<and> d = sha256 E c"
  using assms
  by (auto simp: check_content_def HashFile_def GitBlobSHA1_def content_ok_def split: option.splits sum.splits if_splits)

lemma publish_file_Inr:
  assumes "publish_file E w opt sha (byPath es) p = Inr (r, f)"
  shows "hf_verified E w opt es f" "fName f = p" "rInfoHash r = fInfoHash f"
    "StoreAs f = (if publish_DiskName (pID opt) p (pStoreAs opt) \<noteq> path_Base p then publish_DiskName (pID opt) p (pStoreAs opt) else '''')"
proof -
  obtain e fi where e: "byPath es p = Some e" "eType e = ''file''" "Stat w (local_path opt p) = Inr fi" "fi_size fi = hf_size e"
    and f: "check_content E w opt e p (fi_size fi) = Inr (SHA256 f)" "fName f = p" "fSize f = fi_size fi" "rInfoHash r = fInfoHash f"
    "StoreAs f = (if publish_DiskName (pID opt) p (pStoreAs opt) \<noteq> path_Base p then publish_DiskName (pID opt) p (pStoreAs opt) else '''')"
    using assms by (auto simp: publish_file_def Let_def split: option.splits sum.splits if_splits)
  from check_content_Inr [OF f(1)] obtain c where c: "ReadFile w (local_path opt p) = Inr c" "content_ok E e c" "SHA256 f = sha256 E c"
    by blast
  have "fi_size fi = int (length c)" by (rule Stat_ReadFile_size [OF e(3) c(1)])
  then show "hf_verified E w opt es f" using e f c by (auto simp: hf_verified_def)
  show "fName f = p" "rInfoHash r = fInfoHash f"
    "StoreAs f = (if publish_DiskName (pID opt) p (pStoreAs opt) \<noteq> path_Base p then publish_DiskName (pID opt) p (pStoreAs opt) else '''')"
    by (rule f)+
qed

lemma publish_files_names: "publish_files E w opt sha (byPath es) fs = Inr xs \<Longrightarrow> map (fName \<circ> snd) xs = fs"
  by (induction fs arbitrary: xs) (auto split: sum.splits dest: publish_file_Inr(2))

lemma publish_files_file:
  "publish_files E w opt sha (byPath es) fs = Inr xs \<Longrightarrow> (r, f) \<in> set xs \<Longrightarrow> publish_file E w opt sha (byPath es) (fName f) = Inr (r, f)"
proof (induction fs arbitrary: xs)
  case (Cons p fs)
  then obtain x ys where x: "publish_file E w opt sha (byPath es) p = Inr x" "publish_files E w opt sha (byPath es) fs = Inr ys" "xs = x # ys"
    by (auto split: sum.splits)
  show ?case
  proof (cases "(r, f) = x")
    case True
    with x(1) publish_file_Inr(2) [of E w opt sha es p r f] show ?thesis by simp
  next
    case False
    with Cons.prems x show ?thesis using Cons.IH by simp
  qed
qed simp

lemma dir_checks_Inr:
  assumes "dir_checks w opt ents cs fs = Inr cs'"
  shows "\<exists>ds. cs' = cs @ ds \<and> map fst ds = fs \<and>
    (\<forall>(f, e, sz)\<in>set ds. ents f = Some e \<and> eType e = ''file'' \<and> (\<exists>fi. Stat w (local_path opt f) = Inr fi \<and> fi_size fi = hf_size e) \<and> sz = hf_size e)"
  using assms
proof (induction w opt ents cs fs rule: dir_checks.induct)
  case (2 w opt ents cs f fs)
  then obtain e fi where e: "ents f = Some e" "eType e = ''file''" "Stat w (local_path opt f) = Inr fi" "fi_size fi = hf_size e"
      "dir_checks w opt ents (cs @ [(f, e, hf_size e)]) fs = Inr cs'" and ne: "f \<notin> set (map fst cs)"
    by (auto split: option.splits sum.splits if_splits)
  from 2(1) [OF e(1) _ ne e(3) _ e(5)] e(2,4) obtain ds where
    "cs' = (cs @ [(f, e, hf_size e)]) @ ds" "map fst ds = fs"
    "\<forall>(f, e, sz)\<in>set ds. ents f = Some e \<and> eType e = ''file'' \<and> (\<exists>fi. Stat w (local_path opt f) = Inr fi \<and> fi_size fi = hf_size e) \<and> sz = hf_size e"
    by auto
  with e show ?case by (intro exI [of _ "(f, e, hf_size e) # ds"]) auto
qed auto

lemma open_all_names: "open_all w root fs = Some xs \<Longrightarrow> map fst xs = map (\<lambda>(c, _). Join ''/'' c) fs"
  by (induction fs arbitrary: xs) (auto split: sum.splits)

lemma open_all_content: "open_all w root fs = Some xs \<Longrightarrow> (rel, c) \<in> set xs \<Longrightarrow> ReadFile w (join_rel root rel) = Inr c"
  by (induction fs arbitrary: xs) (auto split: sum.splits)

lemma BuildDir_opened:
  assumes "BuildDir L w d = Inr (r, opened)" "map_of opened f = Some c"
  shows "ReadFile w (join_rel (dRoot d) f) = Inr c"
  using assms open_all_content [of w "dRoot d" _ opened f c]
  by (auto simp: BuildDir_def Let_def split: if_splits sum.splits option.splits dest: map_of_SomeD)

lemma dir_sums_Inr:
  assumes "dir_sums E hashed cs = Inr (fs, [])"
  shows "map fName fs = map fst cs \<and>
    (\<forall>f\<in>set fs. \<exists>e c. (fName f, e, fSize f) \<in> set cs \<and> hashed (fName f) = Some c \<and> content_ok E e c \<and> SHA256 f = sha256 E c)"
  using assms by (induction cs arbitrary: fs) (fastforce split: option.splits sum.splits if_splits prod.splits)+


section \<open>Lemmas: publishing step by step\<close>

lemma publish_files_verified:
  assumes "publish_files E w opt sha (byPath es) fs = Inr xs" "f \<in> set (map snd xs)"
  shows "hf_verified E w opt es f"
  using assms(2) publish_files_file [OF assms(1)] publish_file_Inr(1) by fastforce

lemma dir_verified_files:
  assumes cs: "dir_checks w opt (byPath es) [] fs = Inr cs" and b: "BuildDir L w d = Inr (r, opened)" "dRoot d = LocalDir opt"
    and s: "dir_sums E (map_of opened) cs = Inr (files', [])"
  shows "map fName files' = fs" "f \<in> set files' \<Longrightarrow> hf_verified E w opt es f"
proof -
  from dir_checks_Inr [OF cs] have c: "map fst cs = fs"
    "\<forall>(f, e, sz)\<in>set cs. byPath es f = Some e \<and> eType e = ''file'' \<and> (\<exists>fi. Stat w (local_path opt f) = Inr fi \<and> fi_size fi = hf_size e) \<and> sz = hf_size e"
    by auto
  note d = dir_sums_Inr [OF s]
  show "map fName files' = fs" using c(1) d by simp
  assume "f \<in> set files'"
  with d obtain e c' where f: "(fName f, e, fSize f) \<in> set cs" "map_of opened (fName f) = Some c'" "content_ok E e c'" "SHA256 f = sha256 E c'"
    by blast
  from bspec [OF c(2) f(1)] obtain fi where e: "byPath es (fName f) = Some e" "eType e = ''file''"
    "Stat w (local_path opt (fName f)) = Inr fi" "fi_size fi = hf_size e" "fSize f = hf_size e" by auto
  have rd: "ReadFile w (local_path opt (fName f)) = Inr c'" using BuildDir_opened [OF b(1) f(2)] b(2) by (simp add: local_path_def)
  then have "hf_size e = int (length c')" using Stat_ReadFile_size [OF e(3)] e(4) by simp
  then show "hf_verified E w opt es f" using e f rd by (auto simp: hf_verified_def)
qed

lemma store_model_cases:
  assumes "store_model E opt w m rs = (r, w')" "w' \<noteq> w \<or> (\<exists>m'. r = Inr m')"
  shows "Validate (p_magnet E) (p_url E) [m] = None \<and> (\<forall>m'. r = Inr m' \<longrightarrow> m' = m)"
  using assms by (auto simp: store_model_def split: option.splits prod.splits)

text \<open>A folder is published, or anything is written for it, only after all of these.\<close>

lemma addDirModel_cases:
  assumes "addDirModel E opt w m es = (r, w')" "w' \<noteq> w \<or> (\<exists>m'. r = Inr m')"
  obtains fs cs b opened files' where "dir_file_list opt es = Inr fs" "dir_checks w opt (byPath es) [] fs = Inr cs"
    "BuildDir (tl_lib E) w (folder_options opt m fs) = Inr (b, opened)" "dir_sums E (map_of opened) cs = Inr (files', [])"
    "store_model E opt w (m\<lparr>Files := files', Layout := LayoutDir, mInfoHash := rInfoHash b, mMagnet := rMagnet b\<rparr>) [b] = (r, w')"
  using assms by (auto simp: addDirModel_def split: sum.splits prod.splits if_splits)

lemma AddModel_cases:
  assumes "AddModel E opt w = Some (r, w')" "w' \<noteq> w \<or> (\<exists>m. r = Inr m)"
  obtains sha es where "ResolveRevision (hfc E) (hfnet E) (dec_sha E) (path_escape E) (pRepo opt) (pRevision opt) = Inr sha" "Tree (hfc E) (hfnet E) (dec_tree E) (if hex40 (pRevision opt) then 0 else 1) (pRepo opt) sha = Some (Inr es)"
    "pLayout opt = LayoutDir" "addDirModel E opt w (new_model opt sha) es = (r, w')"
  | sha es xs where "ResolveRevision (hfc E) (hfnet E) (dec_sha E) (path_escape E) (pRepo opt) (pRevision opt) = Inr sha" "Tree (hfc E) (hfnet E) (dec_tree E) (if hex40 (pRevision opt) then 0 else 1) (pRepo opt) sha = Some (Inr es)"
    "pLayout opt = ''''" "\<not> pAll opt" "publish_files E w opt sha (byPath es) (pFiles opt) = Inr xs"
    "store_model E opt w ((new_model opt sha)\<lparr>Files := map snd xs\<rparr>) (map fst xs) = (r, w')"
  using assms
  by (auto simp: AddModel_def Let_def split: sum.splits option.splits if_splits)


text \<open>The revision of a model: a commit is taken as it is, everything else is asked of the server.\<close>

lemma ResolveRevision_Inr:
  assumes "ResolveRevision c net dec esc repo rv = Inr sha"
  shows "hex40 sha \<and> (if hex40 rv then sha = rv
    else \<exists>link. getJSON c net dec 0 (BaseURL c @ ''/api/models/'' @ repo @ ''/revision/'' @ esc rv) = Inr (link, sha))"
  using assms by (auto simp: ResolveRevision_def split: if_splits sum.splits)

section \<open>Properties\<close>

definition chosen :: "PublishOptions \<Rightarrow> Entry list \<Rightarrow> string list" where
  "chosen opt es = (if pAll opt then map ePath (filter (\<lambda>e. eType e = ''file'' \<and> ePath e \<noteq> ''.gitattributes'') es) else pFiles opt)"

lemma sort_Nil_iff: "sort xs = [] \<longleftrightarrow> xs = []"
  by (metis length_0_conv length_sort)

lemma dir_file_list_chosen: "dir_file_list opt es = Inr fs \<Longrightarrow> fs = sort (chosen opt es) \<and> fs \<noteq> []"
  by (simp add: dir_file_list_def chosen_def Let_def split: if_splits; clarify; simp add: sort_Nil_iff)

text \<open>C13. Nothing that differs from Hugging Face is published: when a model is published, or when publishing
  has so much as created a directory, the model is valid, its revision is the commit that was asked for or, where a branch or tag was
  asked for, the commit that the server names for that branch or tag of that repository; its files are exactly
  the ones asked for, and each is a file of the revision's tree whose local copy has the listed size and
  the listed LFS hash, or the listed git blob hash; the catalog entry has its size and its SHA-256.\<close>

theorem publish_only_verified:
  assumes "AddModel E opt w = Some (r, w')" "w' \<noteq> w \<or> (\<exists>m. r = Inr m)"
  shows "\<exists>m es. (\<forall>m'. r = Inr m' \<longrightarrow> m' = m) \<and> Validate (p_magnet E) (p_url E) [m] = None
     \<and> ID m = pID opt \<and> HFRepo m = pRepo opt \<and> License m = pLicense opt \<and> hex40 (Revision m)
     \<and> (if hex40 (pRevision opt) then Revision m = pRevision opt
        else \<exists>link. getJSON (hfc E) (hfnet E) (dec_sha E) 0
               (BaseURL (hfc E) @ ''/api/models/'' @ pRepo opt @ ''/revision/'' @ path_escape E (pRevision opt)) = Inr (link, Revision m))
     \<and> Tree (hfc E) (hfnet E) (dec_tree E) (if hex40 (pRevision opt) then 0 else 1) (pRepo opt) (Revision m) = Some (Inr es)
     \<and> mset (map fName (Files m)) = mset (chosen opt es) \<and> (\<forall>f\<in>set (Files m). hf_verified E w opt es f)"
proof (rule AddModel_cases [OF assms], goal_cases folder single)
  case (folder sha es)
  from addDirModel_cases [OF folder(4) assms(2)] obtain fs cs b opened files' where
    d: "dir_file_list opt es = Inr fs" "dir_checks w opt (byPath es) [] fs = Inr cs"
    "BuildDir (tl_lib E) w (folder_options opt (new_model opt sha) fs) = Inr (b, opened)" "dir_sums E (map_of opened) cs = Inr (files', [])"
    and s: "store_model E opt w ((new_model opt sha)\<lparr>Files := files', Layout := LayoutDir, mInfoHash := rInfoHash b, mMagnet := rMagnet b\<rparr>) [b] = (r, w')"
    by blast
  note v = dir_verified_files [OF d(2,3) _ d(4), simplified folder_options_def DirOptions.simps, OF refl]
  show ?case
    using store_model_cases [OF s assms(2)] v dir_file_list_chosen [OF d(1)] ResolveRevision_Inr [OF folder(1)] folder(2)
    by (intro exI [of _ "(new_model opt sha)\<lparr>Files := files', Layout := LayoutDir, mInfoHash := rInfoHash b, mMagnet := rMagnet b\<rparr>"] exI [of _ es])
      (auto simp: new_model_def)
next
  case (single sha es xs)
  show ?case
    using store_model_cases [OF single(6) assms(2)] publish_files_verified [OF single(5)] publish_files_names [OF single(5)] ResolveRevision_Inr [OF single(1)] single(2,4)
    by (intro exI [of _ "(new_model opt sha)\<lparr>Files := map snd xs\<rparr>"] exI [of _ es]) (auto simp: new_model_def chosen_def)
qed


section \<open>Published folders and the node\<close>

lemma dir_infos_Inr:
  "dir_infos w root prev rels = Inr infos \<Longrightarrow>
     map (\<lambda>(c, l). (Join ''/'' c, l)) infos = map (\<lambda>rel. (rel, case Stat w (join_rel root rel) of Inr fi \<Rightarrow> fi_size fi | Inl _ \<Rightarrow> 0)) rels"
  by (induction w root prev rels arbitrary: infos rule: dir_infos.induct) (auto simp: Join_Split split: if_splits sum.splits)

lemma finish_torrent_Inr:
  assumes "finish_torrent L info ann ws cm dn = Inr r"
  shows "MarshalInfo L info = Some (InfoBytes (rMetaInfo r)) \<and> rInfoHash r = HashInfoBytes L (InfoBytes (rMetaInfo r))
    \<and> UrlList (rMetaInfo r) = [ws]"
  using assms by (auto simp: finish_torrent_def Let_def split: option.splits list.splits)

lemma BuildDir_Inr:
  assumes "BuildDir L w d = Inr (r, opened)"
  obtains infos pl ps where "dir_infos w (dRoot d) None (sort (dirFiles d)) = Inr infos"
    "MarshalInfo L \<lparr>iName = dName d, iLength = 0, iFiles = infos, iPieceLength = pl, iPieces = ps\<rparr> = Some (InfoBytes (rMetaInfo r))"
    "rInfoHash r = HashInfoBytes L (InfoBytes (rMetaInfo r))" "UrlList (rMetaInfo r) = [dWebSeed d]"
  using assms by (auto simp: BuildDir_def Let_def split: if_splits sum.splits option.splits dest: finish_torrent_Inr)

text \<open>The sizes in the torrent and in the catalog are both those of the local files.\<close>

lemma dir_sums_sizes:
  assumes "dir_checks w opt ents [] fs = Inr cs" "dir_sums E hashed cs = Inr (files', [])"
  shows "map (\<lambda>f. (fName f, fSize f)) files' = map (\<lambda>rel. (rel, case Stat w (local_path opt rel) of Inr fi \<Rightarrow> fi_size fi | Inl _ \<Rightarrow> 0)) fs"
proof -
  from dir_checks_Inr [OF assms(1)] have c: "map fst cs = fs"
    "\<forall>(f, e, sz)\<in>set cs. \<exists>fi. Stat w (local_path opt f) = Inr fi \<and> sz = fi_size fi" by auto
  have "map (\<lambda>f. (fName f, fSize f)) files' = map (\<lambda>(f, e, sz). (f, sz)) cs"
    using assms(2) by (induction cs arbitrary: files') (auto split: option.splits sum.splits if_splits prod.splits)
  also have "\<dots> = map (\<lambda>(f, e, sz). (f, case Stat w (local_path opt f) of Inr fi \<Rightarrow> fi_size fi | Inl _ \<Rightarrow> 0)) cs"
    using c(2) by (auto intro!: map_cong)
  also have "\<dots> = map (\<lambda>rel. (rel, case Stat w (local_path opt rel) of Inr fi \<Rightarrow> fi_size fi | Inl _ \<Rightarrow> 0)) fs"
    by (auto simp: c(1) [symmetric])
  finally show ?thesis .
qed

lemma store_one:
  assumes "store_model E opt w m [b] = (Inr m', w')"
  shows "m' = m \<and> (\<exists>w1 seen. MkdirAll w (TorrentsDir opt) = (None, w1) \<and> WriteTorrent (tl_lib E) (wr E 0) w1 (torrent_path opt b) (rMetaInfo b) = (None, w', seen))"
  using assms by (auto simp: store_model_def split: option.splits prod.splits)

lemma valid_names: "Validate pm up [m] = None \<Longrightarrow> Layout m = LayoutDir \<Longrightarrow> distinct (map fName (Files m))"
  unfolding Validate_wf by (auto simp: wf_models_def model_ok_def dir_ok_def IsDir_def)

text \<open>What the torrent library promises of its info dicts: decoding the encoding of one gives its name and
  its files back.\<close>

definition info_codec :: "metalib \<Rightarrow> (bytes \<Rightarrow> tinfo option) \<Rightarrow> bool" where
  "info_codec L dec \<longleftrightarrow> (\<forall>i b. MarshalInfo L i = Some b \<longrightarrow>
     dec b = Some \<lparr>BestName = iName i, InfoIsDir = (iFiles i \<noteq> []),
                   UpvertedFiles = (if iFiles i = [] then [([], iLength i)] else iFiles i)\<rparr>)"

text \<open>C16. A published folder is one that the nodes take: the torrent that is written under its infohash has
  the infohash of the catalog entry and the folder's web seed, and a node that has its info dict accepts it
  for that entry, with the same names and sizes.\<close>

theorem published_folder_accepted:
  assumes "info_codec (tl_lib E) dec" "pLayout opt = LayoutDir" "AddModel E opt w = Some (Inr m, w')"
  shows "\<exists>mi w1 seen. MkdirAll w (TorrentsDir opt) = (None, w1)
     \<and> WriteTorrent (tl_lib E) (wr E 0) w1 (join_rel (TorrentsDir opt) (mInfoHash m @ ''.torrent'')) mi = (None, w', seen)
     \<and> HashInfoBytes (tl_lib E) (InfoBytes mi) = mInfoHash m \<and> UrlList mi = [DirWebSeed (HFRepo m)]
     \<and> checkDirInfo (dec (InfoBytes mi)) m = None"
proof (rule AddModel_cases [OF assms(3)], goal_cases any folder single)
  case any
  then show ?case by simp
next
  case (single sha es xs)
  then show ?case using assms(2) by (simp add: LayoutDir_def)
next
  case (folder sha es)
  from addDirModel_cases [OF folder(4)] obtain fs cs b opened files' where
    d: "dir_file_list opt es = Inr fs" "dir_checks w opt (byPath es) [] fs = Inr cs"
    "BuildDir (tl_lib E) w (folder_options opt (new_model opt sha) fs) = Inr (b, opened)" "dir_sums E (map_of opened) cs = Inr (files', [])"
    and s: "store_model E opt w ((new_model opt sha)\<lparr>Files := files', Layout := LayoutDir, mInfoHash := rInfoHash b, mMagnet := rMagnet b\<rparr>) [b] = (Inr m, w')"
    by blast
  have m: "m = (new_model opt sha)\<lparr>Files := files', Layout := LayoutDir, mInfoHash := rInfoHash b, mMagnet := rMagnet b\<rparr>"
    using store_one [OF s] by simp
  have "Validate (p_magnet E) (p_url E) [m] = None" using store_model_cases [OF s] m by simp
  then have dist: "distinct (map fName (Files m))" by (rule valid_names) (simp add: m)
  from BuildDir_Inr [OF d(3)] obtain infos pl ps where
    i: "dir_infos w (LocalDir opt) None (sort fs) = Inr infos"
    "MarshalInfo (tl_lib E) \<lparr>iName = sha, iLength = 0, iFiles = infos, iPieceLength = pl, iPieces = ps\<rparr> = Some (InfoBytes (rMetaInfo b))"
    "rInfoHash b = HashInfoBytes (tl_lib E) (InfoBytes (rMetaInfo b))" "UrlList (rMetaInfo b) = [DirWebSeed (pRepo opt)]"
    by (auto simp: folder_options_def new_model_def)
  have fs: "sort fs = fs" "fs \<noteq> []" using dir_file_list_chosen [OF d(1)] by (auto simp: sorted_sort_id)
  have sizes: "map (\<lambda>(c, l). (Join ''/'' c, l)) infos = catalogued m"
    using dir_infos_Inr [OF i(1)] dir_sums_sizes [OF d(2,4)] fs(1) by (simp add: catalogued_def m local_path_def)
  then have "infos \<noteq> []" using fs(2) dir_verified_files(1) [OF d(2,3) _ d(4)] by (auto simp: catalogued_def m folder_options_def)
  then have dec: "dec (InfoBytes (rMetaInfo b)) = Some \<lparr>BestName = sha, InfoIsDir = True, UpvertedFiles = infos\<rparr>"
    using assms(1) i(2) by (auto simp: info_codec_def)
  have "checkDirInfo (dec (InfoBytes (rMetaInfo b))) m = None"
    unfolding dec using sizes by (subst checkDirInfo_None [OF dist]) (simp add: m new_model_def listed_def)
  then show ?case using store_one [OF s] i(3,4) by (auto simp: m torrent_path_def new_model_def)
qed


section \<open>Disk names\<close>

lemma path_Base_plain:
  assumes "after_slash p \<noteq> []"
  shows "path_Base p = after_slash p"
proof -
  obtain c s where c: "rev p = c # s" "c \<noteq> CHR ''/''" using assms by (cases "rev p") (simp_all add: after_slash_def split: if_splits)
  then have "dropWhile (\<lambda>c. c = CHR ''/'') (rev p) = rev p" by simp
  then have "rev (dropWhile (\<lambda>c. c = CHR ''/'') (rev p)) = p" by (simp only: rev_rev_ident)
  moreover have "p \<noteq> []" using c by auto
  ultimately show ?thesis by (simp add: path_Base_def Let_def)
qed

lemma publish_DiskName_empty: "publish_DiskName i p s = [] \<longleftrightarrow> s p = Some []"
  by (auto simp: publish_DiskName_def Let_def HasSuffix_def HasPrefix_def split: option.splits)

lemma Build_file_Inr:
  assumes "Build_file L w o' = Inr r"
  obtains info where "MarshalInfo L info = Some (InfoBytes (rMetaInfo r))" "HashInfoBytes L (InfoBytes (rMetaInfo r)) = rInfoHash r"
    "iName info = oName o'"
  using assms by (auto simp: Build_file_def Let_def split: sum.splits option.splits if_splits dest!: finish_torrent_Inr)

lemma publish_file_torrent:
  assumes "publish_file E w opt sha ents p = Inr (r, f)"
  shows "\<exists>info. MarshalInfo (tl_lib E) info = Some (InfoBytes (rMetaInfo r)) \<and> HashInfoBytes (tl_lib E) (InfoBytes (rMetaInfo r)) = fInfoHash f
    \<and> iName info = publish_DiskName (pID opt) p (pStoreAs opt)"
  using assms by (auto simp: publish_file_def Let_def split: option.splits sum.splits if_splits elim!: Build_file_Inr)

text \<open>Every torrent of the list is written.\<close>

lemma write_torrents_each:
  assumes "write_torrents E opt k w rs = (None, w')" "r \<in> set rs"
  shows "\<exists>k w1 w2 seen. WriteTorrent (tl_lib E) (wr E k) w1 (torrent_path opt r) (rMetaInfo r) = (None, w2, seen)"
  using assms
proof (induction rs arbitrary: k w)
  case (Cons a rs)
  then obtain w2 seen where "WriteTorrent (tl_lib E) (wr E k) w (torrent_path opt a) (rMetaInfo a) = (None, w2, seen)"
    "write_torrents E opt (Suc k) w2 rs = (None, w')" by (auto split: prod.splits option.splits)
  with Cons show ?case by auto
qed simp

lemma store_model_each:
  assumes "store_model E opt w m rs = (Inr m', w')" "r \<in> set rs"
  shows "\<exists>k w1 w2 seen. WriteTorrent (tl_lib E) (wr E k) w1 (torrent_path opt r) (rMetaInfo r) = (None, w2, seen)"
  using assms by (auto simp: store_model_def split: option.splits prod.splits dest: write_torrents_each)

text \<open>C40. The torrent that is written for a published file, under the infohash of its catalog entry, has in its info dict the name under which the nodes
  store the file: what was asked for, or else the base name of the file's path, with the model's id before it unless it is a GGUF file.
  There is one exception, an empty name that was asked for: then the torrent's name is empty, but the nodes store
  the file under the base name of its path.\<close>

theorem publish_disk_names:
  assumes "AddModel E opt w = Some (Inr m, w')" "pLayout opt = ''''" "f \<in> set (Files m)"
  shows "\<exists>mi info k w1 w2 seen.
      WriteTorrent (tl_lib E) (wr E k) w1 (join_rel (TorrentsDir opt) (fInfoHash f @ ''.torrent'')) mi = (None, w2, seen)
    \<and> MarshalInfo (tl_lib E) info = Some (InfoBytes mi) \<and> HashInfoBytes (tl_lib E) (InfoBytes mi) = fInfoHash f
    \<and> iName info = (case pStoreAs opt (fName f) of Some s \<Rightarrow> s
        | None \<Rightarrow> if HasSuffix (path_Base (fName f)) ''.gguf'' then path_Base (fName f) else pID opt @ ''.'' @ path_Base (fName f))
    \<and> (if pStoreAs opt (fName f) = Some '''' then iName info = '''' \<and> DiskName f = path_Base (fName f) \<and> DiskName f \<noteq> ''''
       else DiskName f = iName info)"
proof (rule AddModel_cases [OF assms(1)], goal_cases any folder single)
  case any
  then show ?case by simp
next
  case (folder sha es)
  then show ?case using assms(2) by (simp add: LayoutDir_def)
next
  case (single sha es xs)
  let ?d = "publish_DiskName (pID opt) (fName f) (pStoreAs opt)"
  have m: "m = (new_model opt sha)\<lparr>Files := map snd xs\<rparr>" and v: "Validate (p_magnet E) (p_url E) [m] = None"
    using store_model_cases [OF single(6)] by auto
  obtain r where r: "(r, f) \<in> set xs" using assms(3) m by auto
  note pf = publish_files_file [OF single(5) r]
  have s: "StoreAs f = (if ?d \<noteq> path_Base (fName f) then ?d else '''')" by (rule publish_file_Inr(4) [OF pf])
  have "\<not> IsDir m" using m by (simp add: new_model_def IsDir_def LayoutDir_def)
  then have ne: "DiskName f \<noteq> []"
    using v assms(3) unfolding Validate_wf by (auto simp: wf_models_def model_ok_def file_ok_def diskRe_def)
  have disk: "if pStoreAs opt (fName f) = Some '''' then ?d = '''' \<and> DiskName f = path_Base (fName f) else DiskName f = ?d"
    using s ne path_Base_plain [of "fName f"] publish_DiskName_empty [of "pID opt" "fName f" "pStoreAs opt"]
    by (auto simp: DiskName_def split: if_splits)
  obtain info where i: "MarshalInfo (tl_lib E) info = Some (InfoBytes (rMetaInfo r))"
    "HashInfoBytes (tl_lib E) (InfoBytes (rMetaInfo r)) = fInfoHash f" "iName info = ?d" using publish_file_torrent [OF pf] by blast
  have "r \<in> set (map fst xs)" using r by force
  then obtain k w1 w2 seen where "WriteTorrent (tl_lib E) (wr E k) w1 (torrent_path opt r) (rMetaInfo r) = (None, w2, seen)"
    using store_model_each [OF single(6)] by blast
  then have wt: "WriteTorrent (tl_lib E) (wr E k) w1 (join_rel (TorrentsDir opt) (fInfoHash f @ ''.torrent'')) (rMetaInfo r) = (None, w2, seen)"
    using publish_file_Inr(3) [OF pf] by (simp add: torrent_path_def)
  have name: "?d = (case pStoreAs opt (fName f) of Some s \<Rightarrow> s
      | None \<Rightarrow> if HasSuffix (path_Base (fName f)) ''.gguf'' then path_Base (fName f) else pID opt @ ''.'' @ path_Base (fName f))"
    by (simp only: publish_DiskName_def Let_def)
  have "if pStoreAs opt (fName f) = Some '''' then iName info = '''' \<and> DiskName f = path_Base (fName f) \<and> DiskName f \<noteq> '''' else DiskName f = iName info"
    using disk ne unfolding i(3) by (auto split: if_splits)
  then show ?case using wt i(1,2) trans [OF i(3) name] by (intro exI conjI)
qed


section \<open>Witnesses\<close>

definition demo_sha :: string where "demo_sha = replicate 40 (CHR ''b'')"

definition demo_ptlib :: metalib where
  "demo_ptlib = demo_metalib\<lparr>HashInfoBytes := (\<lambda>_. demo_sha), MagnetString := (\<lambda>m. ''magnet:?'' @ mgWs m)\<rparr>"

definition demo_penv :: penv where
  "demo_penv = \<lparr>hfc = \<lparr>BaseURL = ''h'', Token = ''''\<rparr>, hfnet = (\<lambda>_ _ _. Answer 200 '''' ''''), dec_sha = (\<lambda>_. None),
     dec_tree = (\<lambda>_. Some [\<lparr>eType = ''file'', eOID = ''x'', eSize = 9, ePath = ''a.gguf'',
                            eLFS = Some \<lparr>lOID = replicate 64 (CHR ''a''), lSize = 1\<rparr>\<rparr>]),
     path_escape = (\<lambda>s. s), sha256 = (\<lambda>_. replicate 64 (CHR ''a'')), sha1 = (\<lambda>c. c), tl_lib = demo_ptlib,
     p_magnet = (\<lambda>s. Some (demo_sha, [], [drop 8 s])), p_url = (\<lambda>_. None), wr = (\<lambda>_. demo_wobs)\<rparr>"

definition demo_popt :: PublishOptions where
  "demo_popt = \<lparr>pID = ''m'', pRepo = ''o/r'', pRevision = demo_sha, pLicense = ''l'', pLicenseURL = '''', pLayout = '''',
     LocalDir = [''d''], pFiles = [''a.gguf''], pAll = False, pStoreAs = (\<lambda>_. None), TorrentsDir = [''t''], pAnnounce = None\<rparr>"

definition demo_pworld :: world where
  "demo_pworld = \<lparr>files = [([''d''], Dir 1), ([''d'', ''a.gguf''], Reg 2 ''x'' 0), ([''t''], Dir 3)], faults = (\<lambda>_. None), next_ino = 4, clock = 0\<rparr>"

definition demo_pmodel :: Model where
  "demo_pmodel = \<lparr>ID = ''m'', HFRepo = ''o/r'', Revision = demo_sha, License = ''l'', LicenseURL = '''', Layout = '''', mInfoHash = '''', mMagnet = '''',
     Files = [\<lparr>fName = ''a.gguf'', StoreAs = '''', fSize = 1, SHA256 = replicate 64 (CHR ''a''), fInfoHash = demo_sha,
               fMagnet = ''magnet:?https://huggingface.co/o/r/resolve/'' @ demo_sha @ ''/a.gguf''\<rparr>]\<rparr>"

definition demo_entries :: "Entry list" where
  "demo_entries = [\<lparr>eType = ''file'', eOID = ''x'', eSize = 9, ePath = ''a.gguf'', eLFS = Some \<lparr>lOID = replicate 64 (CHR ''a''), lSize = 1\<rparr>\<rparr>]"

definition demo_pinfo :: bytes where "demo_pinfo = ''a.ggufx''"

definition demo_result :: "string \<Rightarrow> bytes \<Rightarrow> string \<Rightarrow> Result" where
  "demo_result ws b cm = \<lparr>rMetaInfo = \<lparr>InfoBytes = b, miAnnounce = ''https://parrot.lnx.fi/announce'', AnnounceList = DefaultAnnounce,
     UrlList = [ws], CreatedBy = ''viiwork-parrot'', CreationDate = 0, Comment = cm\<rparr>, rInfoHash = demo_sha, rMagnet = ''magnet:?'' @ ws\<rparr>"

lemma demo_tree: "Tree (hfc demo_penv) (hfnet demo_penv) (dec_tree demo_penv) k repo sha = Some (Inr demo_entries)"
  by (simp add: Tree_def tree_loop.simps demo_penv_def tree_url_def getJSON_def demo_entries_def)

lemma demo_files:
  "publish_files demo_penv demo_pworld demo_popt demo_sha (byPath demo_entries) [''a.gguf''] =
     Inr [(demo_result (''https://huggingface.co/o/r/resolve/'' @ demo_sha @ ''/a.gguf'') demo_pinfo (''o/r@'' @ demo_sha @ '' a.gguf''), hd (Files demo_pmodel))]"
  by code_simp

lemma demo_pvalid: "Validate (p_magnet demo_penv) (p_url demo_penv) [demo_pmodel] = None"
  by code_simp

lemma demo_pwf: "wf_world demo_pworld"
  by code_simp

lemma demo_pmkdir: "MkdirAll demo_pworld [''t''] = (None, demo_pworld)"
  by (simp add: MkdirAll_def mkdir_step_def fault_def look_def resolve_def demo_pworld_def entry_def)

lemma demo_target: "join_rel [''t''] (demo_sha @ ''.torrent'') = [''t'', demo_sha @ ''.torrent'']"
proof -
  have "Split (CHR ''/'') (demo_sha @ ''.torrent'') = [demo_sha @ ''.torrent'']"
    by (rule Split_no_char) (simp add: demo_sha_def)
  then show ?thesis by (simp add: join_rel_def FromSlash_def Clean_id clean_path_def demo_sha_def)
qed

lemma demo_write:
  assumes "MarshalMeta L mi \<noteq> None"
  shows "\<exists>w' seen. WriteTorrent L demo_wobs demo_pworld [''t'', demo_sha @ ''.torrent''] mi = (None, w', seen)
    \<and> entry w' [''t'', demo_sha @ ''.torrent''] \<noteq> None"
proof -
  let ?p = "[''t'', demo_sha @ ''.torrent'']"
  obtain r w' seen where out: "WriteTorrent L demo_wobs demo_pworld ?p mi = (r, w', seen)" by (metis prod.exhaust)
  have e: "entry demo_pworld [''t''] = Some (Dir 3)" "entry demo_pworld ?p = None" "entry demo_pworld (temp_name ?p 7) = None"
    by (simp_all add: entry_def demo_pworld_def temp_name_def)
  have "real_path demo_pworld ([''t''] @ [demo_sha @ ''.torrent''])"
    by (rule real_path_child [OF wf_entry(1) [OF demo_pwf] e(1)]) (use e(1) in \<open>auto simp: clean_path_def demo_sha_def\<close>)
  then have r: "real_path demo_pworld ?p" by simp
  note res = write_torrent_result [OF demo_pwf r _ out]
  have "r = None" using res e assms by (auto simp: calm_write_def demo_wobs_def fault_def demo_pworld_def)
  moreover have "entry w' ?p \<noteq> None" using res calculation by (auto simp: written_to_def)
  ultimately show ?thesis using out by blast
qed

lemma demo_meta_ok: "MarshalMeta (tl_lib demo_penv) mi \<noteq> None"
  by (simp add: demo_penv_def demo_ptlib_def demo_metalib_def)

lemma demo_popt_fields:
  "pRevision demo_popt = demo_sha" "pRepo demo_popt = ''o/r''" "pLayout demo_popt = ''''" "\<not> pAll demo_popt" "pFiles demo_popt = [''a.gguf'']"
  "TorrentsDir demo_popt = [''t'']" "wr demo_penv k = demo_wobs" "hex40 demo_sha" "pStoreAs demo_popt p = None"
  by (simp_all add: demo_popt_def demo_penv_def demo_sha_def hex40_def is_hex_c_def)

lemma demo_store:
  assumes "Validate (p_magnet E) (p_url E) [m] = None" "wr E 0 = demo_wobs" "TorrentsDir opt = [''t'']" "rInfoHash r = demo_sha"
    "MarshalMeta (tl_lib E) (rMetaInfo r) \<noteq> None"
  shows "\<exists>w'. store_model E opt demo_pworld m [r] = (Inr m, w') \<and> entry w' [''t'', demo_sha @ ''.torrent''] \<noteq> None"
  using demo_write [OF assms(5)] by (auto simp: store_model_def assms(1-4) demo_pmkdir torrent_path_def demo_target)

lemma demo_publish:
  "\<exists>w'. AddModel demo_penv demo_popt demo_pworld = Some (Inr demo_pmodel, w') \<and> entry w' [''t'', demo_sha @ ''.torrent''] \<noteq> None"
proof -
  have m: "(new_model demo_popt demo_sha)\<lparr>Files := [hd (Files demo_pmodel)]\<rparr> = demo_pmodel"
    by (simp add: new_model_def demo_popt_def demo_pmodel_def)
  show ?thesis
    using demo_store [OF demo_pvalid demo_popt_fields(7,6) _ demo_meta_ok]
    by (simp add: AddModel_def ResolveRevision_def demo_popt_fields demo_tree demo_files m LayoutDir_def Let_def demo_result_def del: publish_files.simps)
qed

theorem publish_only_verified_witness:
  "\<exists>w' es. AddModel demo_penv demo_popt demo_pworld = Some (Inr demo_pmodel, w') \<and> Files demo_pmodel \<noteq> []
     \<and> (\<forall>f\<in>set (Files demo_pmodel). hf_verified demo_penv demo_pworld demo_popt es f)"
proof -
  obtain w' where "AddModel demo_penv demo_popt demo_pworld = Some (Inr demo_pmodel, w')" using demo_publish by blast
  with publish_only_verified [OF this] show ?thesis by (auto simp: demo_pmodel_def)
qed

text \<open>The same file, stored under an empty name.\<close>

definition demo_eopt :: PublishOptions where
  "demo_eopt = demo_popt\<lparr>pStoreAs := [''a.gguf'' \<mapsto> '''']\<rparr>"

lemma demo_efiles:
  "publish_files demo_penv demo_pworld demo_eopt demo_sha (byPath demo_entries) [''a.gguf''] =
     Inr [(demo_result (''https://huggingface.co/o/r/resolve/'' @ demo_sha @ ''/a.gguf'') ''x'' (''o/r@'' @ demo_sha @ '' a.gguf''), hd (Files demo_pmodel))]"
  by code_simp

lemma demo_epublish: "\<exists>w'. AddModel demo_penv demo_eopt demo_pworld = Some (Inr demo_pmodel, w')"
proof -
  have m: "(new_model demo_eopt demo_sha)\<lparr>Files := [hd (Files demo_pmodel)]\<rparr> = demo_pmodel"
    by (simp add: new_model_def demo_eopt_def demo_popt_def demo_pmodel_def)
  have f: "pRevision demo_eopt = demo_sha" "pRepo demo_eopt = ''o/r''" "pLayout demo_eopt = ''''" "\<not> pAll demo_eopt" "pFiles demo_eopt = [''a.gguf'']"
    "TorrentsDir demo_eopt = [''t'']" by (simp_all add: demo_eopt_def demo_popt_fields)
  let ?r = "demo_result (''https://huggingface.co/o/r/resolve/'' @ demo_sha @ ''/a.gguf'') ''x'' (''o/r@'' @ demo_sha @ '' a.gguf'')"
  have "rInfoHash ?r = demo_sha" by (simp add: demo_result_def)
  then obtain w' where "store_model demo_penv demo_eopt demo_pworld demo_pmodel [?r] = (Inr demo_pmodel, w')"
    using demo_store [OF demo_pvalid demo_popt_fields(7) f(6) _ demo_meta_ok, of ?r] by blast
  then show ?thesis
    by (simp add: AddModel_def ResolveRevision_def f demo_popt_fields(8) demo_tree demo_efiles m LayoutDir_def Let_def del: publish_files.simps)
qed

theorem publish_disk_names_witness:
  "(\<exists>info mi. MarshalInfo (tl_lib demo_penv) info = Some (InfoBytes (mi :: MetaInfo)) \<and> iName info = ''a.gguf'')
   \<and> (\<exists>info mi. MarshalInfo (tl_lib demo_penv) info = Some (InfoBytes (mi :: MetaInfo)) \<and> iName info = '''') \<and> DiskName (hd (Files demo_pmodel)) = ''a.gguf''"
proof -
  obtain w' where w': "AddModel demo_penv demo_popt demo_pworld = Some (Inr demo_pmodel, w')" using demo_publish by blast
  obtain w'' where w'': "AddModel demo_penv demo_eopt demo_pworld = Some (Inr demo_pmodel, w'')" using demo_epublish by blast
  have f: "hd (Files demo_pmodel) \<in> set (Files demo_pmodel)" "fName (hd (Files demo_pmodel)) = ''a.gguf''" "pLayout demo_eopt = ''''"
    "pStoreAs demo_eopt ''a.gguf'' = Some ''''"
    by (simp_all add: demo_pmodel_def demo_eopt_def demo_popt_def)
  have b: "path_Base ''a.gguf'' = ''a.gguf''" "HasSuffix ''a.gguf'' ''.gguf''" by code_simp+
  have "\<exists>info mi. MarshalInfo (tl_lib demo_penv) info = Some (InfoBytes (mi :: MetaInfo)) \<and> iName info = ''a.gguf''"
    using publish_disk_names [OF w' demo_popt_fields(3) f(1)] f b demo_popt_fields(9) by auto
  moreover have "\<exists>info mi. MarshalInfo (tl_lib demo_penv) info = Some (InfoBytes (mi :: MetaInfo)) \<and> iName info = ''''"
    "DiskName (hd (Files demo_pmodel)) = ''a.gguf''"
    using publish_disk_names [OF w'' f(3) f(1)] f b by auto
  ultimately show ?thesis by blast
qed

text \<open>The same file published as a folder of one file.\<close>

definition demo_finfo :: Info where
  "demo_finfo = \<lparr>iName = demo_sha, iLength = 0, iFiles = [([''a.gguf''], 1)], iPieceLength = 16384, iPieces = ''x''\<rparr>"

definition demo_fenv :: penv where
  "demo_fenv = demo_penv\<lparr>tl_lib := demo_ptlib\<lparr>MarshalInfo := (\<lambda>i. if i = demo_finfo then Some ''I'' else None)\<rparr>\<rparr>"

definition demo_fdec :: "bytes \<Rightarrow> tinfo option" where
  "demo_fdec b = Some \<lparr>BestName = demo_sha, InfoIsDir = True, UpvertedFiles = [([''a.gguf''], 1)]\<rparr>"

definition demo_fopt :: PublishOptions where
  "demo_fopt = demo_popt\<lparr>pLayout := ''dir'', pAll := True, pFiles := []\<rparr>"

definition demo_fmodel :: Model where
  "demo_fmodel = demo_pmodel\<lparr>Layout := ''dir'', mInfoHash := demo_sha, mMagnet := ''magnet:?https://huggingface.co/o/r/resolve/'',
     Files := [\<lparr>fName = ''a.gguf'', StoreAs = '''', fSize = 1, SHA256 = replicate 64 (CHR ''a''), fInfoHash = '''', fMagnet = ''''\<rparr>]\<rparr>"

lemma demo_fcodec: "info_codec (tl_lib demo_fenv) demo_fdec"
  by (simp add: info_codec_def demo_fenv_def demo_fdec_def demo_finfo_def)

lemma demo_fvalid: "Validate (p_magnet demo_fenv) (p_url demo_fenv) [demo_fmodel] = None"
  by code_simp

lemma demo_fbuild:
  "BuildDir (tl_lib demo_fenv) demo_pworld (folder_options demo_fopt (new_model demo_fopt demo_sha) [''a.gguf'']) =
     Inr (demo_result ''https://huggingface.co/o/r/resolve/'' ''I'' (''o/r@'' @ demo_sha), [(''a.gguf'', ''x'')])"
  by code_simp

lemma demo_fchecks:
  "dir_file_list demo_fopt demo_entries = Inr [''a.gguf'']"
  "dir_checks demo_pworld demo_fopt (byPath demo_entries) [] [''a.gguf''] = Inr [(''a.gguf'', hd demo_entries, 1)]"
  "dir_sums demo_fenv (map_of [(''a.gguf'', ''x'')]) [(''a.gguf'', hd demo_entries, 1)] = Inr (Files demo_fmodel, [])"
  by code_simp+

lemma demo_fpublish: "\<exists>w'. AddModel demo_fenv demo_fopt demo_pworld = Some (Inr demo_fmodel, w')"
proof -
  let ?r = "demo_result ''https://huggingface.co/o/r/resolve/'' ''I'' (''o/r@'' @ demo_sha)"
  have m: "(new_model demo_fopt demo_sha)\<lparr>Files := Files demo_fmodel, Layout := LayoutDir, mInfoHash := rInfoHash ?r, mMagnet := rMagnet ?r\<rparr> = demo_fmodel"
    by (simp add: new_model_def demo_fopt_def demo_popt_def demo_pmodel_def demo_fmodel_def demo_result_def LayoutDir_def)
  have f: "pRevision demo_fopt = demo_sha" "pRepo demo_fopt = ''o/r''" "pLayout demo_fopt = LayoutDir" "TorrentsDir demo_fopt = [''t'']"
    "wr demo_fenv 0 = demo_wobs" "hfc demo_fenv = hfc demo_penv" "hfnet demo_fenv = hfnet demo_penv" "dec_tree demo_fenv = dec_tree demo_penv"
    "rInfoHash ?r = demo_sha" "MarshalMeta (tl_lib demo_fenv) (rMetaInfo ?r) \<noteq> None"
    by (simp_all add: demo_fopt_def demo_fenv_def demo_popt_fields LayoutDir_def demo_result_def demo_ptlib_def demo_metalib_def)
  obtain w' where s: "store_model demo_fenv demo_fopt demo_pworld demo_fmodel [?r] = (Inr demo_fmodel, w')"
    using demo_store [OF demo_fvalid f(5,4,9,10)] by blast
  have "addDirModel demo_fenv demo_fopt demo_pworld (new_model demo_fopt demo_sha) demo_entries = (Inr demo_fmodel, w')"
    using s m by (simp add: addDirModel_def demo_fchecks demo_fbuild del: dir_checks.simps dir_sums.simps map_of.simps)
  then show ?thesis
    by (simp add: AddModel_def ResolveRevision_def f(1-8) demo_popt_fields(8) demo_tree Let_def)
qed

theorem published_folder_accepted_witness:
  "\<exists>mi :: MetaInfo. HashInfoBytes (tl_lib demo_fenv) (InfoBytes mi) = demo_sha \<and> checkDirInfo (demo_fdec (InfoBytes mi)) demo_fmodel = None"
proof -
  obtain w' where w': "AddModel demo_fenv demo_fopt demo_pworld = Some (Inr demo_fmodel, w')" using demo_fpublish by blast
  have f: "pLayout demo_fopt = LayoutDir" "mInfoHash demo_fmodel = demo_sha" by (simp_all add: demo_fopt_def demo_fmodel_def LayoutDir_def)
  show ?thesis using published_folder_accepted [OF demo_fcodec f(1) w'] unfolding f(2) by blast
qed

end
