(* ===== verification/Site.thy ===== *)
theory Site
  imports Mktorrent
begin

text \<open>
  \<open>internal/site\<close>: the data of the public page, as \<open>Render\<close> hands it to the page's template, and the sizes
  in units that the page and the publishing messages show. The template itself, the printing of a quotient with
  one decimal (\<open>fmt1\<close>), the printing of a time (\<open>ftime\<close>) and the URL parser are parameters.
\<close>

section \<open>Sizes\<close>

text \<open>The loop of \<open>humanSize\<close> and of \<open>humanBytes\<close>: the divisor, which may wrap around, and the index of the
  unit's letter.\<close>

function human_loop :: "int \<Rightarrow> int \<Rightarrow> nat \<Rightarrow> int \<times> nat" where
  "human_loop m dv ex = (if m \<ge> 1024 then human_loop (go_div m 1024) (i64 (dv * 1024)) (Suc ex) else (dv, ex))"
  by auto

termination by (relation "measure (\<lambda>(m, _). nat m)") (auto simp: go_div_nonneg)

declare human_loop.simps [simp del]

definition go_itoa :: "int \<Rightarrow> string" where
  "go_itoa n = (if n < 0 then ''-'' @ itoa (nat (- n)) else itoa (nat n))"

text \<open>An index past the end of the letters would stop the program: \<open>None\<close>.\<close>

definition humanSize :: "(int \<Rightarrow> int \<Rightarrow> string) \<Rightarrow> int \<Rightarrow> string option" where
  "humanSize fmt1 n =
     (if n < 1024 then Some (go_itoa n @ '' B'')
      else let (dv, ex) = human_loop (go_div n 1024) 1024 0
           in if ex < length ''KMGTPE'' then Some (fmt1 n dv @ '' '' @ [''KMGTPE'' ! ex] @ ''iB'') else None)"

definition humanBytes :: "(int \<Rightarrow> int \<Rightarrow> string) \<Rightarrow> int \<Rightarrow> string option" where
  "humanBytes fmt1 n =
     (if n < 1024 then Some (go_itoa n @ '' B'')
      else let (dv, ex) = human_loop (go_div n 1024) 1024 0
           in if ex < length ''KMGTPE'' then Some (fmt1 n dv @ '' '' @ [''KMGTPE'' ! ex] @ ''iB'') else None)"

section \<open>Views\<close>

record fileView =
  vDiskName :: string
  vSize :: "string option"
  vMagnet :: string
  vTorrentHref :: string
  vSHA256 :: string
  vShortSHA256 :: string

record dirFileView =
  dvPath :: string
  dvSize :: "string option"
  dvSHA256 :: string
  dvShortSHA256 :: string

record modelView =
  mvID :: string
  mvHFRepo :: string
  mvRevision :: string
  mvShortRevision :: string
  mvHFTreeURL :: string
  mvLicense :: string
  mvLicenseURL :: string
  mvTotalSize :: "string option"
  mvFiles :: "fileView list"
  mvIsDir :: bool
  mvFileCount :: nat
  mvMagnet :: string
  mvTorrentHref :: string
  mvDirFiles :: "dirFileView list"

record pageData =
  pgRepoURL :: string
  pgPubKey :: string
  pgSiteHost :: string
  pgTrackers :: "string list"
  pgGenerated :: string
  pgModels :: "modelView list"
  pgFileCount :: nat
  pgTotalSize :: "string option"

record siteOptions =
  sPubKey :: string
  sTrackers :: "string list"
  sRepoURL :: string

definition magnetURL :: "string \<Rightarrow> string" where
  "magnetURL m = (if \<not> HasPrefix m ''magnet:?'' then '''' else m)"

definition shortHex :: "string \<Rightarrow> nat \<Rightarrow> string" where
  "shortHex s n = (if length s \<le> n then s else take n s)"

definition torrent_href :: "string \<Rightarrow> string" where
  "torrent_href ih = ''torrents/'' @ ih @ ''.torrent''"

definition file_view :: "(int \<Rightarrow> int \<Rightarrow> string) \<Rightarrow> File \<Rightarrow> fileView" where
  "file_view fmt1 f = \<lparr>vDiskName = DiskName f, vSize = humanSize fmt1 (fSize f), vMagnet = magnetURL (fMagnet f),
     vTorrentHref = torrent_href (fInfoHash f), vSHA256 = SHA256 f, vShortSHA256 = shortHex (SHA256 f) 12\<rparr>"

definition dir_file_view :: "(int \<Rightarrow> int \<Rightarrow> string) \<Rightarrow> File \<Rightarrow> dirFileView" where
  "dir_file_view fmt1 f = \<lparr>dvPath = fName f, dvSize = humanSize fmt1 (fSize f), dvSHA256 = SHA256 f, dvShortSHA256 = shortHex (SHA256 f) 12\<rparr>"

definition newModelView :: "(int \<Rightarrow> int \<Rightarrow> string) \<Rightarrow> Model \<Rightarrow> modelView" where
  "newModelView fmt1 m =
     (let tree = ''https://huggingface.co/'' @ HFRepo m @ ''/tree/'' @ Revision m
      in if IsDir m
         then \<lparr>mvID = ID m, mvHFRepo = HFRepo m, mvRevision = Revision m, mvShortRevision = shortHex (Revision m) 7,
               mvHFTreeURL = tree, mvLicense = License m, mvLicenseURL = LicenseURL m,
               mvTotalSize = humanSize fmt1 (TotalSize m), mvFiles = [], mvIsDir = True, mvFileCount = length (Files m),
               mvMagnet = magnetURL (mMagnet m), mvTorrentHref = torrent_href (mInfoHash m),
               mvDirFiles = map (dir_file_view fmt1) (Files m)\<rparr>
         else \<lparr>mvID = ID m, mvHFRepo = HFRepo m, mvRevision = Revision m, mvShortRevision = shortHex (Revision m) 7,
               mvHFTreeURL = tree, mvLicense = License m, mvLicenseURL = LicenseURL m,
               mvTotalSize = humanSize fmt1 (foldl (\<lambda>t f. i64 (t + fSize f)) 0 (Files m)), mvFiles = map (file_view fmt1) (Files m),
               mvIsDir = False, mvFileCount = 0, mvMagnet = '''', mvTorrentHref = '''', mvDirFiles = []\<rparr>)"

fun siteHost :: "url_parser \<Rightarrow> string list \<Rightarrow> string" where
  "siteHost up [] = ''parrot.lnx.fi''"
| "siteHost up (t # ts) =
     (if \<not> HasPrefix t ''https://'' then siteHost up ts
      else case up t of
        Some (_, host) \<Rightarrow> if host \<noteq> '''' then host else siteHost up ts
      | None \<Rightarrow> siteHost up ts)"

text \<open>The page's data; \<open>defkey\<close> is the embedded public key.\<close>

definition page_data :: "(int \<Rightarrow> int \<Rightarrow> string) \<Rightarrow> (time \<Rightarrow> string) \<Rightarrow> url_parser \<Rightarrow> string \<Rightarrow> Catalog option \<Rightarrow> siteOptions \<Rightarrow> pageData" where
  "page_data fmt1 ftime up defkey co op =
     (let trackers = (if sTrackers op = [] then concat DefaultAnnounce else sTrackers op);
          d0 = \<lparr>pgRepoURL = (if sRepoURL op = '''' then ''https://github.com/janit/viiwork-parrot'' else sRepoURL op),
                pgPubKey = (if sPubKey op = '''' then defkey else sPubKey op), pgSiteHost = siteHost up trackers,
                pgTrackers = trackers, pgGenerated = '''', pgModels = [], pgFileCount = 0, pgTotalSize = Some ''''\<rparr>
      in case co of
           None \<Rightarrow> d0
         | Some c \<Rightarrow>
             d0\<lparr>pgGenerated := ftime (Generated c), pgModels := map (newModelView fmt1) (Models c),
                pgFileCount := sum_list (map (length \<circ> Files) (Models c)),
                pgTotalSize := humanSize fmt1 (foldl (\<lambda>t m. i64 (t + TotalSize m)) 0 (Models c))\<rparr>)"

definition Render :: "(pageData \<Rightarrow> 'r) \<Rightarrow> (int \<Rightarrow> int \<Rightarrow> string) \<Rightarrow> (time \<Rightarrow> string) \<Rightarrow> url_parser \<Rightarrow> string \<Rightarrow> Catalog option \<Rightarrow> siteOptions \<Rightarrow> 'r" where
  "Render template fmt1 ftime up defkey co op = template (page_data fmt1 ftime up defkey co op)"

section \<open>Property: sizes have a unit\<close>

lemma human_loop_invariant:
  assumes "0 < m" "m * dv \<le> n" "n < (m + 1) * dv" "dv = 1024 ^ Suc ex" "n < 2 ^ 63"
  shows "\<exists>ex'. human_loop m dv ex = (1024 ^ Suc ex', ex') \<and> 1024 ^ Suc ex' \<le> n \<and> n < 1024 ^ Suc (Suc ex')"
  using assms
proof (induction m dv ex rule: human_loop.induct)
  case (1 m dv ex)
  have dv0: "0 < dv" using 1(5) by simp
  show ?case
  proof (cases "m \<ge> 1024")
    case True
    have d: "go_div m 1024 = m div 1024" using 1(2) by (simp add: go_div_nonneg)
    have le: "1024 * dv \<le> m * dv" using True dv0 by simp
    have q: "0 < m div 1024" using True by simp
    have "dv * 1024 \<le> n" using le 1(3) by simp
    then have "in_i64 (dv * 1024)" using 1(6) dv0 by (simp add: in_i64_def)
    then have i: "i64 (dv * 1024) = dv * 1024" by (rule i64_id)
    have a: "m div 1024 * 1024 \<le> m" "m + 1 \<le> (m div 1024 + 1) * 1024" by auto
    have "(m div 1024 * 1024) * dv \<le> m * dv" using a(1) dv0 by (intro mult_right_mono) auto
    moreover have "(m + 1) * dv \<le> ((m div 1024 + 1) * 1024) * dv" using a(2) dv0 by (intro mult_right_mono) auto
    ultimately have "m div 1024 * (dv * 1024) \<le> n" "n < (m div 1024 + 1) * (dv * 1024)" using 1(3,4) by (simp_all add: mult_ac)
    moreover have "dv * 1024 = 1024 ^ Suc (Suc ex)" using 1(5) by simp
    ultimately have "\<exists>ex'. human_loop (m div 1024) (dv * 1024) (Suc ex) = (1024 ^ Suc ex', ex') \<and> 1024 ^ Suc ex' \<le> n \<and> n < 1024 ^ Suc (Suc ex')"
      using 1(1) [OF True] q 1(6) unfolding d i by blast
    then show ?thesis using True by (subst human_loop.simps) (simp add: d i)
  next
    case False
    have "1 * dv \<le> m * dv" using 1(2) dv0 by (intro mult_right_mono) auto
    moreover have "(m + 1) * dv \<le> 1024 * dv" using False dv0 by (intro mult_right_mono) auto
    ultimately have "dv \<le> n" "n < 1024 * dv" using 1(3,4) by auto
    then show ?thesis using False 1(5) by (subst human_loop.simps) simp
  qed
qed

lemma human_units:
  assumes "1024 \<le> n" "n < 2 ^ 63"
  shows "\<exists>ex<6. human_loop (go_div n 1024) 1024 0 = (1024 ^ Suc ex, ex) \<and> 1024 ^ Suc ex \<le> n \<and> n < 1024 ^ Suc (Suc ex)"
proof -
  have d: "go_div n 1024 = n div 1024" using assms(1) by (simp add: go_div_nonneg)
  have "0 < n div 1024" "n div 1024 * 1024 \<le> n" "n < (n div 1024 + 1) * 1024" using assms(1) by auto
  then obtain ex where ex: "human_loop (go_div n 1024) 1024 0 = (1024 ^ Suc ex, ex)" "1024 ^ Suc ex \<le> n" "n < 1024 ^ Suc (Suc ex)"
    using human_loop_invariant [of "n div 1024" 1024 n 0] assms(2) unfolding d by auto
  have "(2 :: int) ^ (10 * Suc ex) = (2 ^ 10) ^ Suc ex" by (rule power_mult)
  then have "(2 :: int) ^ (10 * Suc ex) < 2 ^ 63" using ex(2) assms(2) by simp
  then have "10 * Suc ex < 63" by (simp only: power_strict_increasing_iff)
  then show ?thesis using ex by (intro exI [of _ ex]) auto
qed

text \<open>Every size has a unit: for every \<open>int64\<close> the index of the unit's letter is within the letters, the
  divisor has not wrapped around, and it is the power of 1024 for which the quotient that is shown is at
  least 1 and less than 1024. The two copies of the function, for the page and for the messages of
  publishing, agree.\<close>

theorem human_size_exact:
  assumes "in_i64 n"
  shows "(n < 1024 \<longrightarrow> humanSize fmt1 n = Some (go_itoa n @ '' B''))
    \<and> (1024 \<le> n \<longrightarrow> (\<exists>ex<6. 1024 ^ Suc ex \<le> n \<and> n < 1024 ^ Suc (Suc ex)
          \<and> humanSize fmt1 n = Some (fmt1 n (1024 ^ Suc ex) @ '' '' @ [''KMGTPE'' ! ex] @ ''iB'')))
    \<and> humanBytes fmt1 n = humanSize fmt1 n"
proof (intro conjI impI)
  assume "1024 \<le> n"
  moreover have "n < 2 ^ 63" using assms by (simp add: in_i64_def)
  ultimately obtain ex where "ex < 6" "human_loop (go_div n 1024) 1024 0 = (1024 ^ Suc ex, ex)" "1024 ^ Suc ex \<le> n" "n < 1024 ^ Suc (Suc ex)"
    using human_units by blast
  then show "\<exists>ex<6. 1024 ^ Suc ex \<le> n \<and> n < 1024 ^ Suc (Suc ex)
      \<and> humanSize fmt1 n = Some (fmt1 n (1024 ^ Suc ex) @ '' '' @ [''KMGTPE'' ! ex] @ ''iB'')"
    using \<open>1024 \<le> n\<close> by (intro exI [of _ ex]) (simp add: humanSize_def)
qed (simp_all add: humanSize_def humanBytes_def)

theorem human_size_exact_witness:
  "\<exists>ex<6. 1024 ^ Suc ex \<le> (5000000000 :: int) \<and> (5000000000 :: int) < 1024 ^ Suc (Suc ex)
     \<and> humanSize (\<lambda>n d. go_itoa (n div d)) 5000000000 = Some (go_itoa (5000000000 div 1024 ^ Suc ex) @ '' '' @ [''KMGTPE'' ! ex] @ ''iB'')"
proof -
  have "in_i64 5000000000" by (simp add: in_i64_def)
  from human_size_exact [OF this, of "\<lambda>n d. go_itoa (n div d)"] show ?thesis by simp
qed

section \<open>Property: the page links every torrent\<close>

definition model_links :: "modelView \<Rightarrow> (string \<times> string) list" where
  "model_links v =
     (if mvIsDir v then [(mvMagnet v, mvTorrentHref v)] else map (\<lambda>f. (vMagnet f, vTorrentHref f)) (mvFiles v))"

lemma valid_magnets: "Validate pm up ms = None \<Longrightarrow> m \<in> set ms \<Longrightarrow> f \<in> set (units m) \<Longrightarrow> HasPrefix (fMagnet f) ''magnet:?''"
  unfolding Validate_wf by (auto simp: wf_models_def model_ok_def units_def dirUnit_def dir_ok_def file_ok_def split: if_splits)

lemma model_links_units:
  assumes "\<And>f. f \<in> set (units m) \<Longrightarrow> HasPrefix (fMagnet f) ''magnet:?''"
  shows "model_links (newModelView fmt1 m) = map (\<lambda>f. (fMagnet f, torrent_href (fInfoHash f))) (units m)"
  using assms by (auto simp: model_links_def newModelView_def units_def dirUnit_def file_view_def magnetURL_def Let_def)

text \<open>The page of a valid catalog offers every torrent of it, and nothing else: its links are, in order, the
  magnet of each torrent unit as the catalog has it, none of them dropped by the filter on links, with the
  torrent file of its infohash.\<close>

theorem site_links_complete:
  assumes "Validate pm up' (Models c) = None"
  shows "concat (map model_links (pgModels (page_data fmt1 ftime up defkey (Some c) op))) =
    map (\<lambda>f. (fMagnet f, torrent_href (fInfoHash f))) (concat (map units (Models c)))"
proof -
  have "map model_links (map (newModelView fmt1) (Models c)) = map (\<lambda>m. map (\<lambda>f. (fMagnet f, torrent_href (fInfoHash f))) (units m)) (Models c)"
    using model_links_units valid_magnets [OF assms] by auto
  then show ?thesis by (simp add: page_data_def Let_def map_concat comp_def cong: map_cong)
qed

theorem site_links_complete_witness:
  "concat (map model_links (pgModels (page_data (\<lambda>_ _. '''') (\<lambda>_. '''') demo_up '''' (Some demo_catalog) \<lparr>sPubKey = '''', sTrackers = [], sRepoURL = ''''\<rparr>))) =
     [(''magnet:?a'', torrent_href (hexstr 40 (CHR ''a''))), (''magnet:?b'', torrent_href (hexstr 40 (CHR ''b'')))]"
proof -
  have "Validate demo_pm demo_up (Models demo_catalog) = None" using demo_wf by (simp add: Validate_wf)
  from site_links_complete [OF this] show ?thesis
    by (simp add: demo_catalog_def demo_model_def demo_dir_model_def demo_file_def units_def dirUnit_def IsDir_def LayoutDir_def)
qed

end
