(* ===== verification/Discovery.thy ===== *)
theory Discovery
  imports Netip "HOL-Library.List_Lexorder" "HOL-Library.Char_ord" "HOL-Library.Multiset"
begin

text \<open>
  \<open>internal/discovery\<close>: the peers that no tracker knows, from \<open>tailscale status\<close> and from the configuration.
  The JSON decoder, the parsing and printing of addresses, the program that is run and the name lookups are
  parameters. Go walks over a map in any order, so the peers of a status are a list whose order is arbitrary.
\<close>

section \<open>Tailscale\<close>

record tsPeer =
  HostName :: string
  TailscaleIPs :: "string list"
  Online :: bool

datatype discovery_error = BadStatusJSON | StatusFailed | BadPeer string | BadPort string | LookupFailed string

definition u16 :: "int \<Rightarrow> nat" where
  "u16 n = nat (n mod 2 ^ 16)"

definition peer_addrs :: "(string \<Rightarrow> Addr option) \<Rightarrow> (Addr \<Rightarrow> nat \<Rightarrow> string) \<Rightarrow> int \<Rightarrow> tsPeer \<Rightarrow> string list" where
  "peer_addrs pa show_ap port p =
     (if \<not> Online p then []
      else concat (map (\<lambda>ip. case pa ip of None \<Rightarrow> [] | Some a \<Rightarrow> [show_ap a (u16 port)]) (TailscaleIPs p)))"

definition ParseTailscaleStatus :: "(bytes \<Rightarrow> tsPeer list option) \<Rightarrow> (string \<Rightarrow> Addr option) \<Rightarrow> (Addr \<Rightarrow> nat \<Rightarrow> string) \<Rightarrow> bytes \<Rightarrow> int
    \<Rightarrow> discovery_error + string list" where
  "ParseTailscaleStatus dec pa show_ap data port =
     (case dec data of
        None \<Rightarrow> Inl BadStatusJSON
      | Some ps \<Rightarrow> Inr (sort (concat (map (peer_addrs pa show_ap port) ps))))"

text \<open>\<open>out\<close> is what the command printed, unless it failed or took too long.\<close>

definition TailscalePeers :: "(bytes \<Rightarrow> tsPeer list option) \<Rightarrow> (string \<Rightarrow> Addr option) \<Rightarrow> (Addr \<Rightarrow> nat \<Rightarrow> string) \<Rightarrow> bytes option \<Rightarrow> int
    \<Rightarrow> discovery_error + string list" where
  "TailscalePeers dec pa show_ap out port =
     (case out of None \<Rightarrow> Inl StatusFailed | Some data \<Rightarrow> ParseTailscaleStatus dec pa show_ap data port)"

section \<open>Configured peers\<close>

text \<open>\<open>net.SplitHostPort\<close>, with the port.\<close>

definition SplitHostPort :: "string \<Rightarrow> (string \<times> string) option" where
  "SplitHostPort hp =
     (case SplitHost hp of
        None \<Rightarrow> None
      | Some host \<Rightarrow> Some (host, case last_colon hp of Some i \<Rightarrow> drop (i + 1) hp | None \<Rightarrow> ''''))"

text \<open>\<open>strconv.ParseUint(s, 10, 16)\<close>.\<close>

definition ParseUint16 :: "string \<Rightarrow> nat option" where
  "ParseUint16 s =
     (if s = '''' \<or> \<not> list_all is_digit s then None
      else let v = foldl (\<lambda>a c. a * 10 + (of_char c - 48)) 0 s in if v < 2 ^ 16 then Some v else None)"

definition resolve_peer :: "(string \<Rightarrow> Addr option) \<Rightarrow> (Addr \<Rightarrow> nat \<Rightarrow> string) \<Rightarrow> (string \<Rightarrow> Addr list option) \<Rightarrow> string
    \<Rightarrow> discovery_error + string list" where
  "resolve_peer pa show_ap lookup p =
     (case SplitHostPort p of
        None \<Rightarrow> Inl (BadPeer p)
      | Some (host, portStr) \<Rightarrow>
          (case ParseUint16 portStr of
             None \<Rightarrow> Inl (BadPort p)
           | Some port \<Rightarrow>
               (case pa host of
                  Some a \<Rightarrow> Inr [show_ap a port]
                | None \<Rightarrow>
                    (case lookup host of
                       None \<Rightarrow> Inl (LookupFailed p)
                     | Some addrs \<Rightarrow> Inr (map (\<lambda>a. show_ap (Unmap a) port) addrs)))))"

fun ResolveStatic :: "(string \<Rightarrow> Addr option) \<Rightarrow> (Addr \<Rightarrow> nat \<Rightarrow> string) \<Rightarrow> (string \<Rightarrow> Addr list option) \<Rightarrow> string list
    \<Rightarrow> string list \<times> discovery_error list" where
  "ResolveStatic pa show_ap lookup [] = ([], [])"
| "ResolveStatic pa show_ap lookup (p # ps) =
     (let (out, errs) = ResolveStatic pa show_ap lookup ps
      in case resolve_peer pa show_ap lookup p of
           Inl e \<Rightarrow> (out, e # errs)
         | Inr as \<Rightarrow> (as @ out, errs))"

section \<open>Property\<close>

lemma u16_id: "0 \<le> n \<Longrightarrow> n < 2 ^ 16 \<Longrightarrow> u16 n = nat n"
  by (simp add: u16_def)

lemma in_case_option: "x \<in> set (case v of None \<Rightarrow> [] | Some a \<Rightarrow> [g a]) \<longleftrightarrow> (\<exists>a. v = Some a \<and> x = g a)"
  by (cases v) auto

lemma mset_concat_perm: "mset ps = mset qs \<Longrightarrow> mset (concat (map f ps)) = mset (concat (map f qs))"
  by (simp add: mset_concat flip: sum_mset_sum_list)

lemma ResolveStatic_parts:
  "fst (ResolveStatic pa show_ap lookup ps) = concat (map (\<lambda>p. case resolve_peer pa show_ap lookup p of Inr as \<Rightarrow> as | Inl _ \<Rightarrow> []) ps)"
  "snd (ResolveStatic pa show_ap lookup ps) = concat (map (\<lambda>p. case resolve_peer pa show_ap lookup p of Inl e \<Rightarrow> [e] | Inr _ \<Rightarrow> []) ps)"
  by (induction ps) (auto simp: Let_def split: prod.splits sum.splits)

text \<open>The tailnet peers are the addresses of the peers that are online, with the node's port, each as often
  as the status lists it: the order in which Go happens to walk over the status's map does not show.\<close>

theorem tailscale_peers_exact:
  assumes "dec data = Some ps" "mset qs = mset ps" "0 \<le> port" "port < 2 ^ 16"
  shows "\<exists>out. ParseTailscaleStatus dec pa show_ap data port = Inr out
    \<and> ParseTailscaleStatus (\<lambda>_. Some qs) pa show_ap data port = Inr out \<and> sorted out
    \<and> set out = {show_ap a (nat port) | a p ip. p \<in> set ps \<and> Online p \<and> ip \<in> set (TailscaleIPs p) \<and> pa ip = Some a}"
proof -
  let ?f = "peer_addrs pa show_ap port"
  have "sort (concat (map ?f qs)) = sort (concat (map ?f ps))"
    by (rule properties_for_sort) (simp_all add: mset_concat_perm [OF assms(2)])
  moreover have "set (concat (map ?f ps)) = {show_ap a (nat port) | a p ip. p \<in> set ps \<and> Online p \<and> ip \<in> set (TailscaleIPs p) \<and> pa ip = Some a}"
  proof (rule set_eqI)
    fix x
    have "x \<in> set (?f p) \<longleftrightarrow> Online p \<and> (\<exists>ip\<in>set (TailscaleIPs p). \<exists>a. pa ip = Some a \<and> x = show_ap a (nat port))" for p
      by (auto simp: peer_addrs_def u16_id [OF assms(3,4)] in_case_option) metis+
    then show "x \<in> set (concat (map ?f ps)) \<longleftrightarrow> x \<in> {show_ap a (nat port) | a p ip. p \<in> set ps \<and> Online p \<and> ip \<in> set (TailscaleIPs p) \<and> pa ip = Some a}"
      by auto
  qed
  ultimately show ?thesis using assms(1) by (auto simp: ParseTailscaleStatus_def)
qed

theorem tailscale_peers_exact_witness:
  "\<exists>out. ParseTailscaleStatus (\<lambda>_. Some [\<lparr>HostName = ''h'', TailscaleIPs = [''b'', ''z''], Online = True\<rparr>])
       (\<lambda>s. if s = ''z'' then None else Some (V4 1)) (\<lambda>a n. replicate n (CHR ''p'')) '''' 7 = Inr out
     \<and> sorted out \<and> set out = {''ppppppp''}"
proof -
  let ?ps = "[\<lparr>HostName = ''h'', TailscaleIPs = [''b'', ''z''], Online = True\<rparr>]" and ?pa = "\<lambda>s. if s = ''z'' then None else Some (V4 1)"
  have "{replicate (nat 7) (CHR ''p'') | a p ip. p \<in> set ?ps \<and> Online p \<and> ip \<in> set (TailscaleIPs p) \<and> ?pa ip = Some a} = {''ppppppp''}"
    by (auto simp: eval_nat_numeral intro!: exI [of _ "''b''"])
  then show ?thesis
    using tailscale_peers_exact [of "\<lambda>_. Some ?ps" "''''" ?ps ?ps 7 ?pa "\<lambda>a n. replicate n (CHR ''p'')", OF refl refl]
    by (simp del: list.set)
qed

end
