(* ===== verification/Daemon.thy ===== *)
theory Daemon
  imports Runs Config Throttle Discovery
begin

text \<open>
  \<open>cmd/viiwork-parrot/cmd_daemon.go\<close>: how the daemon starts, the two loops that run beside the node and the
  API server, and the order in which everything stops. The node with its jobs is the system of \<open>Runs\<close>; the
  daemon's goroutines interleave with it in any order.
\<close>

section \<open>Starting\<close>

text \<open>The model ids that the configuration wants and the catalog does not have, with those it has.\<close>

definition checkWant :: "string list \<Rightarrow> Catalog \<Rightarrow> (string list \<times> string list) option" where
  "checkWant wnt c =
     (let unknown = filter (\<lambda>w. catalogModel c w = None \<and> w \<noteq> ''*'') wnt
      in if unknown = [] then None else Some (unknown, map ID (Models c)))"

datatype daemon_error =
    NoPubKey | BadCIDR string | NoCatalogYet "fetch_result_error option" | UnknownModels "string list \<times> string list"
  | NodeFailed | ListenFailed | ShutdownFailed | ServeFailed | ConfigUnreadable errno | ConfigInvalid config_error

datatype loop = LWait | LBusy | LEnded

datatype dphase = Serving | Stopping | Done "daemon_error option"

record daemon =
  dsys :: sys
  dcache :: cache
  rloop :: loop                            \<comment> \<open>\<open>refreshLoop\<close>\<close>
  dloop :: loop                            \<comment> \<open>\<open>discoveryLoop\<close>\<close>
  dphase :: dphase
  serveFailed :: bool                      \<comment> \<open>what \<open>serveErr\<close> holds\<close>

definition daemon_fetcher :: "string \<Rightarrow> Config \<Rightarrow> fetcher option" where
  "daemon_fetcher defkey cfg =
     (let pub = (if Config.PubKey cfg = '''' then defkey else Config.PubKey cfg)
      in if pub = '''' then None else Some \<lparr>URL = CatalogURL cfg, fetcher.PubKey = pub\<rparr>)"

text \<open>\<open>mk\<close> is \<open>node.New\<close> with the daemon's configuration, and \<open>listening\<close> tells whether the API's address can be
  listened on. The node's \<open>Close\<close> is deferred, so it runs when listening fails. \<open>SetCatalog\<close> scans the host and then
  launches jobs in a second section under the node's lock, which is a step of the node of its own (\<open>op_scanned\<close>); the limits' loop
  that \<open>Start\<close> begins is in \<open>Lifecycle\<close>.\<close>

definition start_daemon :: "lib \<Rightarrow> string \<Rightarrow> (string \<Rightarrow> Prefix option) \<Rightarrow> Config \<Rightarrow> (string \<Rightarrow> http_answer) \<Rightarrow> cache_faults \<Rightarrow> cache
    \<Rightarrow> sys option \<Rightarrow> bool \<Rightarrow> daemon_error + daemon" where
  "start_daemon L defkey pp cfg net flt c mk listening =
     (case daemon_fetcher defkey cfg of
        None \<Rightarrow> Inl NoPubKey
      | Some f \<Rightarrow>
          (case NewLocalMatcher pp (CIDRs cfg) of
             Inl e \<Rightarrow> Inl (BadCIDR e)
           | Inr _ \<Rightarrow>
               (case Fetch L f net flt c of
                  (None, e, _) \<Rightarrow> Inl (NoCatalogYet e)
                | (Some ct, _, c') \<Rightarrow>
                    (case checkWant (cfgWant cfg) ct of
                       Some u \<Rightarrow> Inl (UnknownModels u)
                     | None \<Rightarrow>
                         (case mk of
                            None \<Rightarrow> Inl NodeFailed
                          | Some s \<Rightarrow>
                              if \<not> listening then Inl ListenFailed
                              else Inr \<lparr>dsys = with_new_runs (snd (SetCatalog ct (snode s))) s, dcache = c', rloop = LWait,
                                        dloop = LBusy, dphase = Serving, serveFailed = False\<rparr>)))))"

text \<open>\<open>config.Load\<close>, and \<open>runDaemon\<close> from there on.\<close>

definition Load :: "cfgenv \<Rightarrow> (bytes \<Rightarrow> Config \<Rightarrow> yaml_result) \<Rightarrow> world \<Rightarrow> path \<Rightarrow> daemon_error + Config" where
  "Load V dec w p =
     (case ReadFile w p of
        Inl e \<Rightarrow> Inl (ConfigUnreadable e)
      | Inr data \<Rightarrow> (case ParseConfig V dec data of Inl e \<Rightarrow> Inl (ConfigInvalid e) | Inr cfg \<Rightarrow> Inr cfg))"

definition runDaemon :: "cfgenv \<Rightarrow> (bytes \<Rightarrow> Config \<Rightarrow> yaml_result) \<Rightarrow> world \<Rightarrow> path \<Rightarrow> lib \<Rightarrow> string \<Rightarrow> (string \<Rightarrow> http_answer)
    \<Rightarrow> cache_faults \<Rightarrow> cache \<Rightarrow> (Config \<Rightarrow> sys option) \<Rightarrow> bool \<Rightarrow> daemon_error + daemon" where
  "runDaemon V dec w p L defkey net flt c mk listening =
     (case Load V dec w p of
        Inl e \<Rightarrow> Inl e
      | Inr cfg \<Rightarrow> start_daemon L defkey (cprefix V) cfg net flt c (mk cfg) listening)"

section \<open>The loops\<close>

text \<open>The body of \<open>refreshLoop\<close>: a failed check of the wanted ids is only logged.\<close>

definition refresh_tick :: "lib \<Rightarrow> fetcher \<Rightarrow> (string \<Rightarrow> http_answer) \<Rightarrow> cache_faults \<Rightarrow> daemon \<Rightarrow> daemon" where
  "refresh_tick L f net flt d =
     (case Fetch L f net flt (dcache d) of
        (None, _, c') \<Rightarrow> d\<lparr>dcache := c'\<rparr>
      | (Some ct, _, c') \<Rightarrow> d\<lparr>dcache := c', dsys := with_new_runs (snd (SetCatalog ct (snode (dsys d)))) (dsys d)\<rparr>)"

text \<open>The body of \<open>discoveryLoop\<close>: the configured peers and, if it is switched on, the tailnet's.\<close>

definition discovered :: "(string \<Rightarrow> Addr option) \<Rightarrow> (Addr \<Rightarrow> nat \<Rightarrow> string) \<Rightarrow> (string \<Rightarrow> Addr list option) \<Rightarrow> (bytes \<Rightarrow> tsPeer list option)
    \<Rightarrow> bytes option \<Rightarrow> Config \<Rightarrow> string list" where
  "discovered pa show_ap lookup dec out cfg =
     fst (ResolveStatic pa show_ap lookup (Peers cfg)) @
     (if Tailscale cfg then (case TailscalePeers dec pa show_ap out (ListenPort cfg) of Inr ts \<Rightarrow> ts | Inl _ \<Rightarrow> []) else [])"

definition discovery_round :: "string list \<Rightarrow> daemon \<Rightarrow> daemon" where
  "discovery_round peers d = d\<lparr>dsys := AddPeers peers (dsys d)\<rparr>"

section \<open>Stopping\<close>

text \<open>\<open>runDaemon\<close> after the loops are gone: the server is shut down, and then the deferred \<open>Close\<close> runs. An error
  of \<open>Serve\<close> is in the channel before anything is stopped for it.\<close>

definition daemon_result :: "bool \<Rightarrow> bool \<Rightarrow> daemon_error option" where
  "daemon_result shutdownFails serveErr = (if shutdownFails then Some ShutdownFailed else if serveErr then Some ServeFailed else None)"

definition close_down :: "bool \<Rightarrow> daemon \<Rightarrow> daemon" where
  "close_down shutdownFails d =
     d\<lparr>dphase := Done (daemon_result shutdownFails (serveFailed d)), dsys := with_new_runs (Close (snode (dsys d))) (dsys d)\<rparr>"

text \<open>The steps of the node itself: its jobs, its API, its scans and its reapers. None of them sets a catalog,
  adds peers or closes the node.\<close>

definition own_step :: "bool \<Rightarrow> magnet_parser \<Rightarrow> sys \<Rightarrow> sys \<Rightarrow> bool" where
  "own_step seedOnly pm s s' \<longleftrightarrow> sys_step seedOnly pm s s' \<and> ncat (snode s') = ncat (snode s)
     \<and> speers s' = speers s \<and> node.closed (snode s') = node.closed (snode s)"

text \<open>A loop that waits may be woken or, once the context is done, may end; one that is busy finishes its round
  first. The context is done by a signal or by \<open>serveAPI\<close>, whose server failed.\<close>

inductive daemon_step :: "bool \<Rightarrow> magnet_parser \<Rightarrow> lib \<Rightarrow> fetcher \<Rightarrow> daemon \<Rightarrow> daemon \<Rightarrow> bool" for seedOnly pm L f where
  tick: "rloop d = LWait \<Longrightarrow> daemon_step seedOnly pm L f d (d\<lparr>rloop := LBusy\<rparr>)"
| refreshed: "rloop d = LBusy \<Longrightarrow> daemon_step seedOnly pm L f d ((refresh_tick L f net flt d)\<lparr>rloop := LWait\<rparr>)"
| refresh_ends: "rloop d = LWait \<Longrightarrow> dphase d \<noteq> Serving \<Longrightarrow> daemon_step seedOnly pm L f d (d\<lparr>rloop := LEnded\<rparr>)"
| wakes: "dloop d = LWait \<Longrightarrow> daemon_step seedOnly pm L f d (d\<lparr>dloop := LBusy\<rparr>)"
| found: "dloop d = LBusy \<Longrightarrow> daemon_step seedOnly pm L f d ((discovery_round peers d)\<lparr>dloop := LWait\<rparr>)"
| discovery_ends: "dloop d = LWait \<Longrightarrow> dphase d \<noteq> Serving \<Longrightarrow> daemon_step seedOnly pm L f d (d\<lparr>dloop := LEnded\<rparr>)"
| node_works: "own_step seedOnly pm (dsys d) s \<Longrightarrow> daemon_step seedOnly pm L f d (d\<lparr>dsys := s\<rparr>)"
| stopped: "dphase d = Serving \<Longrightarrow> daemon_step seedOnly pm L f d (d\<lparr>dphase := Stopping, serveFailed := broken\<rparr>)"
| closes: "dphase d = Stopping \<Longrightarrow> rloop d = LEnded \<Longrightarrow> dloop d = LEnded \<Longrightarrow>
    daemon_step seedOnly pm L f d (close_down shutdownFails d)"

inductive daemon_reach :: "bool \<Rightarrow> magnet_parser \<Rightarrow> lib \<Rightarrow> fetcher \<Rightarrow> daemon \<Rightarrow> bool" for seedOnly pm L f where
  started: "daemon_fetcher defkey cfg = Some f \<Longrightarrow> mk = None \<or> (\<exists>E wnt pr rd w. New E wnt pr rd w = Some (snode (the mk))) \<Longrightarrow>
    start_daemon L defkey pp cfg net flt c mk listening = Inr d \<Longrightarrow> daemon_reach seedOnly pm L f d"
| goes_on: "daemon_reach seedOnly pm L f d \<Longrightarrow> daemon_step seedOnly pm L f d d' \<Longrightarrow> daemon_reach seedOnly pm L f d'"

section \<open>Lemmas\<close>

lemma fold_keeps: "(\<And>n x. g (h n x) = g n) \<Longrightarrow> g (foldl h n xs) = g n"
  by (induction xs arbitrary: n) auto

lemma retire_keeps: "ncat (retire_one c r n jk) = ncat n \<and> node.closed (retire_one c r n jk) = node.closed n"
  by (auto simp: retire_one_def retireLocked_def Let_def split: prod.splits option.splits)

lemma launch_keeps: "ncat (launch_one i n mf) = ncat n \<and> node.closed (launch_one i n mf) = node.closed n"
  by (auto simp: launch_one_def Let_def split: prod.splits)

lemma prune_keeps: "ncat (pruneRecordedLocked p n) = ncat n \<and> node.closed (pruneRecordedLocked p n) = node.closed n"
  using pruneRecorded_nio [of p n] by auto

lemma reconcile_keeps: "ncat (snd (reconcileLocked r i n)) = ncat n \<and> node.closed (snd (reconcileLocked r i n)) = node.closed n"
proof -
  have "ncat (foldl (retire_one c r) n js) = ncat n \<and> node.closed (foldl (retire_one c r) n js) = node.closed n" for c js
    by (intro conjI fold_keeps) (simp_all add: retire_keeps)
  moreover have "ncat (foldl (launch_one idx) m ms) = ncat m \<and> node.closed (foldl (launch_one idx) m ms) = node.closed m" for idx m ms
    by (intro conjI fold_keeps) (simp_all add: launch_keeps)
  ultimately show ?thesis by (auto simp: reconcileLocked_def Let_def prune_keeps split: option.splits)
qed

lemma SetCatalog_keeps [simp]: "ncat (snd (SetCatalog c n)) = Some c" "node.closed (snd (SetCatalog c n)) = node.closed n"
  using reconcile_keeps [of True None "n\<lparr>ncat := Some c\<rparr>"] by (simp_all add: SetCatalog_def)

lemma with_new_runs_node [simp]: "snode (with_new_runs n s) = n" "speers (with_new_runs n s) = speers s"
  by (simp_all add: with_new_runs_def)

lemma Fetch_genuine_cat: "Fetch L f net flt c = (Some ct, e, c') \<Longrightarrow> genuine L f ct"
  by (cases rule: Fetch_cases [of L f net flt c]) (auto dest: loadCache_genuine fetch_remote_genuine)

lemma genuine_valid: "genuine L f ct \<Longrightarrow> Validate (magnet_uri L) (url_parse L) (Models ct) = None"
  by (auto simp: genuine_def Parse_def split: option.splits if_splits)

lemma set_catalog_step: "genuine L f ct \<Longrightarrow> sys_step seedOnly pm s (with_new_runs (snd (SetCatalog ct (snode s))) s)"
  using genuine_valid by (blast intro: node_moves op_catalog)


text \<open>A job's file and folder model are those of a unit of the catalog that was in force when the job was
  launched, and stay so.\<close>

definition unit_of :: "Catalog \<Rightarrow> File \<Rightarrow> Model option \<Rightarrow> bool" where
  "unit_of ct f dm \<longleftrightarrow> (\<exists>m\<in>set (Models ct). f \<in> set (units m) \<and> dm = (if IsDir m then Some m else None))"

definition jobs_from :: "(Catalog \<Rightarrow> bool) \<Rightarrow> node \<Rightarrow> bool" where
  "jobs_from G n \<longleftrightarrow> (\<forall>k<next_job n. \<exists>ct. G ct \<and> unit_of ct (kf (table n k)) (kdir (table n k)))"

lemma jobs_from_same:
  "jobs_from G n \<Longrightarrow> next_job n' = next_job n \<Longrightarrow> (\<And>k. k < next_job n \<Longrightarrow> kf (table n' k) = kf (table n k) \<and> kdir (table n' k) = kdir (table n k))
    \<Longrightarrow> jobs_from G n'"
  by (simp add: jobs_from_def)

lemma jobs_from_launch:
  "jobs_from G n \<Longrightarrow> G ct \<Longrightarrow> unit_of ct (snd mf) (if IsDir (fst mf) then Some (fst mf) else None) \<Longrightarrow> jobs_from G (launch_one idx n mf)"
  by (auto simp: jobs_from_def launch_one_def Let_def less_Suc_eq split: prod.splits)

lemma jobs_from_launches:
  "jobs_from G n \<Longrightarrow> G ct \<Longrightarrow> \<forall>mf\<in>set mfs. unit_of ct (snd mf) (if IsDir (fst mf) then Some (fst mf) else None)
    \<Longrightarrow> jobs_from G (foldl (launch_one idx) n mfs)"
  by (induction mfs arbitrary: n) (auto intro: jobs_from_launch)

lemma wanted_units_of: "mf \<in> set (wanted_units n ct) \<Longrightarrow> unit_of ct (snd mf) (if IsDir (fst mf) then Some (fst mf) else None)"
  by (auto simp: wanted_units_def unit_of_def split: if_splits)

lemma jobs_from_retires: "jobs_from G n \<Longrightarrow> jobs_from G (foldl (retire_one c r) n js)"
  by (induction js arbitrary: n)
    (auto simp: retire_one_def retireLocked_def Let_def jobs_from_def split: prod.splits option.splits)

lemma jobs_from_prune: "jobs_from G n \<Longrightarrow> jobs_from G (pruneRecordedLocked p n)"
  using pruneRecorded_nio [of p n] by (auto simp: jobs_from_def)

lemma jobs_from_reconcile:
  assumes "jobs_from G n" "\<And>ct. ncat n = Some ct \<Longrightarrow> G ct"
  shows "jobs_from G (snd (reconcileLocked r i n))"
proof (cases "ncat n")
  case None
  then show ?thesis using assms by (simp add: reconcileLocked_def)
next
  case (Some c)
  let ?n = "pruneRecordedLocked (inCatalog (Some c)) (foldl (retire_one c r) n (jobs n))"
  have "jobs_from G ?n" using assms(1) by (intro jobs_from_prune jobs_from_retires)
  moreover have "jobs_from G (foldl (launch_one idx) ?n (wanted_units ?n c))" for idx
    using calculation assms(2) [OF Some] wanted_units_of by (intro jobs_from_launches ballI)
  ultimately show ?thesis using assms(1) Some by (simp add: reconcileLocked_def Let_def split: option.splits)
qed

lemma jobs_from_op:
  assumes "node_op n n'" "jobs_from G n" "\<And>ct. ncat n = Some ct \<Longrightarrow> G ct" "\<And>ct. ncat n' = Some ct \<Longrightarrow> G ct"
  shows "jobs_from G n'"
  using assms
proof (induction rule: node_op.induct)
  case (op_catalog pm up c n)
  have "G c" using op_catalog.prems(3) by simp
  then show ?case using op_catalog.prems(1)
    by (simp add: SetCatalog_def) (intro jobs_from_reconcile; simp add: jobs_from_def)
next
  case (op_ensure n i scan n')
  then show ?case
    using jobs_from_reconcile [of G "n\<lparr>extraWant := i # extraWant n\<rparr>" False None]
    by (auto simp: Ensure_want_def jobs_from_def split: option.splits if_splits)
next
  case (op_scanned n retry idx)
  then show ?case by (intro jobs_from_reconcile)
qed (auto simp: Close_def reap_def jobs_from_def)

lemma jobs_from_step:
  assumes "sys_step seedOnly pm s s'" "jobs_from G (snode s)" "\<And>ct. ncat (snode s) = Some ct \<Longrightarrow> G ct" "\<And>ct. ncat (snode s') = Some ct \<Longrightarrow> G ct"
  shows "jobs_from G (snode s')"
  using assms
proof (induction rule: sys_step.induct)
  case (job_moves k s ob)
  obtain n1 r1 where m: "move seedOnly pm ob (snode s) k (rpt (sruns s k)) (sruns s k) = (n1, r1)" by force
  then show ?case using job_moves.prems(1) move_io [OF m]
    by (intro jobs_from_same [OF job_moves.prems(1)]) (auto simp: with_job_step_def job_step_def io_steps_def)
next
  case (node_moves s n)
  then show ?case using jobs_from_op by simp
next
  case (peers_found s addrs)
  then show ?case by (simp add: AddPeers_def jobs_from_def)
qed


text \<open>The daemon's node is a system of \<open>Runs\<close>, with a genuine catalog; it is closed at the end, and not before.\<close>

definition daemon_ok :: "bool \<Rightarrow> magnet_parser \<Rightarrow> lib \<Rightarrow> fetcher \<Rightarrow> daemon \<Rightarrow> bool" where
  "daemon_ok seedOnly pm L f d \<longleftrightarrow> sys_reach seedOnly pm (dsys d) \<and> (\<exists>ct. ncat (snode (dsys d)) = Some ct \<and> genuine L f ct)
     \<and> jobs_from (genuine L f) (snode (dsys d))
     \<and> (node.closed (snode (dsys d)) \<longleftrightarrow> (\<exists>r. dphase d = Done r))
     \<and> ((\<exists>r. dphase d = Done r) \<longrightarrow> rloop d = LEnded \<and> dloop d = LEnded)
     \<and> (\<forall>l\<in>{rloop d, dloop d}. l = LEnded \<longrightarrow> dphase d \<noteq> Serving)"

lemma New_open: "New E wnt pr rd w = Some n \<Longrightarrow> \<not> node.closed n"
  by (auto simp: New_def split: option.splits)

lemma daemon_ok_start:
  assumes "daemon_fetcher defkey cfg = Some f" "mk = None \<or> (\<exists>E wnt pr rd w. New E wnt pr rd w = Some (snode (the mk)))"
    "start_daemon L defkey pp cfg net flt c mk listening = Inr d"
  shows "daemon_ok seedOnly pm L f d"
proof -
  from assms(1,3) obtain ct e c' s where d: "Fetch L f net flt c = (Some ct, e, c')" "mk = Some s"
    "d = \<lparr>dsys = with_new_runs (snd (SetCatalog ct (snode s))) s, dcache = c', rloop = LWait, dloop = LBusy, dphase = Serving, serveFailed = False\<rparr>"
    by (auto simp: start_daemon_def split: sum.splits option.splits prod.splits if_splits)
  from assms(2) d(2) obtain E wnt pr rd w where n: "New E wnt pr rd w = Some (snode s)" by auto
  have g: "genuine L f ct" using Fetch_genuine_cat [OF d(1)] .
  have "sys_reach seedOnly pm (dsys d)" using sys_next [OF sys_start [OF n] set_catalog_step [OF g]] by (simp add: d(3))
  moreover have "\<not> node.closed (snode s)" using n by (rule New_open)
  moreover have "next_job (snode s) = 0" "ncat (snode s) = None"
    using n by (auto simp: New_def split: option.splits dest!: sym [of _ "snode s"])
  then have "jobs_from (genuine L f) (snode (dsys d))"
    using jobs_from_step [OF set_catalog_step [OF g], of "genuine L f" s] g by (simp add: d(3) jobs_from_def)
  ultimately show ?thesis using g by (simp add: daemon_ok_def d(3))
qed

lemma refresh_tick_parts:
  "rloop (refresh_tick L f net flt d) = rloop d" "dloop (refresh_tick L f net flt d) = dloop d"
  "dphase (refresh_tick L f net flt d) = dphase d"
  by (auto simp: refresh_tick_def split: prod.splits option.splits)

lemma daemon_ok_refresh:
  assumes "daemon_ok seedOnly pm L f d"
  shows "sys_reach seedOnly pm (dsys (refresh_tick L f net flt d))
    \<and> (\<exists>ct. ncat (snode (dsys (refresh_tick L f net flt d))) = Some ct \<and> genuine L f ct)
    \<and> jobs_from (genuine L f) (snode (dsys (refresh_tick L f net flt d)))
    \<and> node.closed (snode (dsys (refresh_tick L f net flt d))) = node.closed (snode (dsys d))"
proof (cases "Fetch L f net flt (dcache d)")
  case (fields co e c')
  show ?thesis
  proof (cases co)
    case None
    then show ?thesis using assms fields by (simp add: refresh_tick_def daemon_ok_def)
  next
    case (Some ct)
    then have g: "genuine L f ct" using Fetch_genuine_cat fields by blast
    moreover have "jobs_from (genuine L f) (snd (SetCatalog ct (snode (dsys d))))"
      using jobs_from_step [OF set_catalog_step [OF g], of "genuine L f" "dsys d"] assms g by (auto simp: daemon_ok_def)
    ultimately show ?thesis using assms fields Some sys_next [OF _ set_catalog_step [OF g]] by (auto simp: refresh_tick_def daemon_ok_def)
  qed
qed

lemma daemon_ok_step:
  assumes "daemon_step seedOnly pm L f d d'" "daemon_ok seedOnly pm L f d"
  shows "daemon_ok seedOnly pm L f d'"
  using assms
proof (cases rule: daemon_step.cases)
  case (refreshed net flt)
  then show ?thesis using assms(2) daemon_ok_refresh [OF assms(2), of net flt]
    by (auto simp: daemon_ok_def refresh_tick_parts)
next
  case (found peers)
  have "sys_reach seedOnly pm (AddPeers peers (dsys d))" using assms(2) sys_next peers_found by (auto simp: daemon_ok_def)
  then show ?thesis using found assms(2) by (auto simp: daemon_ok_def discovery_round_def AddPeers_def jobs_from_def)
next
  case (node_works s)
  have "sys_reach seedOnly pm s" using assms(2) node_works(2) sys_next by (auto simp: daemon_ok_def own_step_def)
  moreover have "jobs_from (genuine L f) (snode s)"
    using jobs_from_step [of seedOnly pm "dsys d" s "genuine L f"] node_works(2) assms(2) by (auto simp: daemon_ok_def own_step_def)
  ultimately show ?thesis using node_works assms(2) by (auto simp: daemon_ok_def own_step_def)
next
  case (closes b)
  have "sys_reach seedOnly pm (with_new_runs (Close (snode (dsys d))) (dsys d))"
    using assms(2) by (auto simp: daemon_ok_def intro: sys_next node_moves op_close)
  then show ?thesis using closes assms(2) by (auto simp: daemon_ok_def close_down_def Close_def jobs_from_def)
qed (auto simp: daemon_ok_def)

lemma daemon_reach_ok: "daemon_reach seedOnly pm L f d \<Longrightarrow> daemon_ok seedOnly pm L f d"
proof (induction rule: daemon_reach.induct)
  case (started defkey cfg mk pp net flt c listening d)
  then show ?case by (rule daemon_ok_start)
next
  case (goes_on d d')
  show ?case by (rule daemon_ok_step [OF goes_on(2,3)])
qed

text \<open>A loop beside others: once its context is done it ends, at once when it waits and after its round when it is busy,
  without touching the other loop. Both loops of the daemon keep to this.\<close>

locale draining_loop =
  fixes step :: "'s \<Rightarrow> 's \<Rightarrow> bool" and this_loop :: "'s \<Rightarrow> loop" and other :: "'s \<Rightarrow> 'o" and ctxDone :: "'s \<Rightarrow> bool"
  assumes ends: "ctxDone s \<Longrightarrow> this_loop s = LWait \<Longrightarrow> \<exists>s'. step s s' \<and> this_loop s' = LEnded \<and> other s' = other s \<and> ctxDone s'"
    and round: "ctxDone s \<Longrightarrow> this_loop s = LBusy \<Longrightarrow> \<exists>s'. step s s' \<and> this_loop s' = LWait \<and> other s' = other s \<and> ctxDone s'"
begin

lemma drains_waiting:
  assumes "ctxDone s" "this_loop s \<noteq> LBusy"
  shows "\<exists>s'. step\<^sup>*\<^sup>* s s' \<and> this_loop s' = LEnded \<and> other s' = other s \<and> ctxDone s'"
  using assms ends [OF assms(1)] by (cases "this_loop s") blast+

lemma drains:
  assumes "ctxDone s"
  shows "\<exists>s'. step\<^sup>*\<^sup>* s s' \<and> this_loop s' = LEnded \<and> other s' = other s \<and> ctxDone s'"
proof (cases "this_loop s = LBusy")
  case True
  then obtain a where a: "step s a" "this_loop a = LWait" "other a = other s" "ctxDone a" using round [OF assms] by blast
  from drains_waiting [OF a(4)] a obtain b where "step\<^sup>*\<^sup>* a b" "this_loop b = LEnded" "other b = other s" "ctxDone b" by auto
  with a(1) show ?thesis by (meson converse_rtranclp_into_rtranclp)
qed (use drains_waiting [OF assms] in simp)

end

lemma refresh_draining: "draining_loop (daemon_step seedOnly pm L f) rloop dloop (\<lambda>d. dphase d = Stopping)"
proof
  fix d :: daemon
  assume s: "dphase d = Stopping"
  show "\<exists>d'. daemon_step seedOnly pm L f d d' \<and> rloop d' = LEnded \<and> dloop d' = dloop d \<and> dphase d' = Stopping" if "rloop d = LWait"
    using refresh_ends [of d seedOnly pm L f] s that by (intro exI [of _ "d\<lparr>rloop := LEnded\<rparr>"]) simp
  show "\<exists>d'. daemon_step seedOnly pm L f d d' \<and> rloop d' = LWait \<and> dloop d' = dloop d \<and> dphase d' = Stopping" if "rloop d = LBusy"
    using refreshed [OF that, of seedOnly pm L f "\<lambda>_. NoResponse" no_faults] s by (auto simp: refresh_tick_parts)
qed

lemma discovery_draining: "draining_loop (daemon_step seedOnly pm L f) dloop rloop (\<lambda>d. dphase d = Stopping)"
proof
  fix d :: daemon
  assume s: "dphase d = Stopping"
  show "\<exists>d'. daemon_step seedOnly pm L f d d' \<and> dloop d' = LEnded \<and> rloop d' = rloop d \<and> dphase d' = Stopping" if "dloop d = LWait"
    using discovery_ends [of d seedOnly pm L f] s that by (intro exI [of _ "d\<lparr>dloop := LEnded\<rparr>"]) simp
  show "\<exists>d'. daemon_step seedOnly pm L f d d' \<and> dloop d' = LWait \<and> rloop d' = rloop d \<and> dphase d' = Stopping" if "dloop d = LBusy"
    using found [OF that, of seedOnly pm L f "[]"] s by (auto simp: discovery_round_def)
qed

interpretation refresh_loop: draining_loop "daemon_step seedOnly pm L f" rloop dloop "\<lambda>d. dphase d = Stopping" for seedOnly pm L f
  by (rule refresh_draining)

interpretation discovery_loop: draining_loop "daemon_step seedOnly pm L f" dloop rloop "\<lambda>d. dphase d = Stopping" for seedOnly pm L f
  by (rule discovery_draining)

section \<open>Properties\<close>

text \<open>The daemon's node only ever works on genuine catalogs: at every moment it has a catalog whose bytes
  carried a valid signature under the configured, or else the embedded, public key and that parsed and
  validated, whatever the servers answered to the first fetch and to all the refreshes; and every run of the daemon is a run of the
  node's system, so what holds of that system's runs holds of the daemon.\<close>

theorem daemon_catalog_genuine:
  assumes "daemon_reach seedOnly pm L f d"
  shows "sys_reach seedOnly pm (dsys d) \<and>
    (\<exists>ct data sig. ncat (snode (dsys d)) = Some ct \<and> Verify L (fetcher.PubKey f) data sig = None
       \<and> Parse (magnet_uri L) (url_parse L) (json_dec L) data = Inr ct \<and> Validate (magnet_uri L) (url_parse L) (Models ct) = None)"
proof -
  obtain ct where ct: "sys_reach seedOnly pm (dsys d)" "ncat (snode (dsys d)) = Some ct" "genuine L f ct"
    using daemon_reach_ok [OF assms] unfolding daemon_ok_def by blast
  then show ?thesis using genuine_valid [OF ct(3)] unfolding genuine_def by blast
qed

text \<open>C18. The daemon stops in order: the node is closed exactly when the daemon is done, which is after both loops
  have ended; once it is done nothing gives the node a catalog or peers any more; and from the moment it is told to stop, by a
  signal or by an API server that failed, it can always get there, with an error if the server failed.\<close>

theorem daemon_stops_in_order:
  assumes "daemon_reach seedOnly pm L f d"
  shows "(node.closed (snode (dsys d)) \<longleftrightarrow> (\<exists>r. dphase d = Done r))
    \<and> ((\<exists>r. dphase d = Done r) \<longrightarrow> rloop d = LEnded \<and> dloop d = LEnded
         \<and> (\<forall>d'. daemon_step seedOnly pm L f d d' \<longrightarrow> dphase d' = dphase d \<and> ncat (snode (dsys d')) = ncat (snode (dsys d)) \<and> speers (dsys d') = speers (dsys d)))
    \<and> (dphase d = Stopping \<longrightarrow> (\<exists>d' r. (daemon_step seedOnly pm L f)\<^sup>*\<^sup>* d d' \<and> dphase d' = Done r \<and> (serveFailed d' \<longrightarrow> r \<noteq> None)))"
proof (intro conjI impI allI)
  note ok = daemon_reach_ok [OF assms, unfolded daemon_ok_def]
  show "node.closed (snode (dsys d)) \<longleftrightarrow> (\<exists>r. dphase d = Done r)" using ok by blast
  show "\<exists>d' r. (daemon_step seedOnly pm L f)\<^sup>*\<^sup>* d d' \<and> dphase d' = Done r \<and> (serveFailed d' \<longrightarrow> r \<noteq> None)" if "dphase d = Stopping"
  proof -
    from refresh_loop.drains [OF that] obtain e where e: "(daemon_step seedOnly pm L f)\<^sup>*\<^sup>* d e" "rloop e = LEnded" "dphase e = Stopping" by blast
    from discovery_loop.drains [OF e(3)] obtain g where g: "(daemon_step seedOnly pm L f)\<^sup>*\<^sup>* e g" "dloop g = LEnded" "rloop g = LEnded" "dphase g = Stopping"
      using e(2) by metis
    have c: "daemon_step seedOnly pm L f g (close_down False g)" by (rule closes [OF g(4,3,2)])
    have "(daemon_step seedOnly pm L f)\<^sup>*\<^sup>* d (close_down False g)"
      by (rule rtranclp_trans [OF e(1) rtranclp.rtrancl_into_rtrancl [OF g(1) c]])
    then show ?thesis by (intro exI [of _ "close_down False g"]) (simp add: close_down_def daemon_result_def)
  qed
  fix d'
  assume fin: "\<exists>r. dphase d = Done r"
  then show "rloop d = LEnded" "dloop d = LEnded" using ok by blast+
  assume "daemon_step seedOnly pm L f d d'"
  then have "dphase d' = dphase d \<and> ncat (snode (dsys d')) = ncat (snode (dsys d)) \<and> speers (dsys d') = speers (dsys d)"
    by (cases rule: daemon_step.cases) (use fin ok in \<open>auto simp: own_step_def\<close>)
  then show "dphase d' = dphase d" "ncat (snode (dsys d')) = ncat (snode (dsys d))" "speers (dsys d') = speers (dsys d)" by blast+
qed

section \<open>Witnesses\<close>

definition demo_cfg :: Config where
  "demo_cfg = Defaults\<lparr>CatalogURL := ''u'', CIDRs := [], cfgWant := [''*'']\<rparr>"

definition demo_node_sys :: sys where
  "demo_node_sys = \<lparr>snode = demo_new, sruns = new_run demo_new, speers = []\<rparr>"

definition demo_daemon :: daemon where
  "demo_daemon = \<lparr>dsys = with_new_runs (snd (SetCatalog demo_catalog demo_new)) demo_node_sys, dcache = [cache_name \<mapsto> newsig @ [CHR 0x0A] @ ''new''],
     rloop = LWait, dloop = LBusy, dphase = Serving, serveFailed = False\<rparr>"

lemma demo_daemon_reach: "daemon_reach False demo_pm demo_lib demo_fetcher demo_daemon"
proof (rule started)
  show f: "daemon_fetcher (replicate 32 (CHR ''k'')) demo_cfg = Some demo_fetcher"
    by (simp add: daemon_fetcher_def demo_cfg_def Defaults_def demo_fetcher_def)
  show "Some demo_node_sys = None \<or> (\<exists>E wnt pr rd w. New E wnt pr rd w = Some (snode (the (Some demo_node_sys))))"
    using demo_new_facts(2) by (simp add: demo_node_sys_def) blast
  have "checkWant (cfgWant demo_cfg) demo_catalog = None" "NewLocalMatcher (\<lambda>_. None) (CIDRs demo_cfg) = Inr []"
    by (simp_all add: checkWant_def demo_cfg_def)
  then show "start_daemon demo_lib (replicate 32 (CHR ''k'')) (\<lambda>_. None) demo_cfg (demo_net ''new'' newsig) no_faults (\<lambda>_. None) (Some demo_node_sys) True = Inr demo_daemon"
    using demo_fresh_fetch [of newsig] by (simp add: start_daemon_def f demo_daemon_def demo_node_sys_def)
qed

text \<open>The sample run of \<open>Runs\<close>, inside the daemon.\<close>

lemma demo_daemon_node:
  assumes "daemon_reach False demo_pm demo_lib demo_fetcher (demo_daemon\<lparr>dsys := s\<rparr>)" "own_step False demo_pm s s'"
  shows "daemon_reach False demo_pm demo_lib demo_fetcher (demo_daemon\<lparr>dsys := s'\<rparr>)"
  using goes_on [OF assms(1) node_works [of False demo_pm "demo_daemon\<lparr>dsys := s\<rparr>" s']] assms(2) by simp

lemma demo_daemon_at: "daemon_reach False demo_pm demo_lib demo_fetcher (demo_daemon\<lparr>dsys := demo_at S\<rparr>)"
proof -
  have 0: "daemon_reach False demo_pm demo_lib demo_fetcher (demo_daemon\<lparr>dsys := dsys demo_daemon\<rparr>)"
    using demo_daemon_reach by simp
  have n: "node_op (snd (SetCatalog demo_catalog demo_new)) demo_started"
    using node_op.op_scanned [of "snd (SetCatalog demo_catalog demo_new)" True demo_idx] by (simp add: demo_started_def demo_new_def)
  have c: "\<not> node.closed demo_new" using New_open [OF demo_new_facts(2)] .
  have "own_step False demo_pm (dsys demo_daemon) demo_sys"
    using node_moves [of "dsys demo_daemon" demo_started] n c demo_sys_facts
    by (simp add: own_step_def demo_daemon_def demo_sys_def demo_node_sys_def)
  note 1 = demo_daemon_node [OF 0 this]
  have "own_step False demo_pm demo_sys (demo_at S)"
    using node_moves [of demo_sys "demo_started\<lparr>nio := S\<rparr>"] node_op.op_disk [of demo_started S]
    by (simp add: own_step_def demo_at_def demo_sys_def)
  from demo_daemon_node [OF 1 this] show ?thesis .
qed

lemma demo_daemon_moves: "daemon_reach False demo_pm demo_lib demo_fetcher (demo_daemon\<lparr>dsys := demo_moves c S\<rparr>)"
proof (induction c)
  case 0
  show ?case using demo_daemon_at by (simp add: demo_moves_def)
next
  case (Suc c)
  have r: "demo_ready (demo_moves c S)" "demo_ready (demo_moves (Suc c) S)" by (rule demo_moves_ready)+
  have "sys_step False demo_pm (demo_moves c S) (with_job_step False demo_pm demo_obs 0 (demo_moves c S))"
    by (rule job_moves) (use r in \<open>auto simp: demo_ready_def demo_obs_def\<close>)
  with r have "own_step False demo_pm (demo_moves c S) (demo_moves (Suc c) S)"
    by (auto simp: own_step_def demo_ready_def ctx_done_def) (simp add: demo_moves_def)
  with Suc show ?case by (rule demo_daemon_node)
qed

theorem daemon_catalog_genuine_witness:
  "Validate (magnet_uri demo_lib) (url_parse demo_lib) (Models demo_catalog) = None \<and> ncat (snode (dsys demo_daemon)) = Some demo_catalog"
proof -
  have c: "ncat (snode (dsys demo_daemon)) = Some demo_catalog" by (simp add: demo_daemon_def)
  show ?thesis using daemon_catalog_genuine [OF demo_daemon_reach] c by auto
qed

theorem daemon_stops_in_order_witness:
  "\<exists>d' r. (daemon_step False demo_pm demo_lib demo_fetcher)\<^sup>*\<^sup>* (demo_daemon\<lparr>dphase := Stopping, serveFailed := True\<rparr>) d' \<and> dphase d' = Done r"
proof -
  have "daemon_step False demo_pm demo_lib demo_fetcher demo_daemon (demo_daemon\<lparr>dphase := Stopping, serveFailed := True\<rparr>)"
    by (rule stopped) (simp add: demo_daemon_def)
  from goes_on [OF demo_daemon_reach this] have r: "daemon_reach False demo_pm demo_lib demo_fetcher (demo_daemon\<lparr>dphase := Stopping, serveFailed := True\<rparr>)" .
  show ?thesis using daemon_stops_in_order [OF r] by auto
qed



end
