(* ===== verification/Commands.thy ===== *)
theory Commands
  imports Publish Site Fetch
begin

text \<open>
  The commands that make a catalog: \<open>cmd/viiwork-parrot/cmd_mktorrent.go\<close> and \<open>cmd_catalog.go\<close>, and the YAML source
  of the catalog (\<open>LoadYAML\<close> and \<open>SaveYAML\<close> of \<open>internal/catalog\<close>). The flags are given as parsed, the paths as absolute
  ones; the YAML and JSON codecs, the key generator and the template are parameters.
\<close>

section \<open>The catalog's source\<close>

datatype cmd_error =
    Usage | BadLayoutFlag string | StoreAsWithDir | YamlRead errno | YamlDecode | YamlEncode | YamlWrite errno
  | AlreadyThere string | PublishFailed publish_error | CatalogInvalid verror | BuildFailed catalog_error
  | ReadFailed path errno | MkdirFailed errno | WriteFailed errno | SignFailed sign_error | VerifyFailed verify_error | ParseFailed catalog_error
  | KeyExists path | NoKeyMade | BadPair string

definition LoadYAML :: "(bytes \<Rightarrow> Model list option) \<Rightarrow> world \<Rightarrow> path \<Rightarrow> cmd_error + Model list" where
  "LoadYAML ydec w p =
     (case ReadFile w p of
        Inl e \<Rightarrow> if is_not_exist e then Inr [] else Inl (YamlRead e)
      | Inr data \<Rightarrow> (case ydec data of None \<Rightarrow> Inl YamlDecode | Some ms \<Rightarrow> Inr ms))"

definition suffixed :: "path \<Rightarrow> string \<Rightarrow> path" where
  "suffixed p s = butlast p @ [last p @ s]"

definition SaveYAML :: "(Model list \<Rightarrow> bytes option) \<Rightarrow> world \<Rightarrow> path \<Rightarrow> Model list \<Rightarrow> cmd_error option \<times> world" where
  "SaveYAML yenc w p ms =
     (case yenc ms of
        None \<Rightarrow> (Some YamlEncode, w)
      | Some data \<Rightarrow>
          (case WriteFile w (suffixed p ''.tmp'') data of
             (Some e, w1) \<Rightarrow> (Some (YamlWrite e), w1)
           | (None, w1) \<Rightarrow>
               (case Rename w1 (suffixed p ''.tmp'') p of (Some e, w2) \<Rightarrow> (Some (YamlWrite e), w2) | (None, w2) \<Rightarrow> (None, w2))))"

section \<open>\<open>mktorrent\<close>\<close>

text \<open>\<open>kvFlag\<close> as an association list.\<close>

definition kvSet :: "(string \<times> string) list \<Rightarrow> string \<Rightarrow> cmd_error + (string \<times> string) list" where
  "kvSet kv s = (case Cut (CHR ''='') s of (a, b, ok) \<Rightarrow> if \<not> ok then Inl (BadPair s) else Inr ((a, b) # filter (\<lambda>(k, _). k \<noteq> a) kv))"

record mktorrent_args =
  aCatalog :: path
  aTorrents :: path
  aID :: string
  aRepo :: string
  aRev :: string
  aLicense :: string
  aLicenseURL :: string
  aLocal :: path
  aReplace :: bool
  aLayout :: string
  aAll :: bool
  aStoreAs :: "(string \<times> string) list"
  aFiles :: "string list"

definition model_index :: "string \<Rightarrow> Model list \<Rightarrow> nat option" where
  "model_index i ms = snd (foldl (\<lambda>(k, idx) m. (Suc k, if ID m = i then Some k else idx)) (0, None) ms)"

definition put_model :: "nat option \<Rightarrow> Model \<Rightarrow> Model list \<Rightarrow> Model list" where
  "put_model idx m ms = (case idx of Some k \<Rightarrow> ms[k := m] | None \<Rightarrow> ms @ [m])"

definition publish_options :: "mktorrent_args \<Rightarrow> PublishOptions" where
  "publish_options a = \<lparr>pID = aID a, pRepo = aRepo a, pRevision = aRev a, pLicense = aLicense a, pLicenseURL = aLicenseURL a,
     pLayout = aLayout a, LocalDir = aLocal a, pFiles = aFiles a, pAll = aAll a, pStoreAs = map_of (aStoreAs a),
     TorrentsDir = aTorrents a, pAnnounce = None\<rparr>"

definition runMktorrent :: "(Model list \<Rightarrow> bytes option) \<Rightarrow> (bytes \<Rightarrow> Model list option) \<Rightarrow> penv \<Rightarrow> mktorrent_args \<Rightarrow> world
    \<Rightarrow> (cmd_error option \<times> world) option" where
  "runMktorrent yenc ydec E a w =
     (if aID a = '''' \<or> aRepo a = '''' \<or> aLicense a = '''' \<or> (aFiles a = []) = (\<not> aAll a) then Some (Some Usage, w)
      else if aLayout a \<noteq> '''' \<and> aLayout a \<noteq> LayoutDir then Some (Some (BadLayoutFlag (aLayout a)), w)
      else if aLayout a = LayoutDir \<and> aStoreAs a \<noteq> [] then Some (Some StoreAsWithDir, w)
      else case LoadYAML ydec w (aCatalog a) of
        Inl e \<Rightarrow> Some (Some e, w)
      | Inr ms \<Rightarrow>
          (let idx = model_index (aID a) ms
           in if idx \<noteq> None \<and> \<not> aReplace a then Some (Some (AlreadyThere (aID a)), w)
              else case AddModel E (publish_options a) w of
                None \<Rightarrow> None
              | Some (Inl e, w1) \<Rightarrow> Some (Some (PublishFailed e), w1)
              | Some (Inr m, w1) \<Rightarrow>
                  (case Validate (p_magnet E) (p_url E) (put_model idx m ms) of
                     Some e \<Rightarrow> Some (Some (CatalogInvalid e), w1)
                   | None \<Rightarrow> Some (SaveYAML yenc w1 (aCatalog a) (put_model idx m ms)))))"

section \<open>\<open>keygen\<close> and \<open>catalog\<close>\<close>

text \<open>\<open>keys\<close> is what \<open>GenerateKey\<close> gives: the public and the private key.\<close>

definition exists_at :: "world \<Rightarrow> path \<Rightarrow> bool" where
  "exists_at w p = (case Stat w p of Inr _ \<Rightarrow> True | Inl _ \<Rightarrow> False)"

definition runKeygen :: "(string \<times> string) option \<Rightarrow> path \<Rightarrow> path \<Rightarrow> world \<Rightarrow> cmd_error option \<times> world" where
  "runKeygen keys priv pub w =
     (if exists_at w priv then (Some (KeyExists priv), w)
      else if exists_at w pub then (Some (KeyExists pub), w)
      else case keys of
        None \<Rightarrow> (Some NoKeyMade, w)
      | Some (pk, sk) \<Rightarrow>
          (case MkdirAll w (butlast priv) of
             (Some e, w1) \<Rightarrow> (Some (MkdirFailed e), w1)
           | (None, w1) \<Rightarrow>
               (case MkdirAll w1 (butlast pub) of
                  (Some e, w2) \<Rightarrow> (Some (MkdirFailed e), w2)
                | (None, w2) \<Rightarrow>
                    (case WriteFile w2 priv (sk @ [CHR 0x0A]) of
                       (Some e, w3) \<Rightarrow> (Some (WriteFailed e), w3)
                     | (None, w3) \<Rightarrow>
                         (case WriteFile w3 pub (pk @ [CHR 0x0A]) of
                            (Some e, w4) \<Rightarrow> (Some (WriteFailed e), w4)
                          | (None, w4) \<Rightarrow> (None, w4))))))"

definition write_out :: "world \<Rightarrow> path \<Rightarrow> bytes \<Rightarrow> cmd_error option \<times> world" where
  "write_out w p data =
     (case WriteFile w p data of (Some e, w') \<Rightarrow> (Some (WriteFailed e), w') | (None, w') \<Rightarrow> (None, w'))"

definition catalog_build :: "(bytes \<Rightarrow> Model list option) \<Rightarrow> (Catalog \<Rightarrow> bytes option) \<Rightarrow> lib \<Rightarrow> time \<Rightarrow> path \<Rightarrow> path \<Rightarrow> world
    \<Rightarrow> cmd_error option \<times> world" where
  "catalog_build ydec enc L now src out w =
     (case LoadYAML ydec w src of
        Inl e \<Rightarrow> (Some e, w)
      | Inr ms \<Rightarrow>
          (case Build (magnet_uri L) (url_parse L) enc ms now of
             Inl e \<Rightarrow> (Some (BuildFailed e), w)
           | Inr data \<Rightarrow>
               (case MkdirAll w (butlast out) of
                  (Some e, w1) \<Rightarrow> (Some (MkdirFailed e), w1)
                | (None, w1) \<Rightarrow> write_out w1 out data)))"

definition catalog_sign :: "lib \<Rightarrow> path \<Rightarrow> path \<Rightarrow> world \<Rightarrow> cmd_error option \<times> world" where
  "catalog_sign L key src w =
     (case ReadFile w key of
        Inl e \<Rightarrow> (Some (ReadFailed key e), w)
      | Inr sk \<Rightarrow>
          (case ReadFile w src of
             Inl e \<Rightarrow> (Some (ReadFailed src e), w)
           | Inr data \<Rightarrow>
               (case Sign L sk data of
                  Inl e \<Rightarrow> (Some (SignFailed e), w)
                | Inr sig \<Rightarrow> write_out w (suffixed src ''.sig'') sig)))"

definition catalog_verify :: "lib \<Rightarrow> string \<Rightarrow> path \<Rightarrow> world \<Rightarrow> cmd_error option" where
  "catalog_verify L pub src w =
     (case ReadFile w src of
        Inl e \<Rightarrow> Some (ReadFailed src e)
      | Inr data \<Rightarrow>
          (case ReadFile w (suffixed src ''.sig'') of
             Inl e \<Rightarrow> Some (ReadFailed (suffixed src ''.sig'') e)
           | Inr sig \<Rightarrow>
               (case Verify L pub data sig of
                  Some e \<Rightarrow> Some (VerifyFailed e)
                | None \<Rightarrow>
                    (case Parse (magnet_uri L) (url_parse L) (json_dec L) data of Inl e \<Rightarrow> Some (ParseFailed e) | Inr _ \<Rightarrow> None))))"

definition catalog_page :: "(pageData \<Rightarrow> bytes) \<Rightarrow> (int \<Rightarrow> int \<Rightarrow> string) \<Rightarrow> (time \<Rightarrow> string) \<Rightarrow> lib \<Rightarrow> string \<Rightarrow> path \<Rightarrow> path \<Rightarrow> path \<Rightarrow> string
    \<Rightarrow> world \<Rightarrow> cmd_error option \<times> world" where
  "catalog_page template fmt1 ftime L defkey src out pubkeyFile repoURL w =
     (case ReadFile w src of
        Inl e \<Rightarrow> (Some (ReadFailed src e), w)
      | Inr data \<Rightarrow>
          (case Parse (magnet_uri L) (url_parse L) (json_dec L) data of
             Inl e \<Rightarrow> (Some (ParseFailed e), w)
           | Inr c \<Rightarrow>
               (let key = (if defkey = '''' then (case ReadFile w pubkeyFile of Inr pk \<Rightarrow> TrimSpace pk | Inl _ \<Rightarrow> '''') else '''')
                in case MkdirAll w (butlast out) of
                     (Some e, w1) \<Rightarrow> (Some (MkdirFailed e), w1)
                   | (None, w1) \<Rightarrow>
                       write_out w1 out (Render template fmt1 ftime (url_parse L) defkey (Some c)
                         \<lparr>sPubKey = key, sTrackers = [], sRepoURL = repoURL\<rparr>))))"


section \<open>Lemmas: files written and read\<close>

lemma WriteFile_real:
  assumes "WriteFile w p data = (None, w')" "real_path w p" "\<forall>i t. entry w p \<noteq> Some (Sym i t)"
  shows "faults w' = faults w" "\<exists>i t. entry w' q = (if q = p then Some (Reg i data t) else entry w q)"
proof -
  have r: "resolve w p True = Inr p" by (rule resolve_real_follow [OF assms(2,3)])
  have "p \<noteq> []" using assms(1) r by (auto simp: WriteFile_def split: option.splits)
  then have "faults w' = faults w \<and> (\<exists>i t. entry w' q = (if q = p then Some (Reg i data t) else entry w q))" for q
    using assms(1) r by (auto simp: WriteFile_def split: option.splits fnode.splits)
  then show "faults w' = faults w" "\<exists>i t. entry w' q = (if q = p then Some (Reg i data t) else entry w q)" by blast+
qed

lemma WriteFile_failed: "WriteFile w p data = (Some e, w') \<Longrightarrow> w' = w"
  by (auto simp: WriteFile_def split: option.splits sum.splits fnode.splits)

lemma ReadFile_real:
  assumes "real_path w p" "entry w p = Some (Reg i c t)" "fault w (SReadFile p) = None"
  shows "ReadFile w p = Inr c"
  using assms resolve_real_follow [OF assms(1)] by (simp add: ReadFile_def look_def)

lemma real_path_same_dirs:
  assumes "real_path w p" "\<And>q i. entry w q = Some (Dir i) \<Longrightarrow> entry w' q = Some (Dir i)"
  shows "real_path w' p"
  using assms unfolding real_path_def by blast

lemma suffixed_real:
  assumes "real_path w p" "p \<noteq> []" "CHR ''/'' \<notin> set s" "length s \<ge> 3"
  shows "real_path w (suffixed p s)" "suffixed p s \<noteq> p" "\<not> prefix p (suffixed p s)" "\<not> prefix (suffixed p s) p" "suffixed p s \<noteq> []"
proof -
  obtain d b where p: "p = d @ [b]" using assms(2) by (metis append_butlast_last_id)
  have "real_path w d" using assms(1) p real_path_append by blast
  moreover have "\<exists>i. entry w d = Some (Dir i)" using assms(1) by (auto simp: p real_path_def strict_prefix_def)
  moreover have "clean_path [b @ s]" using assms(4) by (auto simp: clean_path_def dest!: arg_cong [of "b @ s" _ length])
  moreover have "CHR ''/'' \<notin> set (b @ s)" using assms(1,3) by (simp add: p real_path_def)
  ultimately show "real_path w (suffixed p s)" by (auto simp: p suffixed_def intro!: real_path_child)
  have "s \<noteq> []" using assms(4) by auto
  then show "suffixed p s \<noteq> p" "\<not> prefix p (suffixed p s)" "\<not> prefix (suffixed p s) p" "suffixed p s \<noteq> []"
    by (auto simp: p suffixed_def)
qed

lemma MkdirAll_there:
  assumes "real_path w p" "p \<noteq> []" "fault w (SMkdirAll (butlast p)) = None"
  shows "MkdirAll w (butlast p) = (None, w)"
proof -
  have step: "mkdir_step (None, w) (take n (butlast p)) = (None, w)" if "n \<le> length (butlast p)" for n
  proof -
    have t: "take n (butlast p) = take n p" using that by (simp add: butlast_conv_take min_absorb1)
    have "strict_prefix (take n p) p" using that assms(2) prefix_take by (metis diff_less length_butlast length_greater_0_conv less_numeral_extra(1) order_le_less_trans)
    then obtain i where i: "entry w (take n p) = Some (Dir i)" using assms(1) by (auto simp: real_path_def)
    have "real_path w (take n p)" using assms(1) real_path_append [of w "take n p" "drop n p"] by simp
    then show ?thesis using i t resolve_real_follow [of w "take n p"] by (simp add: mkdir_step_def look_def)
  qed
  have "foldl mkdir_step (None, w) (map (\<lambda>n. take n (butlast p)) ns) = (None, w)" if "\<forall>n\<in>set ns. n \<le> length (butlast p)" for ns
    using that by (induction ns) (auto simp: step)
  then have "foldl mkdir_step (None, w) (map (\<lambda>n. take n (butlast p)) [1..<Suc (length (butlast p))]) = (None, w)"
    by (metis atLeastLessThan_iff less_Suc_eq_le set_upt)
  then show ?thesis by (simp only: MkdirAll_def assms(3) option.case)
qed

text \<open>A file that was written reads back, and nothing else has changed.\<close>

lemma written_back:
  assumes "WriteFile w p data = (None, w')" "real_path w p" "\<forall>i t. entry w p \<noteq> Some (Sym i t)"
  shows "fault w' c = fault w c" "q \<noteq> p \<Longrightarrow> entry w' q = entry w q" "real_path w q \<Longrightarrow> real_path w' q"
    "fault w (SReadFile p) = None \<Longrightarrow> ReadFile w' p = Inr data"
proof -
  note e = WriteFile_real [OF assms]
  show f: "fault w' c = fault w c" for c using e(1) by (simp add: fault_def)
  show "q \<noteq> p \<Longrightarrow> entry w' q = entry w q" using e(2) [of q] by auto
  have "entry w p \<noteq> Some (Dir i)" for i
    using assms(1) resolve_real_follow [OF assms(2,3)] by (auto simp: WriteFile_def split: option.splits)
  then have "entry w' q = Some (Dir i)" if "entry w q = Some (Dir i)" for q i using e(2) [of q] that by (auto split: if_splits)
  then show r: "real_path w q \<Longrightarrow> real_path w' q" for q using real_path_same_dirs by blast
  obtain i t where "entry w' p = Some (Reg i data t)" using e(2) [of p] by auto
  then show "fault w (SReadFile p) = None \<Longrightarrow> ReadFile w' p = Inr data" using ReadFile_real r [OF assms(2)] f by simp
qed


section \<open>Property: a signed catalog verifies\<close>

text \<open>What signing relies on: the two keys decode to a pair whose signatures verify, and base64 decodes what it
  encodes, with the newline that the signature file ends in.\<close>

definition key_pair :: "lib \<Rightarrow> string \<Rightarrow> string \<Rightarrow> bool" where
  "key_pair L pub sk \<longleftrightarrow> TrimSpace pub \<noteq> '''' \<and> (\<forall>b. b64dec L (TrimSpace (b64enc L b @ [CHR 0x0A])) = Some b)
     \<and> (\<exists>p k. b64dec L (TrimSpace pub) = Some p \<and> length p = PublicKeySize \<and> b64dec L (TrimSpace sk) = Some k
          \<and> (\<forall>d. ed_verify L p d (ed_sign L k d)))"

lemma Sign_Verify: "key_pair L pub sk \<Longrightarrow> Sign L sk data = Inr sig \<Longrightarrow> Verify L pub data sig = None"
  by (auto simp: key_pair_def Sign_def Verify_def split: if_splits)

lemma Build_Parse:
  assumes "\<And>c d. enc c = Some d \<Longrightarrow> dec (d @ [CHR 0x0A]) = Some c" "Build pm up enc ms now = Inr data"
  shows "Parse pm up dec data = Inr \<lparr>Version = catalogVersion ms, Generated = now, Models = ms\<rparr>"
proof -
  from assms(2) obtain d where "wf_models pm up ms" "enc \<lparr>Version = catalogVersion ms, Generated = now, Models = ms\<rparr> = Some d" "data = d @ [CHR 0x0A]"
    by (auto simp: Build_def Validate_wf [symmetric] split: option.splits)
  then show ?thesis using assms(1) catalogVersion_cases [of ms] by (auto simp: Parse_Inr)
qed

lemma write_out_ok: "write_out w p data = (None, w') \<Longrightarrow> WriteFile w p data = (None, w')"
  by (auto simp: write_out_def split: prod.splits option.splits)

lemma catalog_build_ok:
  assumes "catalog_build ydec enc L now src out w = (None, w1)" "real_path w out" "out \<noteq> []" "\<And>c. fault w c = None"
  obtains ms data where "Build (magnet_uri L) (url_parse L) enc ms now = Inr data" "WriteFile w out data = (None, w1)"
  using assms MkdirAll_there [OF assms(2,3)] by (auto simp: catalog_build_def dest: write_out_ok split: sum.splits)

lemma catalog_sign_ok:
  assumes "catalog_sign L key src w = (None, w')"
  obtains sk data sig where "ReadFile w key = Inr sk" "ReadFile w src = Inr data" "Sign L sk data = Inr sig"
    "WriteFile w (suffixed src ''.sig'') sig = (None, w')"
  using assms by (auto simp: catalog_sign_def dest: write_out_ok split: sum.splits)

text \<open>C15. What \<open>catalog build\<close> writes and \<open>catalog sign\<close> signs, \<open>catalog verify\<close> accepts: on a file system where
  no call fails, with a JSON codec that decodes what it encodes and a public key that belongs to the private key that was
  read, an output directory that exists and is reached through no symbolic link, and neither the catalog nor its signature file being a symbolic link.\<close>

theorem signed_catalog_verifies:
  assumes json: "\<And>c d. enc c = Some d \<Longrightarrow> json_dec L (d @ [CHR 0x0A]) = Some c"
    and quiet: "\<And>c. fault w c = None" and out: "real_path w out" "out \<noteq> []"
    and links: "\<forall>i t. entry w out \<noteq> Some (Sym i t)" "\<forall>i t. entry w (suffixed out ''.sig'') \<noteq> Some (Sym i t)"
    and build: "catalog_build ydec enc L now src out w = (None, w1)"
    and sign: "catalog_sign L key out w1 = (None, w2)" and pair: "\<And>sk. ReadFile w1 key = Inr sk \<Longrightarrow> key_pair L pub sk"
  shows "catalog_verify L pub out w2 = None"
proof -
  let ?s = "suffixed out ''.sig''"
  have sl: "CHR ''/'' \<notin> set ''.sig''" "3 \<le> length ''.sig''" by simp_all
  note sfx = suffixed_real [OF out sl]
  obtain ms data where b: "Build (magnet_uri L) (url_parse L) enc ms now = Inr data" "WriteFile w out data = (None, w1)"
    using catalog_build_ok [OF build out quiet] .
  note e1 = written_back [OF b(2) out(1) links(1)]
  obtain sk d sig where s: "ReadFile w1 key = Inr sk" "ReadFile w1 out = Inr d" "Sign L sk d = Inr sig" "WriteFile w1 ?s sig = (None, w2)"
    using catalog_sign_ok [OF sign] .
  have d: "d = data" using s(2) e1(4) [OF quiet] by simp
  have l1: "\<forall>i t. entry w1 ?s \<noteq> Some (Sym i t)" using e1(2) [OF sfx(2)] links(2) by simp
  note e2 = written_back [OF s(4) e1(3) [OF sfx(1)] l1]
  obtain i t where o1: "entry w1 out = Some (Reg i data t)" using WriteFile_real(2) [OF b(2) out(1) links(1), of out] by auto
  have "ReadFile w2 out = Inr data"
    using o1 e2(2) [OF sfx(2) [symmetric]] by (intro ReadFile_real [OF e2(3) [OF e1(3) [OF out(1)]]]) (simp_all add: e2(1) e1(1) quiet)
  moreover have "ReadFile w2 ?s = Inr sig" using e2(4) by (simp add: e1(1) quiet)
  ultimately show ?thesis
    using Sign_Verify [OF pair [OF s(1)] s(3)] Build_Parse [where enc = enc and dec = "json_dec L", OF json b(1)] d
    by (simp add: catalog_verify_def)
qed

section \<open>Property: the source that is saved is the source that is loaded\<close>

lemma Rename_faults: "Rename w p q = (r, w') \<Longrightarrow> faults w' = faults w"
  by (auto simp: Rename_def rename2_def Let_def split: option.splits sum.splits if_splits)

lemma saved_reads:
  assumes w: "wf_world w" "real_path w p" "p \<noteq> []" and tmp: "\<forall>i t. entry w (suffixed p ''.tmp'') \<noteq> Some (Sym i t)"
    and wr: "WriteFile w (suffixed p ''.tmp'') data = (None, w1)" and rn: "Rename w1 (suffixed p ''.tmp'') p = (None, w2)"
    and rd: "fault w (SReadFile p) = None"
  shows "ReadFile w2 p = Inr data"
proof -
  let ?t = "suffixed p ''.tmp''"
  have sl: "CHR ''/'' \<notin> set ''.tmp''" "3 \<le> length ''.tmp''" by simp_all
  note sfx = suffixed_real [OF w(2,3) sl]
  note e1 = written_back [OF wr sfx(1) tmp]
  note rp = e1(3) [OF sfx(1)] e1(3) [OF w(2)]
  obtain i t where t1: "entry w1 ?t = Some (Reg i data t)" using WriteFile_real(2) [OF wr sfx(1) tmp, of ?t] by auto
  have nd: "entry w p \<noteq> Some (Dir k)" for k
    using Rename_blocked [OF rp t1, of k] e1(2) [OF sfx(2) [symmetric]] rn by auto
  have ntd: "entry w ?t \<noteq> Some (Dir k)" for k
    using wr resolve_real_follow [OF sfx(1) tmp] by (auto simp: WriteFile_def split: option.splits)
  have below: "entry w1 q = None" if "strict_prefix p q" for q
    using wf_nothing_below [OF w(1) nd that] that sfx(3) e1(2) [of q] by (metis strict_prefix_def)
  have below': "entry w1 q = None" if "strict_prefix ?t q" for q
    using wf_nothing_below [OF w(1) ntd that] that e1(2) [of q] by (metis strict_prefix_def)
  note mv = Rename_over [OF rn rp t1 sfx(5,4,3) below' below]
  have "entry w2 q = entry w1 q" if "strict_prefix q p" for q
    using mv [of q] that sfx(4) by (auto simp: strict_prefix_def)
  then have "real_path w2 p" using rp(2) unfolding real_path_def by metis
  moreover have "fault w2 (SReadFile p) = None" using rd e1(1) Rename_faults [OF rn] by (simp add: fault_def)
  ultimately show ?thesis using mv [of p] by (intro ReadFile_real) simp_all
qed

text \<open>Saving the catalog's source is atomic: when it succeeds, loading it gives the models that were saved, and when it
  fails the source is what it was; given a YAML codec that decodes what it encodes, and that the temporary name
  beside it is not a symbolic link.\<close>

theorem saved_source_loads:
  assumes yaml: "\<And>x d. yenc x = Some d \<Longrightarrow> ydec d = Some x" and w: "wf_world w" "real_path w p" "p \<noteq> []"
    and tmp: "\<forall>i t. entry w (suffixed p ''.tmp'') \<noteq> Some (Sym i t)" and rd: "fault w (SReadFile p) = None"
    and save: "SaveYAML yenc w p ms = (r, w')"
  shows "(r = None \<longrightarrow> LoadYAML ydec w' p = Inr ms) \<and> (r \<noteq> None \<longrightarrow> entry w' p = entry w p)"
proof -
  have sl: "CHR ''/'' \<notin> set ''.tmp''" "3 \<le> length ''.tmp''" by simp_all
  note sfx = suffixed_real [OF w(2,3) sl]
  consider (early) "r \<noteq> None" "w' = w"
    | (late) data w1 where "yenc ms = Some data" "WriteFile w (suffixed p ''.tmp'') data = (None, w1)"
        "(case Rename w1 (suffixed p ''.tmp'') p of (Some e, w2) \<Rightarrow> (Some (YamlWrite e), w2) | (None, w2) \<Rightarrow> (None, w2)) = (r, w')"
    using save by (auto simp: SaveYAML_def dest: WriteFile_failed split: option.splits prod.splits)
  then show ?thesis
  proof cases
    case (late data w1)
    obtain r2 w2 where rn: "Rename w1 (suffixed p ''.tmp'') p = (r2, w2)" by force
    show ?thesis
    proof (cases r2)
      case (Some e)
      then have "w' = w1" "r \<noteq> None" using late(3) rn Rename_failed [of w1 _ p e w2] by auto
      then show ?thesis using written_back(2) [OF late(2) sfx(1) tmp sfx(2) [symmetric]] by auto
    next
      case None
      then have "r = None" "ReadFile w' p = Inr data" using late(3) rn saved_reads [OF w tmp late(2) _ rd] by auto
      then show ?thesis using yaml [OF late(1)] by (simp add: LoadYAML_def)
    qed
  qed auto
qed

section \<open>Witnesses\<close>

definition demo_yworld :: world where
  "demo_yworld = \<lparr>files = [([''c''], Dir 1), ([''c'', ''cat''], Reg 2 ''old'' 0), ([''c'', ''key''], Reg 3 (replicate 64 (CHR ''k'')) 0)],
     faults = (\<lambda>_. None), next_ino = 4, clock = 0\<rparr>"

definition demo_yenc :: "Model list \<Rightarrow> bytes option" where
  "demo_yenc ms = (if ms = [] then Some ''[]'' else None)"

definition demo_ydec :: "bytes \<Rightarrow> Model list option" where
  "demo_ydec d = (if d = ''[]'' then Some [] else None)"

lemma demo_ywf: "wf_world demo_yworld"
  by code_simp

theorem saved_source_loads_witness:
  "\<exists>w'. SaveYAML demo_yenc demo_yworld [''c'', ''cat''] [] = (None, w') \<and> LoadYAML demo_ydec w' [''c'', ''cat''] = Inr []"
proof -
  obtain r w' where s: "SaveYAML demo_yenc demo_yworld [''c'', ''cat''] [] = (r, w')" by force
  have "fst (SaveYAML demo_yenc demo_yworld [''c'', ''cat''] []) = None" by code_simp
  then have r: "r = None" using s by simp
  have y: "\<And>x d. demo_yenc x = Some d \<Longrightarrow> demo_ydec d = Some x" by (auto simp: demo_yenc_def demo_ydec_def split: if_splits)
  have e: "entry demo_yworld [''c'', ''cat''] \<noteq> None" "\<forall>i t. entry demo_yworld (suffixed [''c'', ''cat''] ''.tmp'') \<noteq> Some (Sym i t)"
    "fault demo_yworld (SReadFile [''c'', ''cat'']) = None"
    by (simp_all add: entry_def demo_yworld_def suffixed_def fault_def)
  show ?thesis
    using saved_source_loads [OF y demo_ywf wf_entry(1) [OF demo_ywf e(1)] _ e(2,3) s] s r by simp
qed

text \<open>A text encoding of bytes without spaces, in place of base64.\<close>

definition uenc :: "bytes \<Rightarrow> string" where
  "uenc b = concat (map (\<lambda>c. replicate (of_char c) (CHR ''a'') @ ''b'') b)"

fun udec :: "nat \<Rightarrow> string \<Rightarrow> bytes option" where
  "udec n [] = (if n = 0 then Some [] else None)"
| "udec n (c # s) =
     (if c = CHR ''a'' then udec (Suc n) s
      else if c = CHR ''b'' then map_option (\<lambda>b. char_of n # b) (udec 0 s) else None)"

lemma udec_uenc: "udec 0 (uenc b) = Some b"
proof -
  have "udec n (replicate k (CHR ''a'') @ s) = udec (n + k) s" for n k s
    by (induction k arbitrary: n) auto
  then show ?thesis by (induction b) (auto simp: uenc_def)
qed

lemma uenc_trim: "TrimSpace (uenc b) = uenc b" "TrimSpace (uenc b @ [CHR 0x0A]) = uenc b"
proof -
  have "list_all plain_byte (uenc b)" by (auto simp: uenc_def list_all_iff plain_byte_def is_space_def split: if_splits)
  then show "TrimSpace (uenc b) = uenc b" "TrimSpace (uenc b @ [CHR 0x0A]) = uenc b" by (rule TrimSpace_plain TrimSpace_newline)+
qed

definition demo_slib :: lib where
  "demo_slib = demo_lib\<lparr>b64enc := uenc, b64dec := udec 0, json_dec := demo_dec\<rparr>"

definition demo_spub :: string where "demo_spub = uenc (replicate 32 (CHR 0x01))"

definition demo_ssk :: string where "demo_ssk = uenc (replicate 64 (CHR 0x01))"

definition demo_sworld :: world where
  "demo_sworld = \<lparr>files = [([''c''], Dir 1), ([''c'', ''cat''], Reg 2 ''y'' 0), ([''c'', ''key''], Reg 3 demo_ssk 0)],
     faults = (\<lambda>_. None), next_ino = 4, clock = 0\<rparr>"

lemma demo_pair: "key_pair demo_slib demo_spub demo_ssk"
  by (simp add: key_pair_def demo_slib_def demo_lib_def uenc_trim udec_uenc demo_spub_def demo_ssk_def PublicKeySize_def) (simp add: uenc_def)

lemma demo_swf: "wf_world demo_sworld"
  by code_simp

lemma demo_sfacts:
  "fault demo_sworld c = None" "real_path demo_sworld [''c'', ''cat'']" "real_path demo_sworld [''c'', ''key'']"
  "real_path demo_sworld [''c'', ''out'']" "real_path demo_sworld [''c'', ''out.sig'']"
  "entry demo_sworld [''c'', ''cat''] = Some (Reg 2 ''y'' 0)" "entry demo_sworld [''c'', ''key''] = Some (Reg 3 demo_ssk 0)"
  "entry demo_sworld [''c'', ''out''] = None" "entry demo_sworld [''c'', ''out.sig''] = None"
proof -
  have e: "entry demo_sworld [''c''] = Some (Dir 1)" by (simp add: demo_sworld_def entry_def)
  then have c: "real_path demo_sworld [''c'']" by (intro wf_entry(1) [OF demo_swf]) simp
  have ch: "real_path demo_sworld ([''c''] @ [x])" if "clean_path [x]" "CHR ''/'' \<notin> set x" for x
    using real_path_child [OF c e that] .
  show "real_path demo_sworld [''c'', ''cat'']" "real_path demo_sworld [''c'', ''key'']" "real_path demo_sworld [''c'', ''out'']"
    "real_path demo_sworld [''c'', ''out.sig'']"
    using ch [of "''cat''"] ch [of "''key''"] ch [of "''out''"] ch [of "''out.sig''"] by (simp_all add: clean_path_def)
qed (simp_all add: demo_sworld_def entry_def fault_def)

lemma WriteFile_fresh:
  assumes "real_path w p" "entry w p = None" "fault w (SWriteFile p) = None"
  shows "\<exists>w'. WriteFile w p data = (None, w')"
  using resolve_real_follow [OF assms(1)] assms(2,3) by (simp add: WriteFile_def)

lemma demo_build_cmd:
  obtains w1 where "catalog_build (\<lambda>_. Some (Models demo_catalog)) demo_enc demo_slib 5 [''c'', ''cat''] [''c'', ''out''] demo_sworld = (None, w1)"
    "WriteFile demo_sworld [''c'', ''out''] (''{}'' @ [CHR 0x0A]) = (None, w1)"
proof -
  obtain w1 where w: "WriteFile demo_sworld [''c'', ''out''] (''{}'' @ [CHR 0x0A]) = (None, w1)"
    using WriteFile_fresh [OF demo_sfacts(4,8,1)] by blast
  have "ReadFile demo_sworld [''c'', ''cat''] = Inr ''y''" by (rule ReadFile_real [OF demo_sfacts(2,6,1)])
  moreover have "MkdirAll demo_sworld [''c''] = (None, demo_sworld)" using MkdirAll_there [OF demo_sfacts(4) _ demo_sfacts(1)] by simp
  moreover have "magnet_uri demo_slib = demo_pm" "url_parse demo_slib = demo_up" by (simp_all add: demo_slib_def demo_lib_def)
  ultimately have "catalog_build (\<lambda>_. Some (Models demo_catalog)) demo_enc demo_slib 5 [''c'', ''cat''] [''c'', ''out''] demo_sworld = (None, w1)"
    using w demo_build by (simp add: catalog_build_def LoadYAML_def write_out_def)
  with w show ?thesis using that by blast
qed

theorem signed_catalog_verifies_witness:
  "\<exists>w1 w2. catalog_build (\<lambda>_. Some (Models demo_catalog)) demo_enc demo_slib 5 [''c'', ''cat''] [''c'', ''out''] demo_sworld = (None, w1)
     \<and> catalog_sign demo_slib [''c'', ''key''] [''c'', ''out''] w1 = (None, w2) \<and> catalog_verify demo_slib demo_spub [''c'', ''out''] w2 = None"
proof -
  obtain w1 where b: "catalog_build (\<lambda>_. Some (Models demo_catalog)) demo_enc demo_slib 5 [''c'', ''cat''] [''c'', ''out''] demo_sworld = (None, w1)"
    "WriteFile demo_sworld [''c'', ''out''] (''{}'' @ [CHR 0x0A]) = (None, w1)" using demo_build_cmd .
  have l: "\<forall>i t. entry demo_sworld [''c'', ''out''] \<noteq> Some (Sym i t)" by (simp add: demo_sfacts)
  note e1 = written_back [OF b(2) demo_sfacts(4) l]
  have k: "ReadFile w1 [''c'', ''key''] = Inr demo_ssk"
    using e1(2) [of "[''c'', ''key'']"] by (intro ReadFile_real [OF e1(3) [OF demo_sfacts(3)]]) (simp_all add: e1(1) demo_sfacts)
  have d: "ReadFile w1 [''c'', ''out''] = Inr (''{}'' @ [CHR 0x0A])" by (rule e1(4) [OF demo_sfacts(1)])
  obtain sig where s: "Sign demo_slib demo_ssk (''{}'' @ [CHR 0x0A]) = Inr sig"
    by (simp add: Sign_def demo_slib_def demo_ssk_def uenc_trim udec_uenc PrivateKeySize_def)
  obtain w2 where w2: "WriteFile w1 [''c'', ''out.sig''] sig = (None, w2)"
    using WriteFile_fresh [OF e1(3) [OF demo_sfacts(5)]] e1(2) [of "[''c'', ''out.sig'']"] by (auto simp: e1(1) demo_sfacts)
  have sg: "catalog_sign demo_slib [''c'', ''key''] [''c'', ''out''] w1 = (None, w2)"
    using k d s w2 by (simp add: catalog_sign_def suffixed_def write_out_def)
  have json: "\<And>c d. demo_enc c = Some d \<Longrightarrow> json_dec demo_slib (d @ [CHR 0x0A]) = Some c"
    by (auto simp: demo_enc_def demo_dec_def demo_slib_def split: if_splits)
  have "catalog_verify demo_slib demo_spub [''c'', ''out''] w2 = None"
    by (rule signed_catalog_verifies [OF json demo_sfacts(1,4) _ l _ b(1) sg]) (use k demo_pair in \<open>simp_all add: demo_sfacts suffixed_def\<close>)
  with b(1) sg show ?thesis by blast
qed


section \<open>A rejected model\<close>

text \<open>\<open>mktorrent\<close> for a model whose file another model of the catalog has already.\<close>

definition demo_margs :: mktorrent_args where
  "demo_margs = \<lparr>aCatalog = [''d'', ''a.gguf''], aTorrents = [''t''], aID = ''m'', aRepo = ''o/r'', aRev = demo_sha, aLicense = ''l'', aLicenseURL = '''',
     aLocal = [''d''], aReplace = False, aLayout = '''', aAll = False, aStoreAs = [], aFiles = [''a.gguf'']\<rparr>"

lemma demo_margs_options: "publish_options demo_margs = demo_popt"
  by (simp add: publish_options_def demo_margs_def demo_popt_def fun_eq_iff)

lemma demo_clash: "Validate (p_magnet demo_penv) (p_url demo_penv) [demo_pmodel\<lparr>ID := ''other''\<rparr>, demo_pmodel] \<noteq> None"
  by code_simp

text \<open>C39. A rejected model can leave its torrents behind: although \<open>AddModel\<close> writes nothing before the model validates, the command
  validates the model together with the catalog only afterwards. Adding a model whose file another model of the catalog already has fails with an
  invalid catalog, and the torrent that was not there before is in the directory of torrents.\<close>

theorem rejected_model_leaves_torrent:
  "\<exists>e w'. runMktorrent (\<lambda>_. None) (\<lambda>_. Some [demo_pmodel\<lparr>ID := ''other''\<rparr>]) demo_penv demo_margs demo_pworld = Some (Some (CatalogInvalid e), w')
     \<and> entry demo_pworld [''t'', demo_sha @ ''.torrent''] = None \<and> entry w' [''t'', demo_sha @ ''.torrent''] \<noteq> None"
proof -
  obtain w' where w': "AddModel demo_penv demo_popt demo_pworld = Some (Inr demo_pmodel, w')" "entry w' [''t'', demo_sha @ ''.torrent''] \<noteq> None"
    using demo_publish by blast
  have y: "LoadYAML (\<lambda>_. Some [demo_pmodel\<lparr>ID := ''other''\<rparr>]) demo_pworld [''d'', ''a.gguf''] = Inr [demo_pmodel\<lparr>ID := ''other''\<rparr>]"
    by (simp add: LoadYAML_def ReadFile_def fault_def look_def resolve_def demo_pworld_def entry_def)
  have i: "model_index ''m'' [demo_pmodel\<lparr>ID := ''other''\<rparr>] = None" by (simp add: model_index_def)
  obtain e where e: "Validate (p_magnet demo_penv) (p_url demo_penv) [demo_pmodel\<lparr>ID := ''other''\<rparr>, demo_pmodel] = Some e" using demo_clash by blast
  have a: "aID demo_margs = ''m''" "aCatalog demo_margs = [''d'', ''a.gguf'']" "aRepo demo_margs \<noteq> ''''" "aLicense demo_margs \<noteq> ''''"
    "aLayout demo_margs = ''''" "aFiles demo_margs \<noteq> []" "\<not> aAll demo_margs"
    by (simp_all add: demo_margs_def)
  have "runMktorrent (\<lambda>_. None) (\<lambda>_. Some [demo_pmodel\<lparr>ID := ''other''\<rparr>]) demo_penv demo_margs demo_pworld = Some (Some (CatalogInvalid e), w')"
    using a y i e w'(1) by (simp add: runMktorrent_def demo_margs_options put_model_def LayoutDir_def Let_def)
  moreover have "entry demo_pworld [''t'', demo_sha @ ''.torrent''] = None" by (simp add: entry_def demo_pworld_def)
  ultimately show ?thesis using w'(2) by blast
qed

end
