(* ===== verification/ApiClient.thy ===== *)
theory ApiClient
  imports Api
begin

text \<open>
  \<open>internal/api/client.go\<close> and \<open>cmd/viiwork-parrot/cmd_client.go\<close>: the client of the node's HTTP API and the
  command that shows or overrides the limits. The JSON codecs and the transport are parameters; \<open>over_http\<close> is the
  transport that delivers to the handler of \<open>Api\<close>.
\<close>

section \<open>The client\<close>

datatype client_error = EncodeError | Unreachable | DecodeError nat | HTTPError Method string nat

record wire =
  enc_ensure :: "string \<Rightarrow> bytes option"
  enc_override :: "OverrideRequest \<Rightarrow> bytes option"
  enc_body :: "response_body \<Rightarrow> bytes"
  dec_status :: "bytes \<Rightarrow> ModelStatus list option"
  dec_answer :: "bytes \<Rightarrow> (string \<times> string \<times> ModelStatus option) option"
  dec_limits :: "bytes \<Rightarrow> LimitsStatus option"

type_synonym 's transport = "Request \<Rightarrow> 's \<Rightarrow> (nat \<times> bytes) option \<times> 's"

definition MaxAnswer :: nat where
  "MaxAnswer = 16 * 2 ^ 20"

definition client_request :: "string \<Rightarrow> Method \<Rightarrow> string \<Rightarrow> bytes option \<Rightarrow> Request" where
  "client_request base m p b =
     \<lparr>qMethod = m, qHost = base, qPath = p, qMedia = (if m \<noteq> GET then Some ''application/json'' else None),
      qBody = (case b of None \<Rightarrow> '''' | Some x \<Rightarrow> x)\<rparr>"

text \<open>\<open>do\<close>: the status, and what was decoded, if the caller wants it and the answer looks like JSON. A status from
  400 on is an error, unless the request was a \<open>POST\<close>.\<close>

definition client_do :: "'s transport \<Rightarrow> string \<Rightarrow> (bytes \<Rightarrow> 'a option) option \<Rightarrow> Method \<Rightarrow> string \<Rightarrow> bytes option \<Rightarrow> 's
    \<Rightarrow> (client_error + nat \<times> 'a option) \<times> 's" where
  "client_do send base dec m p b s =
     (case send (client_request base m p b) s of
        (None, s') \<Rightarrow> (Inl Unreachable, s')
      | (Some (code, data), s') \<Rightarrow>
          (let trimmed = TrimSpace (take MaxAnswer data);
               ending = (\<lambda>out. if 400 \<le> code \<and> m \<noteq> POST then Inl (HTTPError m p code) else Inr (code, out))
           in case dec of
                Some d \<Rightarrow>
                  if HasPrefix trimmed ''{'' \<or> HasPrefix trimmed ''[''
                  then (case d trimmed of None \<Rightarrow> (Inl (DecodeError code), s') | Some x \<Rightarrow> (ending (Some x), s'))
                  else (ending None, s')
              | None \<Rightarrow> (ending None, s')))"

definition client_Status :: "'s transport \<Rightarrow> wire \<Rightarrow> string \<Rightarrow> 's \<Rightarrow> (client_error + nat \<times> ModelStatus list option) \<times> 's" where
  "client_Status send C base s = client_do send base (Some (dec_status C)) GET ''/status'' None s"

definition client_Ensure :: "'s transport \<Rightarrow> wire \<Rightarrow> string \<Rightarrow> string \<Rightarrow> 's
    \<Rightarrow> (client_error + nat \<times> (string \<times> string \<times> ModelStatus option) option) \<times> 's" where
  "client_Ensure send C base i s =
     (case enc_ensure C i of
        None \<Rightarrow> (Inl EncodeError, s)
      | Some b \<Rightarrow> client_do send base (Some (dec_answer C)) POST ''/ensure'' (Some b) s)"

definition client_Limits :: "'s transport \<Rightarrow> wire \<Rightarrow> string \<Rightarrow> 's \<Rightarrow> (client_error + nat \<times> LimitsStatus option) \<times> 's" where
  "client_Limits send C base s = client_do send base (Some (dec_limits C)) GET ''/limits'' None s"

definition client_SetOverride :: "'s transport \<Rightarrow> wire \<Rightarrow> string \<Rightarrow> OverrideRequest \<Rightarrow> 's \<Rightarrow> (client_error + nat \<times> unit option) \<times> 's" where
  "client_SetOverride send C base q s =
     (case enc_override C q of
        None \<Rightarrow> (Inl EncodeError, s)
      | Some b \<Rightarrow> client_do send base None PUT ''/limits/override'' (Some b) s)"

definition client_ClearOverride :: "'s transport \<Rightarrow> string \<Rightarrow> 's \<Rightarrow> (client_error + nat \<times> unit option) \<times> 's" where
  "client_ClearOverride send base s = client_do send base None DELETE ''/limits/override'' None s"

section \<open>The \<open>limit\<close> command\<close>

text \<open>The flags: an empty rate and a negative number mean that a flag was not given. The limits that the command
  prints are its result.\<close>

definition override_of :: "string \<Rightarrow> string \<Rightarrow> int \<Rightarrow> OverrideRequest" where
  "override_of ul dn conns =
     \<lparr>reqUpload = (if ul \<noteq> '''' then Some ul else None), reqDownload = (if dn \<noteq> '''' then Some dn else None),
      reqMaxConns = (if conns \<ge> 0 then Some conns else None)\<rparr>"

definition runLimit :: "'s transport \<Rightarrow> wire \<Rightarrow> string \<Rightarrow> string \<Rightarrow> string \<Rightarrow> int \<Rightarrow> bool \<Rightarrow> 's \<Rightarrow> (client_error + LimitsStatus option) \<times> 's" where
  "runLimit send C base ul dn conns drop_it s =
     (let (r, s1) = (if drop_it then client_ClearOverride send base s
                     else if ul \<noteq> '''' \<or> dn \<noteq> '''' \<or> conns \<ge> 0 then client_SetOverride send C base (override_of ul dn conns) s
                     else (Inr (0, None), s))
      in case r of
           Inl e \<Rightarrow> (Inl e, s1)
         | Inr _ \<Rightarrow>
             (case client_Limits send C base s1 of
                (Inl e, s2) \<Rightarrow> (Inl e, s2)
              | (Inr (_, ls), s2) \<Rightarrow> (Inr ls, s2)))"

text \<open>A measured rate, where zero means idle and not unlimited.\<close>

definition formatObservedRate :: "(nat \<Rightarrow> rat \<Rightarrow> string) \<Rightarrow> int \<Rightarrow> string" where
  "formatObservedRate pr bps = (if bps \<le> 0 then ''0'' else FormatRate pr bps)"

section \<open>The client and the server\<close>

definition over_http :: "apienv \<Rightarrow> 's Backend \<Rightarrow> wire \<Rightarrow> 's transport" where
  "over_http A B C r s = (case Handler A B r s of ((code, b), s') \<Rightarrow> (Some (code, enc_body C b), s'))"

text \<open>What the two sides rely on: the node decodes what the client encodes, within the bound on requests, and the
  client what the node encodes, a JSON object within the bound on answers.\<close>

definition sent_ensure :: "apienv \<Rightarrow> wire \<Rightarrow> string \<Rightarrow> bytes \<Rightarrow> bool" where
  "sent_ensure A C i b \<longleftrightarrow> enc_ensure C i = Some b \<and> length b \<le> MaxBytes \<and> dec_ensure A b = Some i"

definition sent_override :: "apienv \<Rightarrow> wire \<Rightarrow> OverrideRequest \<Rightarrow> bytes \<Rightarrow> bool" where
  "sent_override A C q b \<longleftrightarrow> enc_override C q = Some b \<and> length b \<le> MaxBytes \<and> dec_override A b = Some q"

definition readable :: "wire \<Rightarrow> response_body \<Rightarrow> (bytes \<Rightarrow> 'a option) \<Rightarrow> 'a \<Rightarrow> bool" where
  "readable C b dec x \<longleftrightarrow> length (enc_body C b) \<le> MaxAnswer \<and> HasPrefix (TrimSpace (enc_body C b)) ''{'' \<and> dec (TrimSpace (enc_body C b)) = Some x"

lemma client_do_Handler:
  assumes "Handler A B (client_request base m p b) s = ((code, body), s')"
  shows "client_do (over_http A B C) base None m p b s = (if 400 \<le> code \<and> m \<noteq> POST then Inl (HTTPError m p code) else Inr (code, None), s')"
    "readable C body dec x \<Longrightarrow>
       client_do (over_http A B C) base (Some dec) m p b s = (if 400 \<le> code \<and> m \<noteq> POST then Inl (HTTPError m p code) else Inr (code, Some x), s')"
  using assms by (simp_all add: client_do_def over_http_def Let_def readable_def)

lemma Handler_client:
  assumes "loopbackHost (parse_addr A) base"
  shows "Handler A B (client_request base m p b) s = mux A B (client_request base m p b) s"
  using assms by (auto simp: Handler_def guard_def client_request_def)

text \<open>C29. A client on the node's own host gets through to the node: with a loopback address its \<open>Ensure\<close> is the
  node's \<open>Ensure\<close>, answer and effect, whatever the outcome, none of its requests being turned away for its host
  or its content type.\<close>

theorem client_ensure_is_node_ensure:
  assumes "sent_ensure A C i b" "loopbackHost (parse_addr A) base" "i \<noteq> ''''"
    "bEnsure B s i = (res, s')" "ensure_response res = (code, EnsureBody p e st)" "readable C (EnsureBody p e st) (dec_answer C) (p, e, st)"
  shows "client_Ensure (over_http A B C) C base i s = (Inr (code, Some (p, e, st)), s')"
proof -
  have h: "Handler A B (client_request base POST ''/ensure'' (Some b)) s = ((code, EnsureBody p e st), s')"
    using assms(1,3-5) unfolding Handler_client [OF assms(2)] by (simp add: mux_def client_request_def sent_ensure_def)
  show ?thesis using client_do_Handler(2) [OF h assms(6)] assms(1) by (simp add: client_Ensure_def sent_ensure_def)
qed

text \<open>The \<open>limit\<close> command does what its flags say: the override that the node gets is the one given, as far as
  its rates parse and its number is not negative, and the limits that are printed are those under it; a rate that does not parse changes
  nothing and is reported; clearing drops the override.\<close>

theorem limit_command_exact:
  assumes "sent_override A C (override_of ul dn conns) b" "loopbackHost (parse_addr A) base" "ul \<noteq> '''' \<or> dn \<noteq> '''' \<or> conns \<ge> 0"
    "\<And>s'. readable C (LimitsBody (bLimits B s')) (dec_limits C) (bLimits B s')"
  shows "runLimit (over_http A B C) C base ul dn conns False s =
      (case partial_of (abeyond A) (override_of ul dn conns) of
         Inl _ \<Rightarrow> (Inl (HTTPError PUT ''/limits/override'' 400), s)
       | Inr p \<Rightarrow> (Inr (Some (bLimits B (bSetOverride B p s))), bSetOverride B p s))
    \<and> runLimit (over_http A B C) C base ul dn conns True s = (Inr (Some (bLimits B (bClearOverride B s))), bClearOverride B s)"
proof -
  have lim: "client_Limits (over_http A B C) C base s' = (Inr (200, Some (bLimits B s')), s')" for s'
  proof -
    have h: "Handler A B (client_request base GET ''/limits'' None) s' = ((200, LimitsBody (bLimits B s')), s')"
      unfolding Handler_client [OF assms(2)] by (simp add: mux_def client_request_def)
    show ?thesis using client_do_Handler(2) [OF h assms(4)] by (simp add: client_Limits_def)
  qed
  have hd: "Handler A B (client_request base DELETE ''/limits/override'' None) s = ((204, NoBody), bClearOverride B s)"
    unfolding Handler_client [OF assms(2)] by (simp add: mux_def client_request_def)
  have clr: "client_ClearOverride (over_http A B C) base s = (Inr (204, None), bClearOverride B s)"
    using client_do_Handler(1) [OF hd, of C] by (simp add: client_ClearOverride_def)
  have "Handler A B (client_request base PUT ''/limits/override'' (Some b)) s =
      (case partial_of (abeyond A) (override_of ul dn conns) of Inl e \<Rightarrow> ((400, Message ''bad request''), s) | Inr p \<Rightarrow> ((204, NoBody), bSetOverride B p s))"
    using assms(1) unfolding Handler_client [OF assms(2)] by (simp add: mux_def client_request_def sent_override_def)
  then have st: "client_SetOverride (over_http A B C) C base (override_of ul dn conns) s =
      (case partial_of (abeyond A) (override_of ul dn conns) of
         Inl e \<Rightarrow> (Inl (HTTPError PUT ''/limits/override'' 400), s) | Inr p \<Rightarrow> (Inr (204, None), bSetOverride B p s))"
    using client_do_Handler(1) [of A B base PUT "''/limits/override''" "Some b" s _ _ _ C] assms(1)
    by (auto simp: client_SetOverride_def sent_override_def split: sum.splits)
  show ?thesis using assms(3) by (auto simp: runLimit_def clr st lim split: sum.splits)
qed

section \<open>Witnesses\<close>

text \<open>A node whose state is the current override, with an unknown model, and a codec that knows the messages of the
  two exchanges.\<close>

definition demo_limits_of :: "Partial option \<Rightarrow> LimitsStatus" where
  "demo_limits_of s = \<lparr>lsEffective = \<lparr>Upload = 0, Download = 0, MaxConns = 0, MaxConnsPerTorrent = 0, MaxHalfOpen = 0, MaxActiveUploads = 0\<rparr>, lsRule = - 1, lsOverride = None\<rparr>"

definition demo_cbackend :: "Partial option Backend" where
  "demo_cbackend = \<lparr>bStatus = (\<lambda>_. []), bEnsure = (\<lambda>s _. ((Some ErrUnknownModel, None), s)), bLimits = demo_limits_of,
     bSetOverride = (\<lambda>p _. Some p), bClearOverride = (\<lambda>_. None)\<rparr>"

definition demo_wire :: wire where
  "demo_wire = \<lparr>enc_ensure = Some, enc_override = (\<lambda>_. Some ''q''), enc_body = (\<lambda>_. ''{}''), dec_status = (\<lambda>_. Some []),
     dec_answer = (\<lambda>_. Some ('''', show_err ErrUnknownModel, None)), dec_limits = (\<lambda>_. Some (demo_limits_of None))\<rparr>"

definition demo_capi :: apienv where
  "demo_capi = demo_api\<lparr>dec_override := (\<lambda>_. Some (override_of '''' '''' 5))\<rparr>"

lemma demo_loopback: "loopbackHost (parse_addr demo_capi) ''localhost:7950''"
  by code_simp

lemma demo_readable:
  "readable demo_wire b (dec_answer demo_wire) ('''', show_err ErrUnknownModel, None)"
  "readable demo_wire (LimitsBody (bLimits demo_cbackend s)) (dec_limits demo_wire) (bLimits demo_cbackend s)"
proof -
  have "TrimSpace ''{}'' = ''{}''" by code_simp
  then show "readable demo_wire b (dec_answer demo_wire) ('''', show_err ErrUnknownModel, None)"
    "readable demo_wire (LimitsBody (bLimits demo_cbackend s)) (dec_limits demo_wire) (bLimits demo_cbackend s)"
    by (simp_all add: readable_def demo_wire_def MaxAnswer_def HasPrefix_def demo_cbackend_def demo_limits_of_def)
qed

theorem client_ensure_is_node_ensure_witness:
  "client_Ensure (over_http demo_capi demo_cbackend demo_wire) demo_wire ''localhost:7950'' ''m'' None = (Inr (404, Some ('''', show_err ErrUnknownModel, None)), None)"
proof (rule client_ensure_is_node_ensure [OF _ demo_loopback _ _ _ demo_readable(1)])
  show "sent_ensure demo_capi demo_wire ''m'' ''m''"
    by (simp add: sent_ensure_def demo_wire_def MaxBytes_def demo_capi_def demo_api_def)
  show "ensure_response (Some ErrUnknownModel, None) = (404, EnsureBody '''' (show_err ErrUnknownModel) None)" by code_simp
qed (simp_all add: demo_cbackend_def)

theorem limit_command_exact_witness:
  "snd (runLimit (over_http demo_capi demo_cbackend demo_wire) demo_wire ''localhost:7950'' '''' '''' 5 False None) =
     Some \<lparr>pUpload = None, pDownload = None, pMaxConns = Some 5, pMaxConnsPerTorrent = None, pMaxActiveUploads = None\<rparr>"
proof -
  have s: "sent_override demo_capi demo_wire (override_of '''' '''' 5) ''q''"
    by (simp add: sent_override_def demo_wire_def MaxBytes_def demo_capi_def)
  have p: "partial_of (abeyond demo_capi) (override_of '''' '''' 5) =
      Inr \<lparr>pUpload = None, pDownload = None, pMaxConns = Some 5, pMaxConnsPerTorrent = None, pMaxActiveUploads = None\<rparr>"
    by (simp add: partial_of_def override_of_def)
  show ?thesis using limit_command_exact [OF s demo_loopback _ demo_readable(2), of None] p by (simp add: demo_cbackend_def)
qed

end
