(* ===== verification/Swarm.thy ===== *)
theory Swarm
  imports Config DirJob
begin

text \<open>
  \<open>internal/node/swarm.go\<close>: making the torrent client with its throttled TCP listener and its piece-completion
  database, with the retries when the port is taken, closing them, and where the torrents' files are stored. The torrent
  library, the database and the sockets are parameters: the outcome of the \<open>k\<close>-th attempt at a client and at a
  listener. \<open>fileio.go\<close>, which selects the library's way of reading files, is here too.
\<close>

section \<open>Resources\<close>

datatype resource = PieceDB | TorrentClient nat | TCPListener nat

datatype swarm_error = SwarmMkdir errno | NoPieceDB | ClientError bool | ListenError bool   \<comment> \<open>whether it is \<open>EADDRINUSE\<close>\<close>

fun in_use :: "swarm_error \<Rightarrow> bool" where
  "in_use (ClientError b) = b"
| "in_use (ListenError b) = b"
| "in_use _ = False"

text \<open>The library's configuration, but for the logger. TCP is the throttled listener's and dialer's; packets go through the
  policed socket of \<open>Packet\<close> and the bodies of web seeds through the throttled transport of \<open>Throttle\<close>.\<close>

record tconfig =
  tcDataDir :: string
  DefaultStorageDir :: string              \<comment> \<open>with the shared piece-completion database, and no part files\<close>
  PolicedPackets :: bool                   \<comment> \<open>\<open>ListenPacket\<close> wraps the socket\<close>
  ThrottledWeb :: bool                     \<comment> \<open>\<open>WebTransport\<close>\<close>
  HTTPUserAgent :: string
  tcListenPort :: int
  DisableTCP :: bool
  NoDHT :: bool
  DisablePEX :: bool
  NoDefaultPortForwarding :: bool
  EstablishedConnsPerTorrent :: int
  TotalHalfOpenConns :: int
  Seed :: bool
  LocalServiceDiscovery :: bool

definition client_config :: "Config \<Rightarrow> tconfig" where
  "client_config cfg =
     \<lparr>tcDataDir = DataDir cfg, DefaultStorageDir = DataDir cfg, PolicedPackets = True, ThrottledWeb = True, HTTPUserAgent = ''viiwork-parrot'',
      tcListenPort = ListenPort cfg, DisableTCP = True, NoDHT = (\<not> DHT cfg), DisablePEX = (\<not> PEX cfg), NoDefaultPortForwarding = (\<not> UPnP cfg),
      EstablishedConnsPerTorrent = MaxConnsPerTorrent (Base (CompiledSchedule cfg)), TotalHalfOpenConns = MaxHalfOpen (Base (CompiledSchedule cfg)),
      Seed = True, LocalServiceDiscovery = LSD cfg\<rparr>"

record senv =
  newClient :: "nat \<Rightarrow> tconfig \<Rightarrow> bool + int"          \<comment> \<open>the port it got\<close>
  listenTCP :: "nat \<Rightarrow> int \<Rightarrow> bool option"
  openPieceDB :: bool

record swarm =
  swClient :: nat
  swPort :: int

text \<open>The listener and a dialer are then given to the client; what they accept and dial is wrapped by \<open>Accept\<close> and \<open>Dial\<close> of
  \<open>Throttle\<close>.\<close>

definition buildSwarm :: "senv \<Rightarrow> Config \<Rightarrow> nat \<Rightarrow> resource set \<Rightarrow> (swarm_error + swarm) \<times> resource set" where
  "buildSwarm V cfg k opened =
     (case newClient V k (client_config cfg) of
        Inl b \<Rightarrow> (Inl (ClientError b), opened)
      | Inr port \<Rightarrow>
          (let opened1 = insert (TorrentClient k) opened
           in case listenTCP V k port of
                Some b \<Rightarrow> (Inl (ListenError b), opened1 - {TorrentClient k})
              | None \<Rightarrow> (Inr \<lparr>swClient = k, swPort = port\<rparr>, insert (TCPListener k) opened1)))"

fun try_swarm :: "senv \<Rightarrow> Config \<Rightarrow> nat \<Rightarrow> nat \<Rightarrow> swarm_error \<Rightarrow> resource set \<Rightarrow> (swarm_error + swarm) \<times> resource set" where
  "try_swarm V cfg 0 i lastErr opened = (Inl lastErr, opened - {PieceDB})"
| "try_swarm V cfg (Suc n) i lastErr opened =
     (case buildSwarm V cfg i opened of
        (Inr sw, o') \<Rightarrow> (Inr sw, o')
      | (Inl e, o') \<Rightarrow> if \<not> in_use e then (Inl e, o' - {PieceDB}) else try_swarm V cfg n (Suc i) e o')"

definition newSwarm :: "senv \<Rightarrow> Config \<Rightarrow> path \<Rightarrow> path \<Rightarrow> world \<Rightarrow> resource set \<Rightarrow> (swarm_error + swarm) \<times> world \<times> resource set" where
  "newSwarm V cfg stateDir dataDr w opened =
     (case MkdirAll w stateDir of
        (Some e, w1) \<Rightarrow> (Inl (SwarmMkdir e), w1, opened)
      | (None, w1) \<Rightarrow>
          (case MkdirAll w1 dataDr of
             (Some e, w2) \<Rightarrow> (Inl (SwarmMkdir e), w2, opened)
           | (None, w2) \<Rightarrow>
               if \<not> openPieceDB V then (Inl NoPieceDB, w2, opened)
               else case try_swarm V cfg (if ListenPort cfg = 0 then 5 else 1) 0 NoPieceDB (insert PieceDB opened) of
                 (r, o') \<Rightarrow> (r, w2, o')))"

definition swarm_Close :: "swarm \<Rightarrow> resource set \<Rightarrow> resource set" where
  "swarm_Close sw opened = opened - {TorrentClient (swClient sw), TCPListener (swClient sw), PieceDB}"

section \<open>Where files are stored\<close>

text \<open>The library stores a torrent's file at the path that the storage's makers give: the base directory, joined
  with the name for a single file and with the file's path in the torrent for a folder.\<close>

definition fileStorage :: "path \<Rightarrow> string \<Rightarrow> path" where
  "fileStorage dir nm = Clean (dir @ [nm])"

definition dirStorage :: "path \<Rightarrow> string list \<Rightarrow> path" where
  "dirStorage rt comps = join_rel rt (Join ''/'' (filter (\<lambda>c. c \<noteq> '''') comps))"

text \<open>\<open>job.storageAt\<close>: where the torrent of a job over \<open>p\<close> has its file, or the file with the components \<open>cs\<close> of a folder.\<close>

definition storageAt :: "job \<Rightarrow> path \<Rightarrow> string list \<Rightarrow> path" where
  "storageAt j p cs = (case jdir j of Some _ \<Rightarrow> dirStorage p cs | None \<Rightarrow> fileStorage (butlast p) (last p))"

section \<open>The way files are read\<close>

text \<open>\<open>EnsureClassicFileIO\<close>: the process keeps running with its variable as it was, or, if \<open>exec\<close> works, it starts
  again with the variable set.\<close>

datatype start = Runs "string option" bool | Again "string option"

definition EnsureClassicFileIO :: "bool \<Rightarrow> bool \<Rightarrow> string option \<Rightarrow> start" where
  "EnsureClassicFileIO exeOk execOk var =
     (case var of
        Some v \<Rightarrow> Runs (Some v) True
      | None \<Rightarrow> if \<not> exeOk then Runs None False else if \<not> execOk then Runs None False else Again (Some ''classic''))"

section \<open>Properties\<close>

lemma buildSwarm_cases:
  obtains (made) sw where "buildSwarm V cfg k opened = (Inr sw, insert (TCPListener k) (insert (TorrentClient k) opened))" "swClient sw = k"
  | (failed) e where "buildSwarm V cfg k opened = (Inl e, opened) \<or> buildSwarm V cfg k opened = (Inl e, opened - {TorrentClient k})"
  by (cases "newClient V k (client_config cfg)"; cases "listenTCP V k (projr (newClient V k (client_config cfg)))") (auto simp: buildSwarm_def)

lemma try_swarm_resources:
  assumes "try_swarm V cfg n i e opened = (r, o')" "\<And>k. i \<le> k \<Longrightarrow> TorrentClient k \<notin> opened \<and> TCPListener k \<notin> opened" "PieceDB \<in> opened"
  shows "(\<exists>err. r = Inl err \<and> o' = opened - {PieceDB}) \<or>
    (\<exists>sw. r = Inr sw \<and> i \<le> swClient sw \<and> swClient sw < i + n \<and> o' = opened \<union> {TorrentClient (swClient sw), TCPListener (swClient sw)}
      \<and> (\<forall>k. i \<le> k \<and> k < swClient sw \<longrightarrow> (\<exists>err. fst (buildSwarm V cfg k opened) = Inl err \<and> in_use err)))"
  using assms
proof (induction n arbitrary: i e)
  case (Suc n)
  show ?case
  proof (cases rule: buildSwarm_cases [of V cfg i opened])
    case (made sw)
    then show ?thesis using Suc.prems(1) by auto
  next
    case (failed err)
    then have b: "buildSwarm V cfg i opened = (Inl err, opened)" using Suc.prems(2) [of i] by auto
    show ?thesis
    proof (cases "in_use err")
      case False
      then show ?thesis using Suc.prems(1) b by auto
    next
      case True
      then have "try_swarm V cfg n (Suc i) err opened = (r, o')" using Suc.prems(1) b by simp
      note IH = Suc.IH [OF this _ Suc.prems(3)]
      have bi: "\<exists>e. fst (buildSwarm V cfg i opened) = Inl e \<and> in_use e" using b True by simp
      have "(\<exists>e. r = Inl e \<and> o' = opened - {PieceDB}) \<or>
        (\<exists>sw. r = Inr sw \<and> Suc i \<le> swClient sw \<and> swClient sw < Suc i + n \<and> o' = opened \<union> {TorrentClient (swClient sw), TCPListener (swClient sw)}
          \<and> (\<forall>k. Suc i \<le> k \<and> k < swClient sw \<longrightarrow> (\<exists>e. fst (buildSwarm V cfg k opened) = Inl e \<and> in_use e)))"
        by (rule IH) (use Suc.prems(2) in auto)
      then show ?thesis
      proof (elim disjE exE conjE)
        fix sw
        assume sw: "r = Inr sw" "Suc i \<le> swClient sw" "swClient sw < Suc i + n" "o' = opened \<union> {TorrentClient (swClient sw), TCPListener (swClient sw)}"
          and later: "\<forall>k. Suc i \<le> k \<and> k < swClient sw \<longrightarrow> (\<exists>e. fst (buildSwarm V cfg k opened) = Inl e \<and> in_use e)"
        have "\<exists>e. fst (buildSwarm V cfg k opened) = Inl e \<and> in_use e" if "i \<le> k" "k < swClient sw" for k
          using that later bi by (cases "k = i") auto
        then show ?thesis using sw by (intro disjI2 exI [of _ sw]) auto
      qed blast
    qed
  qed
qed auto

text \<open>C36. Starting the swarm leaks nothing: when it fails, whatever it had opened, the clients of every attempt and the
  database, is closed; when it succeeds exactly one client, its listener and the database are open, and closing the
  swarm closes these three. It tries again only while the port is taken, at most five times, and only when the port was left to
  the system.\<close>

theorem swarm_leaks_nothing:
  assumes "newSwarm V cfg sd dd w {} = (r, w', opened)"
  shows "(\<exists>e. r = Inl e \<and> opened = {}) \<or>
    (\<exists>sw. r = Inr sw \<and> opened = {PieceDB, TorrentClient (swClient sw), TCPListener (swClient sw)} \<and> swarm_Close sw opened = {}
       \<and> swClient sw < (if ListenPort cfg = 0 then 5 else 1)
       \<and> (\<forall>k. k < swClient sw \<longrightarrow> (\<exists>e. fst (buildSwarm V cfg k {PieceDB}) = Inl e \<and> in_use e)))"
proof -
  consider (early) e where "r = Inl e" "opened = {}"
    | (tried) "try_swarm V cfg (if ListenPort cfg = 0 then 5 else 1) 0 NoPieceDB {PieceDB} = (r, opened)"
    using assms unfolding newSwarm_def by (auto simp del: try_swarm.simps split: prod.splits option.splits if_splits)
  then show ?thesis
  proof cases
    case tried
    from try_swarm_resources [OF this] show ?thesis by (auto simp: swarm_Close_def)
  qed blast
qed

section \<open>Property: torrents are stored where they are verified\<close>

lemma Split_append: "Split c (a @ c # b) = Split c a @ Split c b"
  by (induction a) (auto simp: Split_ne)

lemma Split_Join_concat: "cs \<noteq> [] \<Longrightarrow> Split c (Join [c] cs) = concat (map (Split c) cs)"
proof (induction cs)
  case (Cons x xs)
  then show ?case by (cases xs) (simp_all add: Split_append)
qed simp

lemma rel_path_components: "validRelPath (Join ''/'' cs) \<Longrightarrow> filter (\<lambda>c. c \<noteq> '''') cs = cs"
proof (cases "cs = []")
  case False
  assume "validRelPath (Join ''/'' cs)"
  then have "list_all (\<lambda>c. c \<noteq> '''') (concat (map (Split (CHR ''/'')) cs))"
    using Split_Join_concat [OF False, of "CHR ''/''"] by (auto simp: validRelPath_def list_all_iff split: if_splits)
  then have "c \<noteq> ''''" if "c \<in> set cs" for c using that by (fastforce simp: list_all_iff)
  then show ?thesis by (simp add: filter_id_conv)
qed simp

text \<open>A torrent is stored where its files are looked for: for an info dict that the node accepted, the files that
  the torrent library reads and writes for a job of a folder model, with their lengths, are exactly the places where the verification
  looks for the catalog's files, with the catalog's sizes; and a job of a single file has it at its own path, whatever name the torrent
  gives it.\<close>

theorem storage_where_verified:
  assumes "checkDirInfo (Some i) m = None" "Validate pm urlp [m] = None" "IsDir m" "rt \<noteq> []"
  shows "(\<lambda>(cs, len). (storageAt (j\<lparr>jdir := Some m\<rparr>) rt cs, len)) ` set (UpvertedFiles i) = (\<lambda>f. (join_rel rt (fName f), fSize f)) ` set (Files m)
    \<and> storageAt (j\<lparr>jdir := None\<rparr>) rt cs = Clean rt"
proof -
  have ok: "distinct (map fName (Files m))" "\<And>f. f \<in> set (Files m) \<Longrightarrow> validRelPath (fName f)"
    using assms(2,3) unfolding Validate_wf by (auto simp: wf_models_def model_ok_def dir_ok_def dir_file_ok_def)
  have "mset (listed i) = mset (catalogued m)" using assms(1) checkDirInfo_None [OF ok(1)] by blast
  then have s: "(\<lambda>(cs, len). (Join ''/'' cs, len)) ` set (UpvertedFiles i) = (\<lambda>f. (fName f, fSize f)) ` set (Files m)"
    using mset_eq_setD by (fastforce simp: listed_def catalogued_def)
  have "dirStorage rt cs = join_rel rt (Join ''/'' cs)" if "(cs, len) \<in> set (UpvertedFiles i)" for cs len
  proof -
    have "(Join ''/'' cs, len) \<in> (\<lambda>f. (fName f, fSize f)) ` set (Files m)" using that unfolding s [symmetric] by force
    then have "validRelPath (Join ''/'' cs)" using ok(2) by auto
    then show ?thesis by (simp add: dirStorage_def rel_path_components)
  qed
  then have "(\<lambda>(cs, len). (dirStorage rt cs, len)) ` set (UpvertedFiles i) = (\<lambda>(n, len). (join_rel rt n, len)) ` (\<lambda>(cs, len). (Join ''/'' cs, len)) ` set (UpvertedFiles i)"
    by (force simp: image_image)
  also have "\<dots> = (\<lambda>f. (join_rel rt (fName f), fSize f)) ` set (Files m)" by (simp add: s image_image)
  finally show ?thesis using assms(4) by (simp add: storageAt_def fileStorage_def)
qed

theorem swarm_leaks_nothing_witness:
  "\<exists>sw opened. newSwarm \<lparr>newClient = (\<lambda>k _. Inr (int k)), listenTCP = (\<lambda>k _. if k < 2 then Some True else None), openPieceDB = True\<rparr>
       (Defaults\<lparr>ListenPort := 0\<rparr>) [] [] \<lparr>files = [], faults = (\<lambda>_. None), next_ino = 1, clock = 0\<rparr> {}
       = (Inr sw, \<lparr>files = [], faults = (\<lambda>_. None), next_ino = 1, clock = 0\<rparr>, opened) \<and> swarm_Close sw opened = {}"
proof -
  let ?V = "\<lparr>newClient = (\<lambda>k _. Inr (int k)), listenTCP = (\<lambda>k _. if k < 2 then Some True else None), openPieceDB = True\<rparr>"
  let ?w = "\<lparr>files = [], faults = (\<lambda>_. None), next_ino = 1, clock = 0\<rparr> :: world"
  obtain r opened where o: "newSwarm ?V (Defaults\<lparr>ListenPort := 0\<rparr>) [] [] ?w {} = (r, ?w, opened)" and r: "r = Inr \<lparr>swClient = 2, swPort = 2\<rparr>"
    by (simp add: newSwarm_def MkdirAll_def fault_def eval_nat_numeral buildSwarm_def)
  show ?thesis using swarm_leaks_nothing [OF o] o r by auto
qed

theorem storage_where_verified_witness:
  "(\<lambda>(cs, len). (storageAt (demo_djob\<lparr>jdir := Some demo_dir_model\<rparr>) [''d''] cs, len)) ` {([''sub'', ''w.bin''], 7)} = (\<lambda>f. (join_rel [''d''] (fName f), fSize f)) ` set (Files demo_dir_model)"
proof -
  have c: "checkDirInfo (Some \<lparr>BestName = hexstr 40 (CHR ''0''), InfoIsDir = True, UpvertedFiles = [([''sub'', ''w.bin''], 7)]\<rparr>) demo_dir_model = None"
    by (simp add: checkDirInfo_def demo_dir_model_def demo_dir_file_def want_sizes_def)
  have v: "Validate demo_pm demo_up [demo_dir_model] = None" by code_simp
  have d: "IsDir demo_dir_model" by (simp add: IsDir_def demo_dir_model_def LayoutDir_def)
  show ?thesis using storage_where_verified [OF c v d, of "[''d'']" demo_djob "[]"] by simp
qed

end
