(* ===== verification/Diskfree.thy ===== *)
theory Diskfree
  imports Adopt
begin

text \<open>
  \<open>internal/node/diskfree_unix.go\<close>: the free space of the disk and the space a download already occupies, and with them
  the whole admission of downloads. The kernel is a parameter: what \<open>statfs\<close> answers (\<open>f_bavail\<close> and
  \<open>f_bsize\<close>) and the number of 512-byte blocks (\<open>st_blocks\<close>) of every inode.
\<close>

section \<open>Free and allocated space\<close>

definition statfsFree :: "(path \<Rightarrow> errno + nat \<times> nat) \<Rightarrow> path \<Rightarrow> errno + int" where
  "statfsFree statfs dir =
     (case statfs dir of Inl e \<Rightarrow> Inl e | Inr (bavail, bsize) \<Rightarrow> Inr (int (bavail * bsize) mod 2 ^ 64))"

text \<open>The callback of the walk, on the running total.\<close>

fun count_event :: "(nat \<Rightarrow> int) \<Rightarrow> world \<Rightarrow> path \<Rightarrow> int \<Rightarrow> walk_event \<Rightarrow> int" where
  "count_event blocks w p tot (WalkErr s e) = tot"
| "count_event blocks w p tot (Visit s d) =
     (if is_reg d then (case Lstat w (p @ s) of Inr st \<Rightarrow> i64 (tot + i64 (blocks (inode st) * 512)) | Inl _ \<Rightarrow> tot)
      else tot)"

definition allocatedBytes :: "(nat \<Rightarrow> int) \<Rightarrow> world \<Rightarrow> path \<Rightarrow> int" where
  "allocatedBytes blocks w p =
     (case Stat w p of
        Inl _ \<Rightarrow> 0
      | Inr st \<Rightarrow> if \<not> is_dir st then i64 (blocks (inode st) * 512) else foldl (count_event blocks w p) 0 (WalkDir w p))"

text \<open>\<open>reserveSpace\<close> with both of them: without an answer of \<open>statfs\<close> the download is admitted.\<close>

definition admit_download :: "(path \<Rightarrow> errno + nat \<times> nat) \<Rightarrow> (nat \<Rightarrow> int) \<Rightarrow> node \<Rightarrow> string \<Rightarrow> path \<Rightarrow> int \<Rightarrow> bool \<times> node" where
  "admit_download statfs blocks n ih p sz =
     reserveSpace (allocatedBytes blocks (wd (nio n)))
       (case statfsFree statfs (dataDir (nEnv n)) of Inl _ \<Rightarrow> None | Inr fr \<Rightarrow> Some fr) n ih p sz"

section \<open>Lemmas\<close>

text \<open>The blocks of the regular files at and below a path.\<close>

definition blocks_of :: "(nat \<Rightarrow> int) \<Rightarrow> world \<Rightarrow> path \<Rightarrow> path \<Rightarrow> int" where
  "blocks_of blocks w p s = (case entry w (p @ s) of Some d \<Rightarrow> if is_reg d then blocks (inode d) else 0 | None \<Rightarrow> 0)"

definition used_blocks :: "(nat \<Rightarrow> int) \<Rightarrow> world \<Rightarrow> path \<Rightarrow> int" where
  "used_blocks blocks w p = (\<Sum>s\<in>set (below w p). blocks_of blocks w p s)"

lemma blocks_of_nonneg: "\<forall>i. 0 \<le> blocks i \<Longrightarrow> 0 \<le> blocks_of blocks w p s"
  by (simp add: blocks_of_def split: option.splits)

lemma used_blocks_nonneg: "\<forall>i. 0 \<le> blocks i \<Longrightarrow> 0 \<le> used_blocks blocks w p"
  using blocks_of_nonneg by (simp add: used_blocks_def sum_nonneg)

text \<open>The walk counts at most the blocks that are there, and exactly those when no call fails.\<close>

definition counts :: "world \<Rightarrow> int \<Rightarrow> int \<Rightarrow> int \<Rightarrow> bool" where
  "counts w lo hi x \<longleftrightarrow> lo \<le> x \<and> x \<le> hi \<and> ((\<forall>c. fault w c = None) \<longrightarrow> x = hi)"

lemma count_visit_bounded:
  assumes wf: "wf_world w" and nn: "\<forall>i. 0 \<le> blocks i"
    and t: "0 \<le> t" "t + 512 * blocks_of blocks w p s < 2 ^ 63"
  shows "counts w t (t + 512 * blocks_of blocks w p s) (foldl (count_event blocks w p) t (visit w p p s))"
proof (cases "entry w (p @ s)")
  case None
  then show ?thesis by (simp add: visit_eq blocks_of_def counts_def)
next
  case (Some d)
  have l: "(\<exists>e. Lstat w (p @ s) = Inl e \<and> fault w (SLstat (p @ s)) \<noteq> None) \<or> Lstat w (p @ s) = Inr d"
    using look_entry [OF wf Some] by (auto simp: Lstat_def split: option.splits)
  have "0 \<le> blocks (inode d)" using nn by blast
  then have i: "i64 (blocks (inode d) * 512) = blocks (inode d) * 512" "i64 (t + blocks (inode d) * 512) = t + blocks (inode d) * 512" if "is_reg d"
    using that t Some by (auto intro!: i64_id simp: in_i64_def blocks_of_def)
  have n: "0 \<le> blocks_of blocks w p s" using blocks_of_nonneg [OF nn] .
  show ?thesis
  proof (cases "hidden_by_fault w p s")
    case True
    with hidden_by_fault_quiet [of w p s] Some n show ?thesis by (auto simp: counts_def visit_eq)
  next
    case False
    have "foldl (count_event blocks w p) t (visit w p p s) = count_event blocks w p t (Visit s d)"
      using Some False by (simp add: visit_eq split: option.splits)
    with l i n Some show ?thesis by (auto simp: counts_def blocks_of_def)
  qed
qed

lemma count_visits:
  assumes "wf_world w" and nn: "\<forall>i. 0 \<le> blocks i"
    and "0 \<le> t" "t + 512 * (\<Sum>s\<leftarrow>ss. blocks_of blocks w p s) < 2 ^ 63"
  shows "counts w t (t + 512 * (\<Sum>s\<leftarrow>ss. blocks_of blocks w p s)) (foldl (count_event blocks w p) t (concat (map (visit w p p) ss)))"
  using assms(3,4)
proof (induction ss arbitrary: t)
  case Nil
  then show ?case by (simp add: counts_def)
next
  case (Cons s ss)
  let ?m = "foldl (count_event blocks w p) t (visit w p p s)"
  have n: "0 \<le> blocks_of blocks w p s" "0 \<le> (\<Sum>s\<leftarrow>ss. blocks_of blocks w p s)"
    using blocks_of_nonneg [OF nn] by (auto intro!: sum_list_nonneg)
  with Cons.prems have m: "counts w t (t + 512 * blocks_of blocks w p s) ?m" by (intro count_visit_bounded [OF assms(1) nn]) auto
  then have "0 \<le> ?m" "?m + 512 * (\<Sum>s\<leftarrow>ss. blocks_of blocks w p s) < 2 ^ 63" using Cons.prems by (auto simp: counts_def)
  from Cons.IH [OF this] m show ?case by (auto simp: counts_def algebra_simps)
qed

lemma allocated_counts:
  assumes wf: "wf_world w" and nn: "\<forall>i. 0 \<le> blocks i"
    and p: "real_path w p" "entry w p = None \<or> (\<exists>d. entry w p = Some d \<and> (is_reg d \<or> is_dir d))" and b: "512 * used_blocks blocks w p < 2 ^ 63"
  shows "counts w 0 (512 * used_blocks blocks w p) (allocatedBytes blocks w p)"
proof (cases "entry w p")
  case None
  then have "below w p = []" using set_below_entry [of w p] wf_below_None [OF wf None] by (auto simp: set_empty [symmetric] simp del: set_empty)
  moreover have "\<exists>e. Stat w p = Inl e" using None resolve_real_follow [OF p(1)] by (auto simp: Stat_def look_def split: option.splits)
  ultimately show ?thesis by (auto simp: allocatedBytes_def used_blocks_def counts_def)
next
  case (Some d)
  have r: "resolve w p True = Inr p" using p Some by (intro resolve_real_follow) auto
  have st: "(\<exists>e. Stat w p = Inl e \<and> fault w (SStat p) \<noteq> None) \<or> Stat w p = Inr d"
    using r Some by (auto simp: Stat_def look_def split: option.splits)
  have l: "(\<exists>e. Lstat w p = Inl e \<and> fault w (SLstat p) \<noteq> None) \<or> Lstat w p = Inr d"
    using look_entry [OF wf Some] by (auto simp: Lstat_def split: option.splits)
  note nu = used_blocks_nonneg [OF nn, of w p]
  show ?thesis
  proof (cases "is_dir d")
    case True
    have "distinct (below w p)" by (simp add: below_def)
    then have u: "used_blocks blocks w p = (\<Sum>s\<leftarrow>below w p. blocks_of blocks w p s)"
      by (simp add: used_blocks_def sum_list_distinct_conv_sum_set)
    from l have "counts w 0 (512 * used_blocks blocks w p) (foldl (count_event blocks w p) 0 (WalkDir w p))"
    proof
      assume "\<exists>e. Lstat w p = Inl e \<and> fault w (SLstat p) \<noteq> None"
      then show ?thesis using nu by (auto simp: WalkDir_def counts_def)
    next
      assume "Lstat w p = Inr d"
      from WalkDir_dir [OF this True resolve_real [OF p(1)]] count_visits [OF wf nn, where t = 0 and p = p and ss = "below w p"] b
      show ?thesis by (simp add: u)
    qed
    then show ?thesis using st True nu by (auto simp: allocatedBytes_def counts_def)
  next
    case False
    have "s = []" if "entry w (p @ s) \<noteq> None" for s
    proof (rule ccontr)
      assume "s \<noteq> []"
      with that have "has_children w p" unfolding has_children_iff by (intro exI [of _ "p @ s"]) (auto simp: strict_prefix_def)
      with wf_leaf [OF wf Some False] show False ..
    qed
    then have s: "set (below w p) = {[]}" using Some by (auto simp: set_below_entry)
    have u: "used_blocks blocks w p = blocks (inode d)" using p(2) Some False by (simp add: used_blocks_def s blocks_of_def)
    then have "i64 (blocks (inode d) * 512) = blocks (inode d) * 512" using b nn [rule_format, of "inode d"] by (intro i64_id) (simp add: in_i64_def)
    then show ?thesis using st False u nu by (auto simp: allocatedBytes_def counts_def)
  qed
qed

section \<open>Properties\<close>

text \<open>What a list of admitted downloads still has to write.\<close>

definition to_write :: "(nat \<Rightarrow> int) \<Rightarrow> world \<Rightarrow> (string \<times> reservation) list \<Rightarrow> int" where
  "to_write blocks w rs = (\<Sum>(k, r)\<leftarrow>rs. max 0 (rSize r - 512 * used_blocks blocks w (rPath r)))"

lemma held_to_write:
  assumes "\<forall>(k, r)\<in>set rs. counts w 0 (512 * used_blocks blocks w (rPath r)) (alloc (rPath r))"
  shows "to_write blocks w rs \<le> held alloc rs" "(\<forall>c. fault w c = None) \<Longrightarrow> held alloc rs = to_write blocks w rs"
proof -
  show "to_write blocks w rs \<le> held alloc rs" using assms by (induction rs) (fastforce simp: held_def to_write_def counts_def)+
  show "held alloc rs = to_write blocks w rs" if "\<forall>c. fault w c = None"
    using assms that by (induction rs) (auto simp: held_def to_write_def counts_def)
qed

text \<open>C20. A download is admitted only when the disk has room for it: with what every admitted download
  still has to write, its size less 512 bytes for each block that its regular files occupy, the free space \<open>f_bavail * f_bsize\<close> must
  leave one GiB after this download and all the others. This holds whichever looks at the files fail; and when none of them fails,
  a download for which there is room is admitted. So the bytes already written count only
  once, a sparse file counts what was written to it, and the arithmetic on 64-bit integers neither wraps nor loses anything
  for sizes and disks below 8 EiB. When \<open>statfs\<close> itself fails, the free space is unknown and every download is admitted.
  An admission reserves the download's space and changes nothing else, a refusal changes nothing. The paths of the downloads are assumed to lead
  through no symbolic link and to name regular files or directories, or nothing yet.\<close>

theorem admission_leaves_room:
  assumes w: "wf_world (wd (nio n))" "\<forall>i. 0 \<le> blocks i"
    and paths: "\<forall>(k, r)\<in>set ((ih, \<lparr>rPath = p, rSize = sz\<rparr>) # reserved n). 0 \<le> rSize r \<and> real_path (wd (nio n)) (rPath r)
       \<and> (entry (wd (nio n)) (rPath r) = None \<or> (\<exists>d. entry (wd (nio n)) (rPath r) = Some d \<and> (is_reg d \<or> is_dir d)))
       \<and> 512 * used_blocks blocks (wd (nio n)) (rPath r) < 2 ^ 63"
    and bounds: "sz + (\<Sum>(k, r)\<leftarrow>reserved n. rSize r) + 2 ^ 30 < 2 ^ 63"
      "\<forall>bavail bsize. statfs (dataDir (nEnv n)) = Inr (bavail, bsize) \<longrightarrow> bavail * bsize < 2 ^ 63"
    and adm: "admit_download statfs blocks n ih p sz = (admitted, n')"
  shows "(case statfs (dataDir (nEnv n)) of
      Inl e \<Rightarrow> admitted
    | Inr (bavail, bsize) \<Rightarrow>
        (let need = to_write blocks (wd (nio n)) ((ih, \<lparr>rPath = p, rSize = sz\<rparr>) # filter (\<lambda>(k, _). k \<noteq> ih) (reserved n)) + 2 ^ 30
         in (admitted \<longrightarrow> need \<le> int (bavail * bsize))
          \<and> ((\<forall>c. fault (wd (nio n)) c = None) \<longrightarrow> need \<le> int (bavail * bsize) \<longrightarrow> admitted)))
    \<and> n' = (if admitted then n\<lparr>reserved := (ih, \<lparr>rPath = p, rSize = sz\<rparr>) # filter (\<lambda>(k, _). k \<noteq> ih) (reserved n)\<rparr> else n)"
proof -
  let ?w = "wd (nio n)" and ?rs = "(ih, \<lparr>rPath = p, rSize = sz\<rparr>) # reserved n" and ?a = "allocatedBytes blocks (wd (nio n))"
    and ?new = "(ih, \<lparr>rPath = p, rSize = sz\<rparr>) # filter (\<lambda>(k, _). k \<noteq> ih) (reserved n)"
  have a: "\<forall>(k, r)\<in>set ?rs. counts ?w 0 (512 * used_blocks blocks ?w (rPath r)) (?a (rPath r))"
    using allocated_counts [OF w] paths by blast
  have "0 \<le> rSize r \<and> 0 \<le> ?a (rPath r) \<and> ?a (rPath r) < 2 ^ 63" if "(k, r) \<in> set ?rs" for k r
    using bspec [OF paths that] bspec [OF a that] by (auto simp: counts_def)
  then have sane: "sane_sizes ?a ?rs" unfolding sane_sizes_def spaceMargin_def using bounds(1) by (intro conjI) (blast, simp)
  have n': "n' = (if admitted then n\<lparr>reserved := ?new\<rparr> else n)"
    using adm by (auto simp: admit_download_def reserveSpace_def Let_def split: option.splits if_splits)
  show ?thesis
  proof (cases "statfs (dataDir (nEnv n))")
    case (Inl e)
    with adm n' show ?thesis by (simp add: admit_download_def statfsFree_def reserveSpace_def Let_def)
  next
    case (Inr x)
    obtain bavail bsize where s: "statfs (dataDir (nEnv n)) = Inr (bavail, bsize)" using Inr by (cases x) auto
    have lt: "int (bavail * bsize) < 2 ^ 63" using bounds(2) s by (metis of_nat_less_iff of_nat_numeral of_nat_power)
    then have "statfsFree statfs (dataDir (nEnv n)) = Inr (int (bavail * bsize))" using s by (simp add: statfsFree_def)
    then have "reserveSpace ?a (Some (int (bavail * bsize))) n ih p sz = (admitted, n')" using adm by (simp add: admit_download_def)
    from reserve_space_exact [OF sane _ lt this] have "admitted \<longleftrightarrow> held ?a ?new + 2 ^ 30 \<le> int (bavail * bsize)" by simp
    moreover have "\<forall>(k, r)\<in>set ?new. counts ?w 0 (512 * used_blocks blocks ?w (rPath r)) (?a (rPath r))" using a by auto
    note held_to_write [OF this]
    ultimately show ?thesis using n' s by (auto simp: Let_def)
  qed
qed

text \<open>A disk with 4 GiB free, on which a download of 3 GiB has one GiB left to write; another one has already written 2 GiB.\<close>

definition demo_space :: "int \<Rightarrow> bool \<times> node" where
  "demo_space sz = admit_download (\<lambda>_. Inr (2 ^ 20, 2 ^ 12)) (\<lambda>i. 2 ^ 22)
     (demo_again\<lparr>nio := demo_io, reserved := [(''x'', \<lparr>rPath = [''d'', ''a''], rSize = 3 * 2 ^ 30\<rparr>)]\<rparr>) ''y'' [''d'', ''.incoming'', ''a''] sz"

lemma demo_space_blocks:
  "used_blocks (\<lambda>i. 2 ^ 22) demo_jworld [''d'', ''a''] = 2 ^ 22" "used_blocks (\<lambda>i. 2 ^ 22) demo_jworld [''d'', ''.incoming'', ''a''] = 2 ^ 22"
  by code_simp+

theorem admission_leaves_room_witness: "fst (demo_space (2 ^ 32)) \<and> \<not> fst (demo_space (2 ^ 32 + 1))"
proof -
  let ?n = "demo_again\<lparr>nio := demo_io, reserved := [(''x'', \<lparr>rPath = [''d'', ''a''], rSize = 3 * 2 ^ 30\<rparr>)]\<rparr>"
  have quiet: "\<forall>c. fault demo_jworld c = None" by (simp add: fault_def demo_jworld_def)
  have e: "entry demo_jworld [''d'', ''.incoming'', ''a''] = Some (Reg 3 ''abc'' 7)" "entry demo_jworld [''d'', ''a''] = Some (Reg 4 ''x'' 9)" by code_simp+
  have b: "real_path demo_jworld [''d'', ''.incoming'', ''a'']" using wf_entry(1) [OF demo_jwf] e(1) by simp
  have "fst (demo_space sz) \<longleftrightarrow> sz \<le> 2 ^ 32" if "0 \<le> sz" "sz < 2 ^ 40" for sz
    using admission_leaves_room [where n = ?n and statfs = "\<lambda>_. Inr (2 ^ 20, 2 ^ 12)" and blocks = "\<lambda>i. 2 ^ 22" and ih = "''y''" and sz = sz
        and p = "[''d'', ''.incoming'', ''a'']"] that quiet e b demo_jreal demo_jwf
    by (auto simp: demo_space_def demo_io_def to_write_def demo_space_blocks [simplified] prod_eq_iff)
  from this [of "2 ^ 32"] this [of "2 ^ 32 + 1"] show ?thesis by simp
qed

end
