(* ===== verification/Lifecycle.thy ===== *)
theory Lifecycle
  imports Runs NodeLimits
begin

text \<open>
  \<open>Node.Start\<close> of \<open>internal/node/limits.go\<close> and \<open>Node.Close\<close> of \<open>internal/node/node.go\<close> among all the goroutines of a
  node: the jobs and the goroutines that wait for retired jobs (the system of \<open>Runs\<close>), the loop that applies the limits, and
  the calls of \<open>SetOverride\<close> and \<open>ClearOverride\<close>. \<open>Close\<close> waits for the node's wait group and then closes the swarm.
\<close>

section \<open>State and operations\<close>

text \<open>The limits' goroutine: \<open>Start\<close> adds it to the wait group, applies the limits once, and lets it loop.\<close>

datatype lphase = LOff | LStarting | LRunning | LGone

record life =
  lsys :: sys
  startOnce :: bool
  lloop :: lphase
  lim :: limitsState
  applying :: "time option list"           \<comment> \<open>override calls before their \<open>applyLimits\<close>, with the time they read\<close>
  swarmOpen :: bool

text \<open>The locked part of \<open>Start\<close>.\<close>

definition Start :: "life \<Rightarrow> life" where
  "Start x =
     (if startOnce x then x
      else x\<lparr>startOnce := True, lloop := (if node.closed (snode (lsys x)) then lloop x else LStarting)\<rparr>)"

text \<open>The locked parts of \<open>SetOverride\<close> and \<open>ClearOverride\<close>; both then call \<open>applyLimits\<close>.\<close>

definition set_override :: "zone \<Rightarrow> Sched \<Rightarrow> Partial \<Rightarrow> time \<Rightarrow> life \<Rightarrow> life" where
  "set_override z sc p now x =
     x\<lparr>lim := (lim x)\<lparr>loverride := Some \<lparr>oset = p, orule = snd (Effective z sc now), oat = now\<rparr>\<rparr>, applying := Some now # applying x\<rparr>"

definition clear_override :: "life \<Rightarrow> life" where
  "clear_override x = x\<lparr>lim := (lim x)\<lparr>loverride := None\<rparr>, applying := None # applying x\<rparr>"

text \<open>What \<open>n.wg\<close> counts: jobs, reapers of retired jobs, and the limits' goroutine.\<close>

definition wg_zero :: "life \<Rightarrow> bool" where
  "wg_zero x \<longleftrightarrow> (\<forall>k<next_job (snode (lsys x)). rpt (sruns (lsys x) k) = Over) \<and> reapers (snode (lsys x)) = []
     \<and> lloop x \<noteq> LStarting \<and> lloop x \<noteq> LRunning"

inductive life_step :: "bool \<Rightarrow> magnet_parser \<Rightarrow> zone \<Rightarrow> Sched \<Rightarrow> life \<Rightarrow> life \<Rightarrow> bool" for seedOnly pm z sc where
  works: "sys_step seedOnly pm (lsys x) s \<Longrightarrow> life_step seedOnly pm z sc x (x\<lparr>lsys := s\<rparr>)"
| starts: "life_step seedOnly pm z sc x (Start x)"
| first_apply: "lloop x = LStarting \<Longrightarrow> life_step seedOnly pm z sc x (x\<lparr>lim := tick z sc now (lim x), lloop := LRunning\<rparr>)"
| ticks: "lloop x = LRunning \<Longrightarrow> life_step seedOnly pm z sc x (x\<lparr>lim := tick z sc now (lim x)\<rparr>)"
| loop_ends: "lloop x = LRunning \<Longrightarrow> node.closed (snode (lsys x)) \<Longrightarrow> life_step seedOnly pm z sc x (x\<lparr>lloop := LGone\<rparr>)"
| overrides: "life_step seedOnly pm z sc x (set_override z sc p now x)"
| clears: "life_step seedOnly pm z sc x (clear_override x)"
| applies: "e \<in> set (applying x) \<Longrightarrow> e = None \<or> e = Some now \<Longrightarrow>
    life_step seedOnly pm z sc x (x\<lparr>lim := tick z sc now (lim x), applying := remove1 e (applying x)\<rparr>)"
| swarm_closes: "node.closed (snode (lsys x)) \<Longrightarrow> wg_zero x \<Longrightarrow> life_step seedOnly pm z sc x (x\<lparr>swarmOpen := False\<rparr>)"

inductive life_reach :: "bool \<Rightarrow> magnet_parser \<Rightarrow> zone \<Rightarrow> Sched \<Rightarrow> life \<Rightarrow> bool" for seedOnly pm z sc where
  opened: "New E wnt pr d w = Some (snode (lsys x)) \<Longrightarrow> \<not> startOnce x \<Longrightarrow> lloop x = LOff \<Longrightarrow> applying x = [] \<Longrightarrow> swarmOpen x
    \<Longrightarrow> life_reach seedOnly pm z sc x"
| life_next: "life_reach seedOnly pm z sc x \<Longrightarrow> life_step seedOnly pm z sc x x' \<Longrightarrow> life_reach seedOnly pm z sc x'"

section \<open>Lemmas: a closed node launches nothing\<close>

lemma closed_reconcile: "node.closed n \<Longrightarrow> snd (reconcileLocked r i n) = n"
  by (simp add: reconcileLocked_def split: option.splits)

lemma closed_op:
  assumes "node_op n n'" "node.closed n"
  shows "node.closed n' \<and> next_job n' = next_job n \<and> set (reapers n') \<subseteq> set (reapers n)"
  using assms
proof (induction rule: node_op.induct)
  case (op_ensure n i scan n')
  then show ?case using closed_reconcile [of "n\<lparr>extraWant := i # extraWant n\<rparr>" False None]
    by (auto simp: Ensure_want_def split: option.splits if_splits)
qed (auto simp: SetCatalog_def closed_reconcile Close_def reap_def dest: set_remove1_subset [THEN subsetD] split: prod.splits)

lemma move_reapers: "move so pm ob n k p r = (n', r') \<Longrightarrow> reapers n' = reapers n"
  by (cases "(so, pm, ob, n, k, p, r)" rule: move.cases)
    (auto simp: move_defs reserveSpace_def releaseSpace_def wind_up_def Let_def
      split: prod.splits option.splits bool.splits if_splits sum.splits)

lemma note_phase_keeps:
  "reapers (note_phase k r n) = reapers n" "node.closed (note_phase k r n) = node.closed n" "next_job (note_phase k r n) = next_job n"
  by (simp_all add: note_phase_def)

lemma job_step_keeps:
  assumes "job_step so pm ob k (n, r) = (n', r')"
  shows "reapers n' = reapers n \<and> node.closed n' = node.closed n \<and> next_job n' = next_job n"
proof -
  obtain n1 r1 where m: "move so pm ob n k (rpt r) r = (n1, r1)" by force
  with assms move_io [OF m] move_reapers [OF m] show ?thesis
    by (auto simp: job_step_def io_steps_def note_phase_keeps)
qed

lemma closed_step:
  assumes "sys_step so pm s s'" "node.closed (snode s)"
  shows "node.closed (snode s') \<and> next_job (snode s') = next_job (snode s) \<and> set (reapers (snode s')) \<subseteq> set (reapers (snode s))"
  using assms
proof (induction rule: sys_step.induct)
  case (job_moves k s ob)
  then show ?case using job_step_keeps by (auto simp: with_job_step_def split: prod.splits)
next
  case (node_moves s n)
  then show ?case using closed_op by (simp add: with_new_runs_def)
qed (simp add: AddPeers_def)

lemma closed_steps:
  assumes "(sys_step so pm)\<^sup>*\<^sup>* s s'" "node.closed (snode s)"
  shows "node.closed (snode s')"
  using assms by (induction rule: rtranclp_induct) (use closed_step in blast)+

lemma over_stays:
  assumes "sys_step so pm s s'" "node.closed (snode s)" "\<forall>k<next_job (snode s). rpt (sruns s k) = Over"
  shows "\<forall>k<next_job (snode s'). rpt (sruns s' k) = Over"
  using assms
proof (induction rule: sys_step.induct)
  case (job_moves k s ob)
  then show ?case using job_step_keeps by (auto simp: with_job_step_def job_step_def split: prod.splits)
next
  case (node_moves s n)
  then show ?case using closed_op by (auto simp: with_new_runs_def)
qed (simp add: AddPeers_def)

text \<open>The swarm is closed last: after that nothing of the node runs, and nothing is started.\<close>

definition life_ok :: "bool \<Rightarrow> magnet_parser \<Rightarrow> life \<Rightarrow> bool" where
  "life_ok so pm x \<longleftrightarrow> sys_reach so pm (lsys x) \<and> (lloop x = LGone \<longrightarrow> node.closed (snode (lsys x))) \<and> (lloop x \<noteq> LOff \<longrightarrow> startOnce x)
     \<and> (\<not> swarmOpen x \<longrightarrow> node.closed (snode (lsys x)) \<and> wg_zero x)"

lemma wg_zero_step:
  assumes "sys_step so pm (lsys x) s" "node.closed (snode (lsys x))" "wg_zero x"
  shows "wg_zero (x\<lparr>lsys := s\<rparr>)"
  using assms over_stays [OF assms(1,2)] closed_step [OF assms(1,2)] by (simp add: wg_zero_def)

lemma closed_mono:
  assumes "sys_step so pm s s'" "node.closed (snode s)"
  shows "node.closed (snode s')"
  using closed_step [OF assms] by simp

lemma life_ok_step:
  assumes "life_step so pm z sc x x'" "life_ok so pm x"
  shows "life_ok so pm x'"
  using assms(1)
proof (cases rule: life_step.cases)
  case (works s)
  then show ?thesis using assms(2) wg_zero_step closed_mono sys_next by (fastforce simp: life_ok_def)
qed (use assms(2) in \<open>auto simp: life_ok_def wg_zero_def Start_def set_override_def clear_override_def\<close>)

lemma life_reach_ok: "life_reach so pm z sc x \<Longrightarrow> life_ok so pm x"
proof (induction rule: life_reach.induct)
  case (opened E wnt pr d w x)
  then show ?case using sys_start [of E wnt pr d w "lsys x"] by (auto simp: life_ok_def)
next
  case (life_next x x')
  then show ?case using life_ok_step by blast
qed

section \<open>Lemmas: closing completes\<close>

text \<open>A job that waits has some of its predecessors before it, and a goroutine that waits for a retired job has a job.\<close>

definition waits_known :: "sys \<Rightarrow> bool" where
  "waits_known s \<longleftrightarrow> (\<forall>k<next_job (snode s). \<forall>ws. rpt (sruns s k) = Begin ws \<longrightarrow> set ws \<subseteq> set (kwaits (table (snode s) k)))
     \<and> (\<forall>(k, _)\<in>set (reapers (snode s)). k < next_job (snode s))"

lemma reapers_retire_one: "fst ` set (reapers (retire_one c r n jk)) \<subseteq> insert (snd jk) (fst ` set (reapers n))"
  by (auto simp: retire_one_def retireLocked_def Let_def split: prod.splits option.splits)

lemma reapers_retire: "fst ` set (reapers (foldl (retire_one c r) n js)) \<subseteq> snd ` set js \<union> fst ` set (reapers n)"
proof (induction js arbitrary: n)
  case (Cons jk js)
  show ?case using Cons [of "retire_one c r n jk"] reapers_retire_one [of c r n jk] by auto
qed simp

lemma reapers_launch: "reapers (foldl (launch_one idx) n us) = reapers n"
  by (induction us arbitrary: n) (auto simp: launch_one_def Let_def split: prod.splits)

lemma reapers_prune: "reapers (pruneRecordedLocked p n) = reapers n"
  using pruneRecorded_nio [of p n] by auto

lemma reapers_reconcile:
  assumes "\<forall>(ih, k)\<in>set (jobs n). k < next_job n" "\<forall>(k, _)\<in>set (reapers n). k < next_job n"
  shows "\<forall>(k, _)\<in>set (reapers (snd (reconcileLocked r i n))). k < next_job (snd (reconcileLocked r i n))"
proof -
  have le: "next_job n \<le> next_job (snd (reconcileLocked r i n))" using extends_reconcile [of n r i] by (simp add: extends_def)
  have "\<forall>(k, _)\<in>set (reapers (snd (reconcileLocked r i n))). k < next_job n"
  proof -
    have "\<forall>(k, _)\<in>set (reapers (foldl (retire_one c r) n (jobs n))). k < next_job n" for c
      using reapers_retire [of c r n "jobs n"] assms by fastforce
    then show ?thesis using assms(2)
      by (auto simp: reconcileLocked_def Let_def reapers_launch reapers_prune split: option.splits)
  qed
  with le show ?thesis by fastforce
qed

lemma waits_known_op:
  assumes "node_op n n'" "\<forall>(ih, k)\<in>set (jobs n). k < next_job n" "\<forall>(k, _)\<in>set (reapers n). k < next_job n"
  shows "\<forall>(k, _)\<in>set (reapers n'). k < next_job n'"
  using assms
proof (induction rule: node_op.induct)
  case (op_catalog pm up c n)
  then show ?case using reapers_reconcile [of "n\<lparr>ncat := Some c\<rparr>"] by (simp add: SetCatalog_def)
next
  case (op_ensure n i scan n')
  then show ?case using reapers_reconcile [of "n\<lparr>extraWant := i # extraWant n\<rparr>" False None]
    by (auto simp: Ensure_want_def split: option.splits if_splits)
next
  case (op_scanned n retry idx)
  then show ?case using reapers_reconcile by blast
qed (auto simp: Close_def reap_def dest!: set_remove1_subset [THEN subsetD])

lemma waits_known_job:
  assumes k: "k < next_job (snode s)" and ok: "waits_known s"
  shows "waits_known (with_job_step so pm ob k s)"
proof -
  obtain n' r' where st: "job_step so pm ob k (snode s, sruns s k) = (n', r')" by force
  from st obtain n1 r1 where m: "move so pm ob (snode s) k (rpt (sruns s k)) (sruns s k) = (n1, r1)" and r: "rpt r' = rpt r1"
    and n: "n' = note_phase k r1 n1" "table n1 = table (snode s)" by (rule job_step_parts)
  have w: "kwaits (table n' l) = kwaits (table (snode s) l)" for l by (simp add: n)
  have "set ws \<subseteq> set (kwaits (table (snode s) k))" if "rpt r1 = Begin ws" for ws
  proof (cases "rpt (sruns s k)" rule: phase_cases)
    case (wait us)
    have "set us \<subseteq> set (kwaits (table (snode s) k))" using ok k wait by (simp add: waits_known_def)
    then show ?thesis using move_waiting [OF m [unfolded wait] wait] that by auto
  next
    case act
    then show ?thesis using move_active [OF m _ act] that by auto
  next
    case over
    then show ?thesis using m that by simp
  qed
  then show ?thesis using ok st job_step_keeps [OF st] w r by (simp add: waits_known_def with_job_step_def)
qed

lemma waits_known_reach: "sys_reach so pm s \<Longrightarrow> waits_known s"
proof (induction rule: sys_reach.induct)
  case (sys_start E wnt pr d w s)
  then show ?case by (auto simp: New_def waits_known_def split: option.splits dest!: sym [of _ "snode s"])
next
  case (sys_next s s')
  have "node_inv (snode s)" using sys_reach_ok [OF sys_next(1)] reachable_inv by blast
  then have j: "\<forall>(ih, k)\<in>set (jobs (snode s)). k < next_job (snode s)" by (auto simp: node_inv_def inv_jobs_def)
  from sys_next(2) show ?case
  proof (cases rule: sys_step.cases)
    case (job_moves k ob)
    then show ?thesis using waits_known_job sys_next.IH by simp
  next
    case (node_moves n)
    have ext: "extends (snode s) n" using node_op_extends [OF node_moves(2)] .
    have "set ws \<subseteq> set (kwaits (table n k))" if "k < next_job (snode s)" "rpt (sruns s k) = Begin ws" for k ws
      using ext that sys_next.IH by (simp add: extends_def waits_known_def)
    then show ?thesis
      using node_moves waits_known_op [OF node_moves(2) j] sys_next.IH by (auto simp: waits_known_def with_new_runs_def new_run_def)
  next
    case (peers_found addrs)
    then show ?thesis using sys_next.IH by (simp add: AddPeers_def waits_known_def)
  qed
qed

text \<open>A step in which nothing answers: the torrent source fails, nothing completes, no timer fires.\<close>

definition silent :: "string list \<Rightarrow> obs" where
  "silent ps = \<lparr>oEnv = demo_env, oPeers = ps, oAlloc = (\<lambda>_. 0), oFree = None, oFetch = FetchErr, oOpened = False, oComplete = False,
     oPieces = 0, oTimer = False, oFreed = False\<rparr>"

lemma alone_steps:
  fixes so pm c s k s'
  assumes "k < next_job (snode s)"
  defines "s' \<equiv> (with_job_step so pm (silent (speers s)) k ^^ c) s"
  shows "(sys_step so pm)\<^sup>*\<^sup>* s s' \<and> speers s' = speers s \<and> next_job (snode s') = next_job (snode s) \<and> (\<forall>l. l \<noteq> k \<longrightarrow> sruns s' l = sruns s l)
    \<and> (snode s', sruns s' k) = run_alone so pm k (replicate c (silent (speers s))) (snode s, sruns s k)"
  unfolding s'_def
proof (induction c)
  case 0
  then show ?case by (simp add: run_alone_def)
next
  case (Suc c)
  let ?o = "silent (speers s)" let ?a = "(with_job_step so pm ?o k ^^ c) s"
  have "sys_step so pm ?a (with_job_step so pm ?o k ?a)"
    by (rule job_moves) (use Suc assms(1) in \<open>auto simp: silent_def\<close>)
  with Suc have "(sys_step so pm)\<^sup>*\<^sup>* s (with_job_step so pm ?o k ?a)" by (meson rtranclp.rtrancl_into_rtrancl)
  moreover obtain n' r' where st: "job_step so pm ?o k (snode ?a, sruns ?a k) = (n', r')" by force
  have "run_alone so pm k (replicate (Suc c) ?o) (snode s, sruns s k) = job_step so pm ?o k (run_alone so pm k (replicate c ?o) (snode s, sruns s k))"
    unfolding run_alone_def replicate_Suc replicate_append_same [symmetric] by simp
  then have "run_alone so pm k (replicate (Suc c) ?o) (snode s, sruns s k) = (n', r')" using Suc st by simp
  moreover have "with_job_step so pm ?o k ?a = ?a\<lparr>snode := n', sruns := (sruns ?a)(k := r')\<rparr>" by (simp add: with_job_step_def st)
  moreover have "(with_job_step so pm ?o k ^^ Suc c) s = with_job_step so pm ?o k ?a" by simp
  ultimately show ?case using Suc job_step_keeps [OF st] by (simp only:) simp
qed

lemma jobs_end:
  assumes "sys_reach so pm s" "node.closed (snode s)" "m \<le> next_job (snode s)"
  shows "\<exists>s'. (sys_step so pm)\<^sup>*\<^sup>* s s' \<and> node.closed (snode s') \<and> next_job (snode s') = next_job (snode s) \<and> (\<forall>k<m. rpt (sruns s' k) = Over)"
  using assms(3)
proof (induction m)
  case (Suc m)
  then obtain a where a: "(sys_step so pm)\<^sup>*\<^sup>* s a" "node.closed (snode a)" "next_job (snode a) = next_job (snode s)" "\<forall>k<m. rpt (sruns a k) = Over" by auto
  have r: "sys_reach so pm a" using a(1) assms(1) by (induction rule: rtranclp_induct) (auto intro: sys_next)
  have m: "m < next_job (snode a)" using Suc.prems a(3) by simp
  have ok: "reachable (snode a)" "sys_ok a" using sys_reach_ok [OF r] by auto
  have inv: "inv_waits (snode a)" using reachable_inv [OF ok(1)] by (simp add: node_inv_def)
  have "kphase (table (snode a) w) = Finished \<and> w \<noteq> m" if "w \<in> set ws" "rpt (sruns a m) = Begin ws" for w ws
  proof -
    have "w \<in> set (kwaits (table (snode a) m))" using waits_known_reach [OF r] m that by (auto simp: waits_known_def)
    then have "w < m" using inv m by (auto simp: inv_waits_def waits_for_def)
    then show ?thesis using a(4) m sys_okD(1) [OF ok(2), of w] by simp
  qed
  then have w: "\<forall>w\<in>set (case rpt (sruns a m) of Begin ws \<Rightarrow> ws | _ \<Rightarrow> []). kphase (table (snode a) w) = Finished \<and> w \<noteq> m"
    by (cases "rpt (sruns a m)") auto
  let ?c = "rank (rpt (sruns a m))" and ?o = "silent (speers a)"
  let ?b = "(with_job_step so pm ?o m ^^ ?c) a"
  note b = alone_steps [OF m, of so pm ?c]
  have "rpt (snd (run_alone so pm m (replicate ?c ?o) (snode a, sruns a m))) = Over"
    by (rule run_alone_ends [OF _ _ w]) (use a(2) in \<open>auto simp: ctx_done_def list_all_iff unwoken_def silent_def\<close>)
  then have "rpt (sruns ?b m) = Over" using b by (metis snd_conv)
  moreover have "node.closed (snode ?b)" using b a(2)
    by (metis (no_types, lifting) closed_steps)
  ultimately show ?case using a b
    by (intro exI [of _ ?b]) (auto simp: less_Suc_eq intro: rtranclp_trans)
qed (use assms in auto)

lemma reapers_end:
  assumes "\<forall>(k, _)\<in>set (reapers (snode s)). k < next_job (snode s)" "\<forall>k<next_job (snode s). kphase (table (snode s) k) = Finished"
  shows "\<exists>s'. (sys_step so pm)\<^sup>*\<^sup>* s s' \<and> next_job (snode s') = next_job (snode s) \<and> sruns s' = sruns s \<and> reapers (snode s') = []"
  using assms
proof (induction "length (reapers (snode s))" arbitrary: s)
  case 0
  then show ?case by auto
next
  case (Suc c)
  then obtain k ih dn rs where r: "reapers (snode s) = (k, ih, dn) # rs" by (cases "reapers (snode s)") auto
  let ?n = "reap (k, ih, dn) (snode s)" let ?s = "with_new_runs ?n s"
  have f: "reapers ?n = rs" "next_job ?n = next_job (snode s)" "table ?n = table (snode s)" using r by (auto simp: reap_def)
  have "node_op (snode s) ?n" using r Suc.prems by (intro op_forget) auto
  then have st: "sys_step so pm s ?s" by (rule node_moves)
  have s: "snode ?s = ?n" "sruns ?s = sruns s" using f by (auto simp: with_new_runs_def fun_eq_iff)
  have "\<exists>s'. (sys_step so pm)\<^sup>*\<^sup>* ?s s' \<and> next_job (snode s') = next_job (snode ?s) \<and> sruns s' = sruns ?s \<and> reapers (snode s') = []"
    by (rule Suc.hyps(1)) (use Suc.hyps(2) Suc.prems r s f in auto)
  then show ?case using converse_rtranclp_into_rtranclp [of "sys_step so pm", OF st] s f by auto
qed

lemma life_sys_steps:
  assumes "(sys_step so pm)\<^sup>*\<^sup>* (lsys x) s"
  shows "(life_step so pm z sc)\<^sup>*\<^sup>* x (x\<lparr>lsys := s\<rparr>)"
  using assms
proof (induction rule: rtranclp_induct)
  case (step s s')
  have "life_step so pm z sc (x\<lparr>lsys := s\<rparr>) (x\<lparr>lsys := s'\<rparr>)" using works [of so pm "x\<lparr>lsys := s\<rparr>" s'] step(2) by simp
  with step.IH show ?case by (meson rtranclp.rtrancl_into_rtrancl)
qed simp

text \<open>The limits' goroutine ends: it may still have to apply the limits for the first time.\<close>

lemma loop_ends_steps:
  assumes "node.closed (snode (lsys x))"
  obtains x' where "(life_step so pm z sc)\<^sup>*\<^sup>* x x'" "lsys x' = lsys x" "lloop x' \<noteq> LStarting" "lloop x' \<noteq> LRunning"
proof (cases "lloop x")
  case LStarting
  let ?a = "x\<lparr>lim := tick z sc 0 (lim x), lloop := LRunning\<rparr>"
  have 1: "life_step so pm z sc x ?a" using LStarting by (rule first_apply)
  have 2: "life_step so pm z sc ?a (?a\<lparr>lloop := LGone\<rparr>)" using assms by (intro loop_ends) simp_all
  show ?thesis by (rule that [OF converse_rtranclp_into_rtranclp [of "life_step so pm z sc", OF 1 r_into_rtranclp [of "life_step so pm z sc", OF 2]]]) simp_all
next
  case LRunning
  have "life_step so pm z sc x (x\<lparr>lloop := LGone\<rparr>)" using LRunning assms by (rule loop_ends)
  then show ?thesis by (intro that [of "x\<lparr>lloop := LGone\<rparr>"]) auto
qed (use that [of x] in auto)

lemma closing_completes:
  assumes "life_reach so pm z sc x" "node.closed (snode (lsys x))"
  shows "\<exists>x'. (life_step so pm z sc)\<^sup>*\<^sup>* x x' \<and> \<not> swarmOpen x'"
proof -
  have r: "sys_reach so pm (lsys x)" using life_reach_ok [OF assms(1)] by (simp add: life_ok_def)
  from jobs_end [OF r assms(2) order_refl] obtain a where a: "(sys_step so pm)\<^sup>*\<^sup>* (lsys x) a" "node.closed (snode a)"
    "\<forall>k<next_job (snode a). rpt (sruns a k) = Over" by metis
  have ra: "sys_reach so pm a" using a(1) r by (induction rule: rtranclp_induct) (auto intro: sys_next)
  have "\<forall>k<next_job (snode a). kphase (table (snode a) k) = Finished"
    using sys_reach_ok [OF ra] sys_okD(1) [of a] a(3) by simp
  moreover have "\<forall>(k, _)\<in>set (reapers (snode a)). k < next_job (snode a)" using waits_known_reach [OF ra] by (simp add: waits_known_def)
  ultimately obtain b where b: "(sys_step so pm)\<^sup>*\<^sup>* a b" "next_job (snode b) = next_job (snode a)" "sruns b = sruns a" "reapers (snode b) = []"
    using reapers_end [of a so pm] by blast
  have cb: "node.closed (snode b)" using closed_steps [OF b(1) a(2)] .
  have xb: "(life_step so pm z sc)\<^sup>*\<^sup>* x (x\<lparr>lsys := b\<rparr>)" using life_sys_steps [OF rtranclp_trans [OF a(1) b(1)]] .
  from loop_ends_steps [of "x\<lparr>lsys := b\<rparr>" so pm z sc] cb obtain y where y: "(life_step so pm z sc)\<^sup>*\<^sup>* (x\<lparr>lsys := b\<rparr>) y" "lsys y = b"
    "lloop y \<noteq> LStarting" "lloop y \<noteq> LRunning" by auto
  have "life_step so pm z sc y (y\<lparr>swarmOpen := False\<rparr>)"
    by (rule swarm_closes) (use y cb b a(3) in \<open>auto simp: wg_zero_def\<close>)
  then have "(life_step so pm z sc)\<^sup>*\<^sup>* x (y\<lparr>swarmOpen := False\<rparr>)"
    using rtranclp_trans [OF xb y(1)] by (meson rtranclp.rtrancl_into_rtrancl)
  then show ?thesis by (intro exI [of _ "y\<lparr>swarmOpen := False\<rparr>"]) simp
qed

section \<open>Lemmas: a job that waits is not stuck\<close>

text \<open>Every job that another one waits for, or that a launch would wait for, has been told to stop.\<close>

definition told :: "node \<Rightarrow> bool" where
  "told n \<longleftrightarrow> (\<forall>x k. stopping n x = Some k \<or> stoppingDisk n x = Some k \<longrightarrow> k < next_job n \<and> kstop (table n k))
     \<and> (\<forall>k<next_job n. \<forall>w\<in>set (kwaits (table n k)). w < next_job n \<and> kstop (table n w))"

lemma told_same:
  assumes "told n" "stopping n' = stopping n" "stoppingDisk n' = stoppingDisk n" "next_job n' = next_job n"
    "\<And>k. kstop (table n' k) = kstop (table n k)" "\<And>k. kwaits (table n' k) = kwaits (table n k)"
  shows "told n'"
  using assms by (simp add: told_def)

lemma next_job_retireLocked: "next_job (retireLocked n ih k pr) = next_job n"
  by (simp add: retireLocked_def Let_def)

lemma told_retireLocked: "told n \<Longrightarrow> k < next_job n \<Longrightarrow> told (retireLocked n ih k pr)"
  by (auto simp: told_def retireLocked_def Let_def)

lemma told_retire_one:
  assumes "told n" "snd jk < next_job n"
  shows "told (retire_one c r n jk)" "next_job (retire_one c r n jk) = next_job n"
  using assms by (auto simp: retire_one_def next_job_retireLocked intro: told_retireLocked split: prod.splits option.splits)

lemma told_retire: "told n \<Longrightarrow> \<forall>jk\<in>set js. snd jk < next_job n \<Longrightarrow> told (foldl (retire_one c r) n js)"
  by (induction js arbitrary: n) (auto simp: told_retire_one)

lemma told_launch_one:
  assumes "told n"
  shows "told (launch_one idx n mf)"
proof (cases "map_of (jobs n) (fInfoHash (snd mf))")
  case None
  show ?thesis
    using assms None by (auto simp: told_def launch_one_def Let_def less_Suc_eq dest!: sym [of "Some _"] split: prod.splits option.splits)
next
  case (Some k)
  then show ?thesis using assms by (cases mf) (simp add: launch_one_def)
qed

lemma told_launch: "told n \<Longrightarrow> told (foldl (launch_one idx) n us)"
  by (induction us arbitrary: n) (auto simp: told_launch_one)

lemma told_reconcile:
  assumes "told n" "inv_jobs n"
  shows "told (snd (reconcileLocked r i n))"
proof -
  have j: "\<forall>jk\<in>set (jobs n). snd jk < next_job n" using assms(2) by (auto simp: inv_jobs_def)
  have "told (pruneRecordedLocked p (foldl (retire_one c r) n (jobs n)))" for p c
    using pruneRecorded_nio [of p "foldl (retire_one c r) n (jobs n)"] told_retire [OF assms(1) j, of c r] by (auto simp: told_def)
  then show ?thesis using assms(1) by (auto simp: reconcileLocked_def Let_def told_launch split: option.splits)
qed

lemma told_step:
  assumes "node_step n n'" "told n" "node_inv n"
  shows "told n'"
  using assms
proof (induction rule: node_step.induct)
  case (set_catalog pm up c n)
  then show ?case using told_reconcile [of "n\<lparr>ncat := Some c\<rparr>"] by (simp add: SetCatalog_def told_def node_inv_def inv_jobs_def ih_of_def)
next
  case (ensure n i scan n')
  moreover have "told (snd (reconcileLocked False None (n\<lparr>extraWant := i # extraWant n\<rparr>)))"
    using ensure by (intro told_reconcile) (simp_all add: told_def node_inv_def inv_jobs_def ih_of_def)
  ultimately show ?case by (auto simp: Ensure_want_def split: option.splits if_splits)
next
  case (scanned n retry idx)
  then show ?case using told_reconcile by (simp add: node_inv_def)
next
  case (forget k ih dn n)
  then show ?case by (auto simp: told_def reap_def split: if_splits)
next
  case (space n alloc free ih p sz)
  then show ?case by (auto simp: told_def reserveSpace_def Let_def split: option.splits)
next
  case (unspace n ih)
  then show ?case by (auto simp: told_def releaseSpace_def)
qed (auto simp: told_def Close_def set_phase_def)

lemma told_reach: "reachable n \<Longrightarrow> told n"
proof (induction rule: reachable.induct)
  case (start E wnt pr d w n)
  then show ?case by (auto simp: New_def told_def split: option.splits)
next
  case (step n n')
  then show ?case using told_step reachable_inv by blast
qed

lemma behind_told:
  assumes "told n" "inv_waits n" "behind n k l"
  shows "l < k \<and> l < next_job n \<and> kstop (table n l)"
  using assms(3)
proof (induction rule: trancl_induct)
  case (base l)
  then show ?case using assms(1,2) by (auto simp: told_def inv_waits_def waits_for_def)
next
  case (step l m)
  then show ?case using assms(1,2) by (fastforce simp: told_def inv_waits_def waits_for_def)
qed

text \<open>Steps of the jobs in a set alone, in which nothing answers.\<close>

definition step_of :: "bool \<Rightarrow> magnet_parser \<Rightarrow> (nat \<Rightarrow> bool) \<Rightarrow> sys \<Rightarrow> sys \<Rightarrow> bool" where
  "step_of so pm P s s' \<longleftrightarrow> (\<exists>l<next_job (snode s). P l \<and> s' = with_job_step so pm (silent (speers s)) l s)"

lemma step_of_sys: "step_of so pm P s s' \<Longrightarrow> sys_step so pm s s'"
  by (auto simp: step_of_def silent_def intro!: job_moves)

lemma steps_of_reach: "(step_of so pm P)\<^sup>*\<^sup>* s s' \<Longrightarrow> sys_reach so pm s \<Longrightarrow> sys_reach so pm s'"
  by (induction rule: rtranclp_induct) (auto intro: sys_next step_of_sys)

text \<open>What such steps leave alone.\<close>

definition same_frame :: "(nat \<Rightarrow> bool) \<Rightarrow> sys \<Rightarrow> sys \<Rightarrow> bool" where
  "same_frame P s s' \<longleftrightarrow> next_job (snode s') = next_job (snode s) \<and> speers s' = speers s \<and> (\<forall>l. \<not> P l \<longrightarrow> sruns s' l = sruns s l)
     \<and> (\<forall>l. kstop (table (snode s') l) = kstop (table (snode s) l) \<and> kwaits (table (snode s') l) = kwaits (table (snode s) l))"

lemma job_step_frame: "P k \<Longrightarrow> same_frame P s (with_job_step so pm ob k s)"
proof -
  assume "P k"
  obtain n' r' where st: "job_step so pm ob k (snode s, sruns s k) = (n', r')" by force
  from st obtain n1 r1 where "n' = note_phase k r1 n1" "table n1 = table (snode s)" by (rule job_step_parts)
  with st job_step_keeps [OF st] \<open>P k\<close> show ?thesis by (auto simp: same_frame_def with_job_step_def note_phase_def)
qed

lemma steps_of_frame: "(step_of so pm P)\<^sup>*\<^sup>* s s' \<Longrightarrow> same_frame P s s'"
proof (induction rule: rtranclp_induct)
  case (step a b)
  then obtain l where "P l" "b = with_job_step so pm (silent (speers a)) l a" by (auto simp: step_of_def)
  then have "same_frame P a b" using job_step_frame by blast
  with step.IH show ?case by (simp add: same_frame_def)
qed (simp add: same_frame_def)

lemma steps_alone:
  assumes "k < next_job (snode s)" "P k"
  shows "(step_of so pm P)\<^sup>*\<^sup>* s ((with_job_step so pm (silent (speers s)) k ^^ c) s)"
proof (induction c)
  case (Suc c)
  let ?a = "(with_job_step so pm (silent (speers s)) k ^^ c) s"
  have "same_frame P s ?a" using steps_of_frame [OF Suc] .
  then have "step_of so pm P ?a (with_job_step so pm (silent (speers s)) k ?a)"
    using assms by (auto simp: step_of_def same_frame_def)
  with Suc show ?case by simp
qed simp

text \<open>Stopped jobs that wait only for each other all end.\<close>

lemma stopped_end:
  assumes r: "sys_reach so pm s"
    and P: "\<And>l. P l \<Longrightarrow> l < next_job (snode s) \<and> kstop (table (snode s) l) \<and> (\<forall>w\<in>set (kwaits (table (snode s) l)). P w)"
  shows "\<exists>s'. (step_of so pm P)\<^sup>*\<^sup>* s s' \<and> (\<forall>l<m. P l \<longrightarrow> rpt (sruns s' l) = Over)"
proof (induction m)
  case (Suc m)
  then obtain a where a: "(step_of so pm P)\<^sup>*\<^sup>* s a" "\<forall>l<m. P l \<longrightarrow> rpt (sruns a l) = Over" by auto
  show ?case
  proof (cases "P m")
    case False
    with a show ?thesis by (auto simp: less_Suc_eq)
  next
    case True
    note f = steps_of_frame [OF a(1)]
    have m: "m < next_job (snode a)" "kstop (table (snode a) m)" using f P [OF True] by (auto simp: same_frame_def)
    have ra: "sys_reach so pm a" using steps_of_reach [OF a(1) r] .
    have ok: "sys_ok a" "inv_waits (snode a)" using sys_reach_ok [OF ra] reachable_inv by (auto simp: node_inv_def)
    have "kphase (table (snode a) w) = Finished \<and> w \<noteq> m" if "w \<in> set ws" "rpt (sruns a m) = Begin ws" for w ws
    proof -
      have w: "w \<in> set (kwaits (table (snode a) m))" using waits_known_reach [OF ra] m that by (auto simp: waits_known_def)
      then have "w < m" "P w" using ok(2) m P [OF True] f by (auto simp: inv_waits_def waits_for_def same_frame_def)
      then show ?thesis using a(2) m sys_okD(1) [OF ok(1), of w] by simp
    qed
    then have w: "\<forall>w\<in>set (case rpt (sruns a m) of Begin ws \<Rightarrow> ws | _ \<Rightarrow> []). kphase (table (snode a) w) = Finished \<and> w \<noteq> m"
      by (cases "rpt (sruns a m)") auto
    let ?c = "rank (rpt (sruns a m))" and ?o = "silent (speers a)"
    let ?b = "(with_job_step so pm ?o m ^^ ?c) a"
    note b = alone_steps [OF m(1), of so pm ?c]
    have "rpt (snd (run_alone so pm m (replicate ?c ?o) (snode a, sruns a m))) = Over"
      by (rule run_alone_ends [OF _ _ w]) (use m(2) in \<open>auto simp: ctx_done_def list_all_iff unwoken_def silent_def\<close>)
    then have "rpt (sruns ?b m) = Over" using b by (metis snd_conv)
    moreover have "(step_of so pm P)\<^sup>*\<^sup>* s ?b" using rtranclp_trans [OF a(1) steps_alone [where P = P, OF m(1) True]] .
    ultimately show ?thesis using a(2) b by (intro exI [of _ ?b]) (auto simp: less_Suc_eq)
  qed
qed auto

text \<open>When all predecessors have ended, a job gets past its waits.\<close>

lemma begins:
  assumes "k < next_job (snode s)" "\<forall>w\<in>set ws. kphase (table (snode s) w) = Finished \<and> w \<noteq> k" "rpt (sruns s k) = Begin ws"
  shows "rpt (sruns ((with_job_step so pm (silent (speers s)) k ^^ Suc (length ws)) s) k) \<in> {Searching, Ending}"
  using assms
proof (induction ws arbitrary: s)
  case Nil
  obtain n' r' where st: "job_step so pm (silent (speers s)) k (snode s, sruns s k) = (n', r')" by force
  from st obtain n1 r1 where "move so pm (silent (speers s)) (snode s) k (rpt (sruns s k)) (sruns s k) = (n1, r1)" "rpt r' = rpt r1"
    by (rule job_step_parts)
  with st Nil show ?case by (auto simp: with_job_step_def split: if_splits)
next
  case (Cons w ws)
  let ?a = "with_job_step so pm (silent (speers s)) k s"
  obtain n' r' where st: "job_step so pm (silent (speers s)) k (snode s, sruns s k) = (n', r')" by force
  from st obtain n1 r1 where m: "move so pm (silent (speers s)) (snode s) k (rpt (sruns s k)) (sruns s k) = (n1, r1)"
    "n' = note_phase k r1 n1" "rpt r' = rpt r1" "table n1 = table (snode s)" by (rule job_step_parts)
  have a: "snode ?a = n'" "sruns ?a k = r'" "speers ?a = speers s" "next_job n' = next_job (snode s)"
    using st job_step_keeps [OF st] by (simp_all add: with_job_step_def)
  have "move so pm (silent (speers s)) (snode s) k (Begin (w # ws)) (sruns s k) = (n1, r1)" using m(1) by (simp only: Cons.prems(3))
  then have "rpt (sruns ?a k) = Begin ws" using Cons.prems(2) m(3) by (auto simp: a)
  moreover have "\<forall>w\<in>set ws. kphase (table (snode ?a) w) = Finished \<and> w \<noteq> k" using Cons.prems(2) by (simp add: a m(2,4) note_phase_def)
  moreover have "k < next_job (snode ?a)" using Cons.prems(1) by (simp add: a)
  ultimately have "rpt (sruns ((with_job_step so pm (silent (speers ?a)) k ^^ Suc (length ws)) ?a) k) \<in> {Searching, Ending}"
    by (intro Cons.IH)
  then show ?case by (simp only: a funpow_Suc_right comp_apply length_Cons)
qed

section \<open>Properties\<close>

text \<open>C21. A node shuts down in order: \<open>Close\<close> closes the torrent client only when every job's goroutine has
  returned and holds no torrent and no reserved space, every goroutine waiting for a retired job is gone, and the limits' loop
  is gone or was never started, also when \<open>Start\<close>, \<open>SetCatalog\<close>, \<open>Ensure\<close>, a scan or an override call is
  under way at the same time; from then on nothing starts a job or the loop again; and once \<open>Close\<close> has begun, the node can always get there, so
  it does not deadlock.\<close>

theorem node_shuts_down_in_order:
  assumes "life_reach seedOnly pm z sc x"
  shows "(\<not> swarmOpen x \<longrightarrow> (\<forall>k<next_job (snode (lsys x)). rpt (sruns (lsys x) k) = Over \<and> rtorrent (sruns (lsys x) k) = None)
        \<and> reserved (snode (lsys x)) = [] \<and> reapers (snode (lsys x)) = [] \<and> lloop x \<in> {LOff, LGone}
        \<and> (\<forall>x'. life_step seedOnly pm z sc x x' \<longrightarrow> \<not> swarmOpen x' \<and> lloop x' = lloop x
             \<and> next_job (snode (lsys x')) = next_job (snode (lsys x))))
    \<and> (node.closed (snode (lsys x)) \<longrightarrow> (\<exists>x'. (life_step seedOnly pm z sc)\<^sup>*\<^sup>* x x' \<and> \<not> swarmOpen x'))"
proof (intro conjI impI)
  note ok = life_reach_ok [OF assms, unfolded life_ok_def]
  then have inv: "sys_inv (lsys x)" using sys_reach_inv by blast
  show "\<exists>x'. (life_step seedOnly pm z sc)\<^sup>*\<^sup>* x x' \<and> \<not> swarmOpen x'" if "node.closed (snode (lsys x))"
    using closing_completes [OF assms that] .
  assume "\<not> swarmOpen x"
  with ok have c: "node.closed (snode (lsys x))" and wg: "wg_zero x" by auto
  then have over: "\<forall>k<next_job (snode (lsys x)). rpt (sruns (lsys x) k) = Over" by (simp add: wg_zero_def)
  then show "\<forall>k<next_job (snode (lsys x)). rpt (sruns (lsys x) k) = Over \<and> rtorrent (sruns (lsys x) k) = None"
    using inv by (auto simp: sys_inv_def run_inv_def)
  show "reapers (snode (lsys x)) = []" "lloop x \<in> {LOff, LGone}" using wg by (cases "lloop x"; simp add: wg_zero_def)+
  show "reserved (snode (lsys x)) = []"
  proof (rule ccontr)
    assume "reserved (snode (lsys x)) \<noteq> []"
    then obtain ih v rs where "reserved (snode (lsys x)) = (ih, v) # rs" by (cases "reserved (snode (lsys x))") auto
    then have "(ih, v) \<in> set (reserved (snode (lsys x)))" by simp
    moreover have res: "reserved_ok (lsys x)" using inv by (simp add: sys_inv_def)
    ultimately obtain k where k: "k < next_job (snode (lsys x))" "owing (sruns (lsys x) k)" using reserved_okD(1) by blast
    with reserved_okD(2) [OF res k] over show False by simp
  qed
  show "\<forall>x'. life_step seedOnly pm z sc x x' \<longrightarrow> \<not> swarmOpen x' \<and> lloop x' = lloop x \<and> next_job (snode (lsys x')) = next_job (snode (lsys x))"
  proof (intro allI impI)
    fix x' assume st: "life_step seedOnly pm z sc x x'"
    then show "\<not> swarmOpen x' \<and> lloop x' = lloop x \<and> next_job (snode (lsys x')) = next_job (snode (lsys x))"
    proof (cases rule: life_step.cases)
      case (works s)
      then show ?thesis using closed_step [OF works(2) c] \<open>\<not> swarmOpen x\<close> by simp
    qed (use \<open>\<not> swarmOpen x\<close> c wg in \<open>auto simp: Start_def set_override_def clear_override_def wg_zero_def\<close>)
  qed
qed

text \<open>The sample run, closed while its job downloads.\<close>

lemma life_of_sys: "sys_reach so pm s \<Longrightarrow> \<exists>x. life_reach so pm z sc x \<and> lsys x = s"
proof (induction rule: sys_reach.induct)
  case (sys_start E wnt pr d w s)
  let ?x = "\<lparr>lsys = s, startOnce = False, lloop = LOff, lim = demo_lstate, applying = [], swarmOpen = True\<rparr>"
  have "life_reach so pm z sc ?x" using sys_start by (intro opened) simp_all
  then show ?case by (intro exI [of _ ?x]) simp
next
  case (sys_next s s')
  then obtain x where "life_reach so pm z sc x" "lsys x = s" by blast
  with works [of so pm x s' z sc] sys_next(2) show ?case using life_next by (intro exI [of _ "x\<lparr>lsys := s'\<rparr>"]) auto
qed

theorem node_shuts_down_in_order_witness:
  "\<exists>x x'. lsys x = with_new_runs (Close (snode (demo_moves 4 (disk_with [])))) (demo_moves 4 (disk_with []))
     \<and> (life_step False demo_pm (fixed_zone 0) \<lparr>Base = demo_base, Rules = []\<rparr>)\<^sup>*\<^sup>* x x' \<and> \<not> swarmOpen x'"
proof -
  let ?s = "demo_moves 4 (disk_with [])" let ?c = "with_new_runs (Close (snode ?s)) ?s"
  have "sys_reach False demo_pm ?s" using demo_moves_ready [of 4 "disk_with []"] by (simp add: demo_ready_def)
  then have "sys_reach False demo_pm ?c" by (rule sys_next [OF _ node_moves [OF op_close]])
  then obtain x where x: "life_reach False demo_pm (fixed_zone 0) \<lparr>Base = demo_base, Rules = []\<rparr> x" "lsys x = ?c"
    using life_of_sys by blast
  then have "node.closed (snode (lsys x))" by (simp add: with_new_runs_def Close_def)
  with node_shuts_down_in_order [OF x(1)] x(2) show ?thesis by blast
qed

text \<open>C23. The hand-over does not deadlock: in every reachable state, every job that a job waits for, directly or through other
  waiting jobs, has been told to stop; and from there the job gets past its waits by the steps of
  these predecessors alone and then its own, without any answer from the torrent source, the torrent library or a timer: first all the predecessors' goroutines
  return, however far they had got, also if they were seeding or waiting themselves.\<close>

theorem handover_no_deadlock:
  assumes "sys_reach seedOnly pm s" "k < next_job (snode s)"
  shows "(\<forall>l. behind (snode s) k l \<longrightarrow> kstop (table (snode s) l))
    \<and> (\<exists>s' s''. (step_of seedOnly pm (behind (snode s) k))\<^sup>*\<^sup>* s s' \<and> (\<forall>l. behind (snode s) k l \<longrightarrow> rpt (sruns s' l) = Over)
        \<and> (step_of seedOnly pm (\<lambda>l. l = k))\<^sup>*\<^sup>* s' s'' \<and> kphase (table (snode s'') k) \<noteq> Waiting)"
proof -
  let ?n = "snode s" and ?P = "behind (snode s) k"
  have n: "told ?n" "inv_waits ?n" using sys_reach_ok [OF assms(1)] told_reach reachable_inv by (auto simp: node_inv_def)
  note b = behind_told [OF n]
  have "\<exists>s'. (step_of seedOnly pm ?P)\<^sup>*\<^sup>* s s' \<and> (\<forall>l<k. ?P l \<longrightarrow> rpt (sruns s' l) = Over)"
  proof (rule stopped_end [OF assms(1)])
    fix l assume l: "?P l"
    have "?P w" if "w \<in> set (kwaits (table ?n l))" for w
      using trancl_into_trancl [OF l, of w] b [OF l] that by (simp add: waits_for_def)
    with b [OF l] show "l < next_job ?n \<and> kstop (table ?n l) \<and> (\<forall>w\<in>set (kwaits (table ?n l)). ?P w)" by blast
  qed
  then obtain s' where s': "(step_of seedOnly pm ?P)\<^sup>*\<^sup>* s s'" "\<forall>l. ?P l \<longrightarrow> rpt (sruns s' l) = Over" using b by blast
  note f = steps_of_frame [OF s'(1)]
  have k: "k < next_job (snode s')" using assms(2) f by (simp add: same_frame_def)
  have r: "sys_reach seedOnly pm s'" using steps_of_reach [OF s'(1) assms(1)] .
  have ok: "sys_ok s'" using sys_reach_ok [OF r] by blast
  have "\<exists>s''. (step_of seedOnly pm (\<lambda>l. l = k))\<^sup>*\<^sup>* s' s'' \<and> kphase (table (snode s'') k) \<noteq> Waiting"
  proof (cases "rpt (sruns s' k)")
    case (Begin ws)
    have "kphase (table (snode s') w) = Finished \<and> w \<noteq> k" if "w \<in> set ws" for w
    proof -
      have "w \<in> set (kwaits (table ?n k))" using waits_known_reach [OF r] k Begin that f by (auto simp: waits_known_def same_frame_def)
      then have "?P w" using assms(2) by (auto simp: waits_for_def)
      then have w: "w < k" "w < next_job (snode s')" "rpt (sruns s' w) = Over" using b s'(2) f by (auto simp: same_frame_def)
      from sys_okD(1) [OF ok w(2)] w show ?thesis by simp
    qed
    then have "rpt (sruns ((with_job_step seedOnly pm (silent (speers s')) k ^^ Suc (length ws)) s') k) \<in> {Searching, Ending}"
      using begins [OF k _ Begin] by blast
    moreover have own: "(step_of seedOnly pm (\<lambda>l. l = k))\<^sup>*\<^sup>* s' ((with_job_step seedOnly pm (silent (speers s')) k ^^ Suc (length ws)) s')"
      by (rule steps_alone [OF k]) simp
    note sys_reach_ok [OF steps_of_reach [OF own r]]
    ultimately show ?thesis using steps_of_frame [OF own] own k sys_okD(1) [of _ k] by (fastforce simp: same_frame_def)
  qed (use sys_okD(1) [OF ok k] in \<open>intro exI [of _ s'], simp\<close>)+
  with b s' show ?thesis by blast
qed

text \<open>The sample run: the model of the first job leaves the catalog and comes back while that job searches for a copy.\<close>

definition demo_busy :: node where
  "demo_busy = set_phase 0 Active (demo_started\<lparr>nio := disk_with []\<rparr>)"

definition demo_handover :: sys where
  "demo_handover =
     (let s1 = with_new_runs (snd (SetCatalog demo_small demo_busy)) (demo_moves 1 (disk_with []));
          s2 = with_new_runs (snd (SetCatalog demo_catalog (snode s1))) s1
      in with_new_runs (snd (reconcileLocked True (Some demo_idx) (snode s2))) s2)"

lemma demo_busy_node: "snode (demo_moves 1 (disk_with [])) = demo_busy"
  using demo_at_facts [of "disk_with []"] demo_sys_facts
  by (simp add: demo_moves_def demo_busy_def with_job_step_def job_step_def ctx_done_def note_phase_def set_phase_def newJob_def)

lemma demo_handover_reach: "sys_reach False demo_pm demo_handover"
proof -
  have "sys_reach False demo_pm (demo_moves 1 (disk_with []))" using demo_moves_ready by (simp add: demo_ready_def)
  from sys_next [OF sys_next [OF sys_next [OF this node_moves [OF op_catalog [OF demo_valid(2)]]] node_moves [OF op_catalog [OF demo_valid(1)]]]
      node_moves [OF op_scanned], of True demo_idx]
  show ?thesis by (simp only: demo_handover_def demo_busy_node Let_def)
qed

lemma demo_handover_values:
  "next_job (snode demo_handover) = 3" "kwaits (table (snode demo_handover) 2) = [0, 0]" "rpt (sruns demo_handover 0) = Searching"
proof -
  let ?n1 = "snd (SetCatalog demo_small demo_busy)"
  let ?n2 = "snd (SetCatalog demo_catalog ?n1)" let ?n3 = "snd (reconcileLocked True (Some demo_idx) ?n2)"
  have n: "snode demo_handover = ?n3" by (simp add: demo_handover_def with_new_runs_def Let_def)
  have v: "next_job ?n3 = 3" "kwaits (table ?n3 2) = [0, 0]" "next_job demo_busy = 2" "next_job ?n1 = 2" "next_job ?n2 = 2" by code_simp+
  then have "sruns demo_handover 0 = sruns (demo_moves 1 (disk_with [])) 0"
    by (simp add: demo_handover_def with_new_runs_def Let_def demo_busy_node [simplified])
  then show "rpt (sruns demo_handover 0) = Searching" by (simp only: demo_searching)
  show "next_job (snode demo_handover) = 3" "kwaits (table (snode demo_handover) 2) = [0, 0]" unfolding n by (rule v)+
qed

theorem handover_no_deadlock_witness:
  "kwaits (table (snode demo_handover) 2) = [0, 0] \<and> rpt (sruns demo_handover 0) = Searching
   \<and> (\<exists>s. (sys_step False demo_pm)\<^sup>*\<^sup>* demo_handover s \<and> kphase (table (snode s) 2) \<noteq> Waiting)"
proof -
  have st: "(step_of False demo_pm P)\<^sup>*\<^sup>* a b \<Longrightarrow> (sys_step False demo_pm)\<^sup>*\<^sup>* a b" for P a b
    by (induction rule: rtranclp_induct) (auto intro: rtranclp.rtrancl_into_rtrancl step_of_sys)
  from handover_no_deadlock [OF demo_handover_reach, of 2] demo_handover_values(1) obtain s' s'' where
    "(step_of False demo_pm (behind (snode demo_handover) 2))\<^sup>*\<^sup>* demo_handover s'" "(step_of False demo_pm (\<lambda>l. l = 2))\<^sup>*\<^sup>* s' s''"
    "kphase (table (snode s'') 2) \<noteq> Waiting" by auto
  moreover from this st have "(sys_step False demo_pm)\<^sup>*\<^sup>* demo_handover s''" by (meson rtranclp_trans)
  ultimately show ?thesis using demo_handover_values by blast
qed

end
