(* ===== verification/Cli.thy ===== *)
theory Cli
  imports ApiClient
begin

text \<open>
  \<open>cmd/viiwork-parrot/main.go\<close> and the printing commands of \<open>cmd_client.go\<close>: which command runs and with which
  exit code, the usage text, what \<open>status\<close> writes and the line that \<open>limit\<close> prints. A command's own work is a parameter
  here: a function of its arguments and the world, which includes what it prints, that may return an error's text. Parsing of flags is left out, and so is the
  alignment of the columns of \<open>status\<close> by \<open>text/tabwriter\<close>: the model gives the text that is written to it.
\<close>

section \<open>Commands\<close>

record 'w command =
  cname :: string
  cusage :: string
  crun :: "string list \<Rightarrow> 'w \<Rightarrow> string option \<times> 'w"

definition register :: "'w command \<Rightarrow> 'w command list \<Rightarrow> 'w command list" where
  "register c cmds = cmds @ [c]"

text \<open>The commands as the \<open>init\<close> functions of the files, in the order of the file names, register them; \<open>run\<close> gives
  the function of a command by its name.\<close>

definition commands :: "(string \<Rightarrow> string list \<Rightarrow> 'w \<Rightarrow> string option \<times> 'w) \<Rightarrow> 'w command list" where
  "commands run =
     foldl (\<lambda>cmds (n, u). register \<lparr>cname = n, cusage = u, crun = run n\<rparr> cmds) []
       [(''keygen'', ''create the ed25519 catalog signing key pair''), (''catalog'', ''catalog build|sign|verify|page''),
        (''status'', ''show model states on the local node''), (''limit'', ''show or temporarily override limits''),
        (''daemon'', ''run the seeding/downloading node''),
        (''mktorrent'', ''add a model to catalog.yaml from local copies of its HF files'')]"

definition usage_line :: "string \<Rightarrow> string \<Rightarrow> string" where
  "usage_line n u = ''  '' @ n @ replicate (10 - length n) (CHR '' '') @ '' '' @ u @ [CHR 0x0A]"

definition usage :: "'w command list \<Rightarrow> string" where
  "usage cmds =
     ''usage: viiwork-parrot <command> [flags]'' @ [CHR 0x0A, CHR 0x0A] @ ''commands:'' @ [CHR 0x0A]
     @ usage_line ''version'' ''print version''
     @ concat (map (\<lambda>c. usage_line (cname c) (cusage c)) (sort_key cname cmds))"

record exit_state =
  exit_code :: nat
  stdout :: string
  stderr :: string

fun run_command :: "string \<Rightarrow> string list \<Rightarrow> 'w command list \<Rightarrow> 'w \<Rightarrow> (string option \<times> 'w) option" where
  "run_command n args [] w = None"
| "run_command n args (c # cs) w = (if cname c = n then Some (crun c args w) else run_command n args cs w)"

definition main :: "string \<Rightarrow> 'w command list \<Rightarrow> string list \<Rightarrow> 'w \<Rightarrow> exit_state \<times> 'w" where
  "main ver cmds osArgs w =
     (if length osArgs < 2 then (\<lparr>exit_code = 2, stdout = [], stderr = usage cmds\<rparr>, w)
      else let nm = osArgs ! 1
           in if nm = ''version'' then (\<lparr>exit_code = 0, stdout = ver @ [CHR 0x0A], stderr = []\<rparr>, w)
              else case run_command nm (drop 2 osArgs) cmds w of
                     Some (Some e, w') \<Rightarrow> (\<lparr>exit_code = 1, stdout = [], stderr = ''viiwork-parrot '' @ nm @ '': '' @ e @ [CHR 0x0A]\<rparr>, w')
                   | Some (None, w') \<Rightarrow> (\<lparr>exit_code = 0, stdout = [], stderr = []\<rparr>, w')
                   | None \<Rightarrow> (\<lparr>exit_code = 2, stdout = [], stderr = usage cmds\<rparr>, w))"

text \<open>The subcommands of \<open>catalog\<close>; \<open>quote\<close> is the verb \<open>%q\<close>.\<close>

definition runCatalog :: "(string \<Rightarrow> string) \<Rightarrow> (string \<Rightarrow> string list \<Rightarrow> 'w \<Rightarrow> string option \<times> 'w) \<Rightarrow> string list \<Rightarrow> 'w \<Rightarrow> string option \<times> 'w" where
  "runCatalog quote sub args w =
     (case args of
        [] \<Rightarrow> (Some ''usage: viiwork-parrot catalog build|sign|verify|page [flags]'', w)
      | a # rest \<Rightarrow>
          if a \<in> set [''build'', ''sign'', ''verify'', ''page''] then sub a rest w
          else (Some (''unknown catalog subcommand '' @ quote a), w))"

section \<open>Output of the client's commands\<close>

definition show_int :: "int \<Rightarrow> string" where
  "show_int i = (if i < 0 then ''-'' @ itoa (nat (- i)) else itoa (nat i))"

fun show_state :: "State \<Rightarrow> string" where
  "show_state StateAbsent = ''absent''"
| "show_state StateQueued = ''queued''"
| "show_state StateAdopting = ''adopting''"
| "show_state StateDownloading = ''downloading''"
| "show_state StateVerifying = ''verifying''"
| "show_state StateSeeding = ''seeding''"
| "show_state StatePaused = ''paused''"
| "show_state StateFailed = ''failed''"

definition status_header :: "string list" where
  "status_header = [''MODEL'', ''STATE'', ''DONE'', ''DOWN'', ''UP'', ''PEERS'', ''PATH / ERROR'']"

text \<open>\<open>pr n x\<close> prints \<open>x\<close> with \<open>n\<close> decimals, as in \<open>FormatRate\<close>.\<close>

definition status_cells :: "(nat \<Rightarrow> rat \<Rightarrow> string) \<Rightarrow> ModelStatus \<Rightarrow> string list" where
  "status_cells pr m =
     [msID m, show_state (msState m), pr 1 (Percent m) @ ''%'', formatObservedRate pr (DownRate m), formatObservedRate pr (UpRate m),
      show_int (msPeers m), if msError m \<noteq> '''' then msError m else msPath m]"

definition status_lines :: "(nat \<Rightarrow> rat \<Rightarrow> string) \<Rightarrow> ModelStatus \<Rightarrow> string list" where
  "status_lines pr m =
     Join [CHR 0x09] (status_cells pr m)
     # (if msDuplicates m \<noteq> [] then [''  duplicates: '' @ Join '', '' (msDuplicates m)] else [])"

definition writeStatus :: "(nat \<Rightarrow> rat \<Rightarrow> string) \<Rightarrow> ModelStatus list \<Rightarrow> string" where
  "writeStatus pr st =
     concat (map (\<lambda>l. l @ [CHR 0x0A]) (Join [CHR 0x09] status_header # concat (map (status_lines pr) st)))"

text \<open>An answer that is not JSON leaves the list nil, which \<open>enc\<close>, the JSON encoder, tells from an empty one.\<close>

definition runStatus :: "'s transport \<Rightarrow> wire \<Rightarrow> (ModelStatus list option \<Rightarrow> string) \<Rightarrow> (nat \<Rightarrow> rat \<Rightarrow> string) \<Rightarrow> string \<Rightarrow> bool \<Rightarrow> 's
    \<Rightarrow> (client_error + string) \<times> 's" where
  "runStatus send C enc pr base asJSON s =
     (case client_Status send C base s of
        (Inl e, s') \<Rightarrow> (Inl e, s')
      | (Inr (_, st), s') \<Rightarrow>
          (Inr (if asJSON then enc st @ [CHR 0x0A] else writeStatus pr (case st of None \<Rightarrow> [] | Some l \<Rightarrow> l)), s'))"

definition limit_line :: "(nat \<Rightarrow> rat \<Rightarrow> string) \<Rightarrow> LimitsStatus \<Rightarrow> string" where
  "limit_line pr ls =
     (let e = lsEffective ls
      in ''upload '' @ FormatRate pr (Upload e) @ ''  download '' @ FormatRate pr (Download e) @ ''  max_conns '' @ show_int (MaxConns e)
         @ ''  per_torrent '' @ show_int (MaxConnsPerTorrent e) @ ''  active_uploads '' @ show_int (MaxActiveUploads e)
         @ ''  ('' @ (if lsRule ls \<ge> 0 then ''schedule['' @ show_int (lsRule ls) @ '']'' else ''base'')
         @ (if lsOverride ls \<noteq> None then '' + override until next boundary'' else []) @ '')'' @ [CHR 0x0A])"

section \<open>Lemmas\<close>

lemma run_command_commands:
  "run_command n args (commands run) w =
     (if n \<in> {''keygen'', ''catalog'', ''status'', ''limit'', ''daemon'', ''mktorrent''} then Some (run n args w) else None)"
  by (auto simp: commands_def register_def)

lemma Split_lines: "\<forall>l\<in>set ls. c \<notin> set l \<Longrightarrow> Split c (concat (map (\<lambda>l. l @ [c]) ls)) = ls @ [[]]"
  by (induction ls) (simp_all add: Split_append_sep)

section \<open>Theorems\<close>

text \<open>The exit code tells what happened: 2 with the usage text, and nothing done, when no known command was named; 1 when the command
  that was named ran and failed; 0 when it ran and succeeded, or for \<open>version\<close>, which runs nothing. A command gets the arguments
  after its name, and no other command runs.\<close>

theorem main_exit_codes:
  assumes "main ver (commands run) osArgs w = (x, w')"
  shows "(exit_code x = 2 \<longleftrightarrow> length osArgs < 2 \<or> osArgs ! 1 \<notin> {''version'', ''keygen'', ''catalog'', ''status'', ''limit'', ''daemon'', ''mktorrent''})
    \<and> (if exit_code x = 2 \<or> osArgs ! 1 = ''version'' then w' = w
       else exit_code x = (case fst (run (osArgs ! 1) (drop 2 osArgs) w) of None \<Rightarrow> 0 | Some _ \<Rightarrow> 1) \<and> w' = snd (run (osArgs ! 1) (drop 2 osArgs) w))"
  using assms run_command_commands [of "osArgs ! 1" "drop 2 osArgs" run w]
  by (cases "run_command (osArgs ! 1) (drop 2 osArgs) (commands run) w"; cases "run (osArgs ! 1) (drop 2 osArgs) w"; cases "fst (run (osArgs ! 1) (drop 2 osArgs) w)")
    (auto simp: main_def Let_def simp del: One_nat_def split: if_splits)

text \<open>The \<open>status\<close> table can be read back: as long as no name, path or error has a line break or a tab in it, its lines are the
  header and then, model by model, one line with the model's seven fields between tabs and, exactly if the model has duplicates, a
  line with them.\<close>

theorem status_table_readable:
  assumes "\<forall>m\<in>set st. \<forall>l\<in>set (status_lines pr m). CHR 0x0A \<notin> set l"
    and "\<forall>m\<in>set st. \<forall>c\<in>set (status_cells pr m). CHR 0x09 \<notin> set c"
  shows "Split (CHR 0x0A) (writeStatus pr st) = Join [CHR 0x09] status_header # concat (map (status_lines pr) st) @ [[]]
    \<and> (\<forall>m\<in>set st. Split (CHR 0x09) (hd (status_lines pr m)) = status_cells pr m)"
proof
  have "\<forall>l\<in>set (Join [CHR 0x09] status_header # concat (map (status_lines pr) st)). CHR 0x0A \<notin> set l"
    using assms(1) by (auto simp: status_header_def)
  from Split_lines [OF this] show "Split (CHR 0x0A) (writeStatus pr st) = Join [CHR 0x09] status_header # concat (map (status_lines pr) st) @ [[]]"
    by (simp add: writeStatus_def)
  show "\<forall>m\<in>set st. Split (CHR 0x09) (hd (status_lines pr m)) = status_cells pr m"
  proof
    fix m assume "m \<in> set st"
    with assms(2) have "\<forall>c\<in>set (status_cells pr m). CHR 0x09 \<notin> set c" "status_cells pr m \<noteq> []" by (simp_all add: status_cells_def)
    then show "Split (CHR 0x09) (hd (status_lines pr m)) = status_cells pr m" by (simp add: status_lines_def Split_Join)
  qed
qed

end
