(* ===== verification/Spec2Isabelle.thy ===== *)
theory Spec2Isabelle
  imports Prelude Schedule Connbudget Catalog Fetch Filesystem Downloaded Job DirJob Node Hashcache Floats Units Netip Status NodeLimits
    Throttle Config Api Runs Adopt Packet Mktorrent Hfapi Publish Site Discovery Daemon Commands ApiClient Swarm Diskfree Lifecycle Cli
begin

text \<open>
  A verification development of \<^bold>\<open>viiwork-parrot\<close>, a program that keeps a host's copies of published machine-learning models: it
  fetches a signed catalog, finds the models that are already on the host, downloads the others as torrents, seeds what it has
  verified, and removes what is no longer wanted. Everything below translates the Go code under \<open>src/cmd\<close> and
  \<open>src/internal\<close>; \<open>internal/\<close> is left out of the file names.

  \<^bold>\<open>The program and its parts.\<close> A maintainer publishes models with the commands \<open>mktorrent\<close> and \<open>catalog\<close>:
  \<open>hfapi\<close> asks Hugging Face what the files of a model are, \<open>publish\<close> checks the local copies against that, \<open>mktorrent\<close> makes
  the torrents, \<open>catalog\<close> validates, encodes and signs the list of models, and \<open>site\<close> makes a page of it. A host
  runs the daemon (\<open>cmd_daemon.go\<close>): \<open>config\<close> gives its settings, \<open>catalog/fetch.go\<close> its catalog, \<open>discovery\<close> its
  peers; \<open>node\<close> runs one job per file or folder model, each a goroutine that looks for a copy, verifies it through
  \<open>hashcache\<close>, or downloads one through the torrent library within the limits of \<open>schedule\<close>, \<open>connbudget\<close> and
  \<open>throttle\<close>; \<open>api\<close> answers the other programs of the host over HTTP.

  \<^bold>\<open>Theories.\<close> Each opens with what it models; in the order of the program:
  \<^item> \<open>Prelude\<close>: 64-bit arithmetic with its wrap-around (\<open>i64\<close>), Go's string functions (\<open>TrimSpace\<close> on the bytes of UTF-8) and the lemmas all theories share.
  \<^item> \<open>Schedule\<close> (\<open>schedule/schedule.go\<close>): limits by weekday and time, the scan for boundaries, the parsers of days and times.
    \<open>Connbudget\<close> (\<open>connbudget\<close>): the division of connections. \<open>Units\<close> (\<open>units\<close>): rates as text; \<open>Floats\<close>: the
    rounding of float64 (\<open>float64\<close>), to nearest with ties to even, also in the subnormal range.
  \<^item> \<open>Catalog\<close> (\<open>catalog/catalog.go\<close>): models, files, validation, \<open>Build\<close> and \<open>Parse\<close>. \<open>Fetch\<close> (\<open>sign.go\<close>, \<open>fetch.go\<close>):
    signatures, the fetched and the cached catalog, and torrent files.
  \<^item> \<open>Filesystem\<close>: the system calls on a tree of files, directories and symbolic links, in which every call may fail; and the rename that does
    not replace (\<open>node/rename*.go\<close>). \<open>Downloaded\<close> (\<open>node/downloaded.go\<close>): the record of downloads.
    \<open>Diskfree\<close> (\<open>node/diskfree_unix.go\<close>): free and occupied space.
  \<^item> \<open>Job\<close> (\<open>node/job.go\<close>) and \<open>DirJob\<close> (\<open>node/dirjob.go\<close>): what a job does to the disk: search, verification, promotion, quarantine,
    removal. \<open>Hashcache\<close> (\<open>hashcache\<close>): hashing, and the cache as concurrent calls.
  \<^item> \<open>Node\<close> (\<open>node/node.go\<close>): the sections under the node's lock, and the goroutines as far as the hand-over between jobs needs them.
    \<open>Adopt\<close> (\<open>scanAdopt\<close>, \<open>viiwork.go\<close>): the scan of the host. \<open>Runs\<close>: the goroutine of a job, point by point, and the system of all jobs.
    \<open>Lifecycle\<close> (\<open>Start\<close>, \<open>Close\<close>): the node with its limits' loop until it is closed. \<open>Swarm\<close> (\<open>swarm.go\<close>, \<open>fileio.go\<close>): the torrent client.
  \<^item> \<open>Status\<close> (\<open>node/status.go\<close>), \<open>NodeLimits\<close> (\<open>node/limits.go\<close>), \<open>Netip\<close>, \<open>Throttle\<close> and \<open>Packet\<close> (\<open>throttle\<close>), \<open>Config\<close> (\<open>config\<close>),
    \<open>Api\<close> (\<open>api/api.go\<close>), \<open>ApiClient\<close> (\<open>api/client.go\<close> and the command \<open>limit\<close>), \<open>Discovery\<close> (\<open>discovery\<close>).
  \<^item> \<open>Hfapi\<close>, \<open>Mktorrent\<close>, \<open>Publish\<close>, \<open>Site\<close> (the packages of these names), \<open>Commands\<close> (\<open>cmd_catalog.go\<close>, \<open>cmd_mktorrent.go\<close>),
    \<open>Daemon\<close> (\<open>cmd_daemon.go\<close>), \<open>Cli\<close> (\<open>main.go\<close> and the output of \<open>cmd_client.go\<close>).
  \<^item> This theory joins the daemon, the catalog and the jobs.

  \<^bold>\<open>State and operations.\<close> A Go struct is a record and keeps its field names where they are free; an operation is a function that returns the new
  state; a section under a mutex is one step. Errors are values: an option, or a sum with the error on the left. Concurrency is an inductive
  step relation, whose steps interleave freely: \<open>node_step\<close> (\<open>Node\<close>), \<open>hc_step\<close> (\<open>Hashcache\<close>), \<open>sys_step\<close> (\<open>Runs\<close>),
  \<open>life_step\<close> (\<open>Lifecycle\<close>), \<open>daemon_step\<close> (\<open>Daemon\<close>). What the outside answers to a step, the torrent library, timers, free space, other
  processes that change the disk, is an observation of the step. A job remembers in \<open>seen\<close> what its steps saw, which is not in the
  program and is read by no operation.

  \<^bold>\<open>Interfaces.\<close> Where code relies on a contract, it is a locale, interpreted on the model: \<open>no_replace_move\<close> (both renames), \<open>record_store\<close>
  (the download record), \<open>adoption\<close> (the searches of \<open>Job\<close> and \<open>DirJob\<close>), \<open>torrent_source\<close> (\<open>Fetcher.Torrent\<close>),
  \<open>ensuring_backend\<close> (the node behind the API), \<open>draining_loop\<close> (the daemon's two loops when it stops).

  \<^bold>\<open>What the lemmas show.\<close>
  \<^item> Trust: validation accepts exactly the well-formed catalogs (\<open>validate_exact\<close>), in which no two units share a place on disk; what is fetched
    is signed and not older than before (\<open>fetch_genuine\<close>, \<open>fetch_no_rollback\<close>), with two exceptions that the code has: a cache that cannot
    be read, which \<open>fetch_no_rollback\<close> spells out, and a split signature (\<open>fetch_rollback_through_split_signature\<close>); what is published is what Hugging Face has, and nodes accept it (\<open>publish_only_verified\<close>,
    \<open>published_folder_accepted\<close>, \<open>signed_catalog_verifies\<close>), although a model that the catalog then rejects leaves its torrents
    (\<open>rejected_model_leaves_torrent\<close>) and an empty name given to a file is only in its torrent (\<open>publish_disk_names\<close>); and whatever the daemon seeds was signed and verified
    (\<open>daemon_seeds_signed_content\<close>).
  \<^item> Data: no operation loses or overwrites what is not the node's own (\<open>promote_never_overwrites\<close>, \<open>promote_dir_loses_nothing\<close>,
    \<open>remove_recorded_only_ours\<close>, \<open>prune_only_unused_downloads\<close>, \<open>torrents_never_write_adopted\<close>, \<open>write_torrent_atomic\<close>).
  \<^item> Concurrency: two jobs never work on the same place (\<open>handover_exclusive\<close>), and the jobs that one waits for have been stopped and end by
    their own steps (\<open>handover_no_deadlock\<close>, on the goroutines of \<open>Runs\<close>); the goroutines
    refine the node's abstract steps (\<open>goroutines_refine_node\<close>), which refine the catalog (\<open>reconcile_refines_catalog\<close>); space is reserved by those who need it and,
    unless \<open>statfs\<close> fails, only if it is there (\<open>reservations_of_running_jobs\<close>, \<open>admission_leaves_room\<close>); the cache never serves the sum of another version
    of a file that is left alone (\<open>hashcache_sum_current\<close>); everything stops in order (\<open>stopped_job_ends\<close>, \<open>node_shuts_down_in_order\<close>, \<open>daemon_stops_in_order\<close>,
    \<open>swarm_leaks_nothing\<close>).
  \<^item> Limits and interfaces: boundaries, overrides and their application (\<open>boundary_exact\<close>, \<open>override_until_boundary\<close>, \<open>apply_limits_exact\<close>),
    throttled traffic (\<open>throttled_write_delivers\<close>, \<open>packet_policing_exact\<close>), the configuration (\<open>accepted_config_wellformed\<close>), the API and its client
    (\<open>ensure_ok_means_seeding\<close>, \<open>api_guard_protects\<close>, \<open>client_ensure_is_node_ensure\<close>), the scan and the client of Hugging Face
    (\<open>adopt_index_exact\<close>, \<open>tree_exact\<close>).

  \<^bold>\<open>Parameters.\<close> Code that is not in the repository is an argument: the JSON, YAML and bencode codecs, the parsers of URLs, magnet links and addresses,
  base64 and ed25519 with its key generation, SHA-1 and SHA-256, the torrent library, the token bucket, the HTML template, HTTP servers and clients, the resolver
  and the \<open>tailscale\<close> command, the time zone (an offset for every instant; boundaries and overrides are treated for fixed offsets of
  whole minutes), what the machine makes of a float64 that does not fit in int64, \<open>statfs\<close> and \<open>st_blocks\<close>. A law that a
  property needs of one of them is a hypothesis of that property, with a witness in which a concrete function satisfies it.

  \<^bold>\<open>Bounds and fuel.\<close> Path resolution follows at most 40 symbolic links, as Linux does, and returns \<open>ELOOP\<close> after that. Loops over answers of the
  outside (\<open>waitN\<close>, \<open>conn_Write\<close>, \<open>ReadFrom\<close>, \<open>run_alone\<close>) recurse over the list of these answers and have a result for a list
  that ends too early; the properties say how many answers are enough. The paging of \<open>Hfapi.Tree\<close> may go on for ever if the server wants it to: it is a
  \<open>partial_function\<close>, and \<open>tree_exact\<close> says for which servers it returns. All other recursion is total. Integers
  are \<open>int\<close> with the wrap-around of int64 written out where the code's arithmetic could reach it, and bytes of packets are \<open>8 word\<close>.

  \<^bold>\<open>Not modelled.\<close> Parsing of command-line flags, logging and the alignment of the \<open>status\<close> table, which only concern what people read; the HTML
  template itself; changes of the disk by other processes in the middle of a search, of a promotion or of the publishing of a model (they come between a job's
  steps); the lower-casing of letters that are not ASCII; timeouts of HTTP clients and the length of the tickers' periods, since a step may come at any time; \<open>AddPeers\<close>' effect inside the
  torrent library and \<open>Port\<close>; the closing of throttled connections, which appears as a wait that fails; and the code of tests.
\<close>

section \<open>From the signature to the swarm\<close>

text \<open>C1. Whatever the daemon seeds, the catalog's signer has signed: in every state of the daemon, each job that
  reports itself seeding serves a unit of a model of some catalog whose bytes carried a valid signature
  under the daemon's public key and validated, at a path that the job itself has seen verified against that
  model's SHA-256 sums, whatever the catalog server, the torrent network, the other jobs and everybody else
  on the host did in between.\<close>

theorem daemon_seeds_signed_content:
  assumes "daemon_reach seedOnly pm L f d" "k < next_job (snode (dsys d))" "jstate (rjob (sruns (dsys d) k)) = StateSeeding"
  shows "\<exists>ct data sig m p. Verify L (fetcher.PubKey f) data sig = None \<and> Parse (magnet_uri L) (url_parse L) (json_dec L) data = Inr ct
    \<and> m \<in> set (Models ct) \<and> jf (rjob (sruns (dsys d) k)) \<in> set (units m)
    \<and> jdir (rjob (sruns (dsys d) k)) = (if IsDir m then Some m else None)
    \<and> jpath (rjob (sruns (dsys d) k)) = Some p \<and> once_verified (sruns (dsys d) k) p"
proof -
  have ok: "daemon_ok seedOnly pm L f d" using daemon_reach_ok [OF assms(1)] .
  then have sys: "sys_reach seedOnly pm (dsys d)" by (simp add: daemon_ok_def)
  then have "sys_ok (dsys d)" using sys_reach_ok by blast
  with ok assms(2) have "\<exists>ct. genuine L f ct \<and> unit_of ct (jf (rjob (sruns (dsys d) k))) (jdir (rjob (sruns (dsys d) k)))"
    by (simp add: daemon_ok_def jobs_from_def sys_okD)
  with seeds_only_verified [OF sys assms(2,3)] show ?thesis unfolding genuine_def unit_of_def by blast
qed

theorem daemon_seeds_signed_content_witness:
  "\<exists>ct data sig m. Verify demo_lib (fetcher.PubKey demo_fetcher) data sig = None
     \<and> Parse (magnet_uri demo_lib) (url_parse demo_lib) (json_dec demo_lib) data = Inr ct \<and> m \<in> set (Models ct) \<and> demo_file \<in> set (units m)"
proof -
  let ?S = "disk_with [([''d'', ''m.gguf''], Reg 3 ''abcdefghij'' 7)]" let ?s = "demo_moves 4 ?S"
  have "sys_reach False demo_pm ?s" and k: "0 < next_job (snode ?s)" and f: "jf (rjob (sruns ?s 0)) = demo_file"
    using demo_moves_ready [of 4] by (simp_all add: demo_ready_def)
  then have "run_inv (dataDir (nEnv (snode ?s))) (sruns ?s 0)" using sys_reach_inv [of False demo_pm ?s] by (simp add: sys_inv_def)
  then have st: "jstate (rjob (sruns ?s 0)) = StateSeeding" by (simp add: run_inv_def demo_job_seeds)
  have sel: "dsys (demo_daemon\<lparr>dsys := ?s\<rparr>) = ?s" by simp
  note q = daemon_seeds_signed_content [OF demo_daemon_moves [of 4 ?S], of 0, unfolded sel, OF k st, unfolded f]
  from q show ?thesis by blast
qed

end
